(* ===== verification/Prelude.thy ===== *)
theory Prelude
  imports Main "HOL-Library.AList" "HOL-Library.Sublist"
begin

text \<open>
  Shared vocabulary of the development: results of fallible operations and their sequencing,
  the finite hash maps of the sources as association lists, decimal rendering and trimming of
  strings, the generic notion of a reachable state with its invariant rule, and the closure lemma
  behind every worklist traversal.
\<close>

section \<open>Results\<close>

text \<open>
  A Rust \<^verbatim>\<open>Result<T, E>\<close> is the sum \<open>'e + 'a\<close>, with \<open>Inl\<close> the error. \<open>try\<close> is the
  \<^verbatim>\<open>?\<close> operator followed by the rest of the function body.
\<close>

named_theorems result_simps

definition try_result :: "'e + 'a \<Rightarrow> ('a \<Rightarrow> 'e + 'b) \<Rightarrow> 'e + 'b" where
  "try_result r k = (case r of Inl e \<Rightarrow> Inl e | Inr x \<Rightarrow> k x)"

definition is_ok :: "'e + 'a \<Rightarrow> bool" where
  "is_ok r = (case r of Inl _ \<Rightarrow> False | Inr _ \<Rightarrow> True)"

lemma try_result_simps [simp, result_simps]:
  "try_result (Inl e) k = Inl e"
  "try_result (Inr x) k = k x"
  by (simp_all add: try_result_def)

lemma is_ok_simps [simp, result_simps]:
  "is_ok (Inr x)"
  "\<not> is_ok (Inl e)"
  by (simp_all add: is_ok_def)

lemma try_result_Inr_iff:
  "try_result r k = Inr y \<longleftrightarrow> (\<exists>x. r = Inr x \<and> k x = Inr y)"
  by (cases r) auto

lemma try_result_Inl_iff:
  "try_result r k = Inl e \<longleftrightarrow> r = Inl e \<or> (\<exists>x. r = Inr x \<and> k x = Inl e)"
  by (cases r) auto

section \<open>Time\<close>

text \<open>Instants and durations are numbers of nanoseconds.\<close>

type_synonym instant = nat
type_synonym duration = nat

section \<open>Hash maps\<close>

text \<open>
  A \<^verbatim>\<open>HashMap<K, V>\<close> is an association list with distinct keys: finite by construction, so that
  loops over it terminate. Where the iteration order of the map is visible in a result, the
  operation takes that order as an argument.
\<close>

type_synonym ('k, 'v) hashmap = "('k \<times> 'v) list"

abbreviation hm_get :: "('k, 'v) hashmap \<Rightarrow> 'k \<Rightarrow> 'v option" where
  "hm_get m k \<equiv> map_of m k"

abbreviation hm_insert :: "'k \<Rightarrow> 'v \<Rightarrow> ('k, 'v) hashmap \<Rightarrow> ('k, 'v) hashmap" where
  "hm_insert k v m \<equiv> AList.update k v m"

abbreviation hm_remove :: "'k \<Rightarrow> ('k, 'v) hashmap \<Rightarrow> ('k, 'v) hashmap" where
  "hm_remove k m \<equiv> AList.delete k m"

definition hm_keys :: "('k, 'v) hashmap \<Rightarrow> 'k set" where
  "hm_keys m = fst ` set m"

definition hm_contains :: "('k, 'v) hashmap \<Rightarrow> 'k \<Rightarrow> bool" where
  "hm_contains m k = (map_of m k \<noteq> None)"

definition hm_wf :: "('k, 'v) hashmap \<Rightarrow> bool" where
  "hm_wf m = distinct (map fst m)"

text \<open>\<open>m.get(k).cloned().unwrap_or_default()\<close> on a map of vectors.\<close>

definition hm_get_list :: "('k, 'v list) hashmap \<Rightarrow> 'k \<Rightarrow> 'v list" where
  "hm_get_list m k = (case map_of m k of None \<Rightarrow> [] | Some xs \<Rightarrow> xs)"

text \<open>\<open>m.entry(k).or_default()\<close> on a map of vectors.\<close>

definition hm_or_default :: "'k \<Rightarrow> ('k, 'v list) hashmap \<Rightarrow> ('k, 'v list) hashmap" where
  "hm_or_default k m = (if hm_contains m k then m else hm_insert k [] m)"

lemma hm_contains_iff [simp]: "hm_contains m k \<longleftrightarrow> k \<in> hm_keys m"
  by (simp add: hm_contains_def hm_keys_def map_of_eq_None_iff)

lemma hm_keys_Nil [simp]: "hm_keys [] = {}"
  by (simp add: hm_keys_def)

lemma hm_keys_Cons [simp]: "hm_keys (kv # m) = insert (fst kv) (hm_keys m)"
  by (simp add: hm_keys_def)

lemma finite_hm_keys [simp, intro]: "finite (hm_keys m)"
  by (simp add: hm_keys_def)

lemma hm_keys_insert [simp]: "hm_keys (hm_insert k v m) = insert k (hm_keys m)"
  by (induction m) auto

lemma hm_keys_remove [simp]: "hm_keys (hm_remove k m) = hm_keys m - {k}"
  by (auto simp: hm_keys_def AList.delete_eq)

lemma hm_wf_Nil [simp]: "hm_wf []"
  by (simp add: hm_wf_def)

lemma hm_wf_insert [simp]: "hm_wf m \<Longrightarrow> hm_wf (hm_insert k v m)"
  by (simp add: hm_wf_def AList.distinct_update)

lemma hm_wf_remove [simp]: "hm_wf m \<Longrightarrow> hm_wf (hm_remove k m)"
  by (simp add: hm_wf_def AList.distinct_delete)

lemma hm_get_insert [simp]: "hm_get (hm_insert k v m) k' = (if k' = k then Some v else hm_get m k')"
  by (simp add: AList.update_conv')

lemma hm_get_remove [simp]: "hm_get (hm_remove k m) k' = (if k' = k then None else hm_get m k')"
  by (simp add: AList.delete_conv')

lemma hm_get_None_iff: "hm_get m k = None \<longleftrightarrow> k \<notin> hm_keys m"
  by (simp add: hm_keys_def map_of_eq_None_iff)

lemma hm_get_list_Nil [simp]: "hm_get_list [] k = []"
  by (simp add: hm_get_list_def)

lemma hm_get_list_absent [simp]: "k \<notin> hm_keys m \<Longrightarrow> hm_get_list m k = []"
  by (simp add: hm_get_list_def hm_get_None_iff [symmetric])

lemma hm_get_list_insert [simp]:
  "hm_get_list (hm_insert k v m) k' = (if k' = k then v else hm_get_list m k')"
  by (simp add: hm_get_list_def)

lemma hm_or_default_keys [simp]: "hm_keys (hm_or_default k m) = insert k (hm_keys m)"
  by (auto simp: hm_or_default_def)

lemma hm_or_default_get_list [simp]: "hm_get_list (hm_or_default k m) k' = hm_get_list m k'"
  by (auto simp: hm_or_default_def)

lemma hm_or_default_wf [simp]: "hm_wf m \<Longrightarrow> hm_wf (hm_or_default k m)"
  by (simp add: hm_or_default_def)

section \<open>Strings\<close>

text \<open>
  A Rust string is its UTF-8 byte sequence, a list of \<open>char\<close>. \<open>show_nat\<close> is the decimal
  rendering that \<^verbatim>\<open>format!\<close> uses for an unsigned integer.
\<close>

definition digit_char :: "nat \<Rightarrow> char" where
  "digit_char d = char_of (48 + d)"

fun show_nat :: "nat \<Rightarrow> string" where
  "show_nat n = (if n < 10 then [digit_char n] else show_nat (n div 10) @ [digit_char (n mod 10)])"

declare show_nat.simps [simp del]

text \<open>\<open>quoted s\<close> puts \<open>s\<close> between single quotes.\<close>

definition quoted :: "string \<Rightarrow> string" where
  "quoted s = char_of (39 :: nat) # s @ [char_of (39 :: nat)]"

text \<open>
  \<^verbatim>\<open>str::trim\<close> strips every character with the Unicode property White\_Space from both ends.
  The list holds the UTF-8 encodings of those characters.
\<close>

definition utf8_bytes :: "nat list \<Rightarrow> string" where
  "utf8_bytes bs = map char_of bs"

definition whitespace_encodings :: "string list" where
  "whitespace_encodings =
     map utf8_bytes
       ([[9], [10], [11], [12], [13], [32], [194, 133], [194, 160], [225, 154, 128],
         [226, 128, 168], [226, 128, 169], [226, 128, 175], [226, 129, 159], [227, 128, 128]]
        @ map (\<lambda>b. [226, 128, b]) [128, 129, 130, 131, 132, 133, 134, 135, 136, 137, 138])"

function trim_start :: "string \<Rightarrow> string" where
  "trim_start s =
     (case find (\<lambda>w. prefix w s) whitespace_encodings of
        None \<Rightarrow> s
      | Some w \<Rightarrow> trim_start (drop (length w) s))"
  by pat_completeness auto
termination
proof (relation "measure length", goal_cases)
  case (2 s w)
  then have "prefix w s" and "w \<in> set whitespace_encodings"
    by (auto simp: find_Some_iff)
  moreover from this(2) have "w \<noteq> []"
    by (auto simp: whitespace_encodings_def utf8_bytes_def)
  ultimately show ?case
    by (auto simp: prefix_def)
qed simp

declare trim_start.simps [simp del]

function trim_end :: "string \<Rightarrow> string" where
  "trim_end s =
     (case find (\<lambda>w. suffix w s) whitespace_encodings of
        None \<Rightarrow> s
      | Some w \<Rightarrow> trim_end (take (length s - length w) s))"
  by pat_completeness auto
termination
proof (relation "measure length", goal_cases)
  case (2 s w)
  then have "suffix w s" and "w \<in> set whitespace_encodings"
    by (auto simp: find_Some_iff)
  moreover from this(2) have "w \<noteq> []"
    by (auto simp: whitespace_encodings_def utf8_bytes_def)
  ultimately show ?case
    by (auto simp: suffix_def)
qed simp

declare trim_end.simps [simp del]

definition trim :: "string \<Rightarrow> string" where
  "trim s = trim_end (trim_start s)"

text \<open>A text that begins and ends with a visible ASCII character is left as it is.\<close>

definition graphic :: "char \<Rightarrow> bool" where
  "graphic c \<longleftrightarrow> 32 < (of_char c :: nat) \<and> (of_char c :: nat) < 127"

lemma whitespace_not_graphic:
  "w \<in> set whitespace_encodings \<Longrightarrow> w \<noteq> [] \<and> \<not> graphic (hd w) \<and> \<not> graphic (last w)"
  by (auto simp: whitespace_encodings_def utf8_bytes_def graphic_def)

lemma trim_graphic:
  assumes "s = [] \<or> graphic (hd s) \<and> graphic (last s)"
  shows "trim s = s"
proof -
  have "\<not> prefix w s \<and> \<not> suffix w s" if "w \<in> set whitespace_encodings" for w
    using whitespace_not_graphic [OF that] assms by (auto simp: prefix_def suffix_def)
  then have "trim_start s = s" and "trim_end s = s"
    by (subst trim_start.simps trim_end.simps, auto split: option.split simp: find_Some_iff)+
  then show ?thesis by (simp add: trim_def)
qed

text \<open>
  A character begins at every byte that is no continuation byte: \<open>utf8_chars\<close> are the encoded characters of a string.
\<close>

definition is_continuation :: "char \<Rightarrow> bool" where
  "is_continuation c \<longleftrightarrow> 128 \<le> (of_char c :: nat) \<and> (of_char c :: nat) < 192"

function utf8_chars :: "string \<Rightarrow> string list" where
  "utf8_chars [] = []"
| "utf8_chars (c # cs) = (c # takeWhile is_continuation cs) # utf8_chars (dropWhile is_continuation cs)"
  by pat_completeness auto
termination
  by (relation "measure length") (auto simp: le_imp_less_Suc length_dropWhile_le)

text \<open>\<open>join sep xs\<close> is \<^verbatim>\<open>xs.join(sep)\<close>.\<close>

fun join :: "string \<Rightarrow> string list \<Rightarrow> string" where
  "join sep [] = []"
| "join sep [x] = x"
| "join sep (x # y # ys) = x @ sep @ join sep (y # ys)"

section \<open>Iterators\<close>

text \<open>\<^verbatim>\<open>Iterator::min_by_key\<close> returns the first of the least elements.\<close>

fun min_by_key :: "('a \<Rightarrow> nat) \<Rightarrow> 'a list \<Rightarrow> 'a option" where
  "min_by_key f [] = None"
| "min_by_key f (x # xs) =
     (case min_by_key f xs of None \<Rightarrow> Some x | Some y \<Rightarrow> if f x \<le> f y then Some x else Some y)"

lemma min_by_key_None [simp]: "min_by_key f xs = None \<longleftrightarrow> xs = []"
  by (cases xs) (auto split: option.splits)

lemma min_by_key_mem: "min_by_key f xs = Some x \<Longrightarrow> x \<in> set xs \<and> (\<forall>y\<in>set xs. f x \<le> f y)"
proof (induction xs arbitrary: x)
  case (Cons z zs)
  then show ?case
  proof (cases "min_by_key f zs")
    case (Some y)
    with Cons.IH [OF Some] Cons.prems show ?thesis by (auto split: if_splits dest: le_trans)
  qed simp
qed simp

section \<open>Reachable states\<close>

text \<open>
  A component with interleaved operations is a set of initial states and a step relation. An
  invariant is proved once for the initial states and once for a step; the locale gives it in every
  reachable state, and after any number of further steps.
\<close>

inductive reach :: "('s \<Rightarrow> bool) \<Rightarrow> ('s \<Rightarrow> 's \<Rightarrow> bool) \<Rightarrow> 's \<Rightarrow> bool"
  for init :: "'s \<Rightarrow> bool" and step :: "'s \<Rightarrow> 's \<Rightarrow> bool" where
  reach_init: "init s \<Longrightarrow> reach init step s"
| reach_step: "reach init step s \<Longrightarrow> step s t \<Longrightarrow> reach init step t"

locale invariant_system =
  fixes init :: "'s \<Rightarrow> bool"
    and step :: "'s \<Rightarrow> 's \<Rightarrow> bool"
    and inv :: "'s \<Rightarrow> bool"
  assumes inv_init: "init s \<Longrightarrow> inv s"
    and inv_step: "inv s \<Longrightarrow> step s t \<Longrightarrow> inv t"
begin

lemma inv_reach: "reach init step s \<Longrightarrow> inv s"
  by (induction rule: reach.induct) (auto intro: inv_init inv_step)

lemma inv_steps: "step\<^sup>*\<^sup>* s t \<Longrightarrow> inv s \<Longrightarrow> inv t"
  by (induction rule: rtranclp_induct) (auto intro: inv_step)

end

lemma reach_steps: "step\<^sup>*\<^sup>* s t \<Longrightarrow> reach init step s \<Longrightarrow> reach init step t"
  by (induction rule: rtranclp_induct) (auto intro: reach.reach_step)

text \<open>Systems given by events that may fire: the steps, and runs along a list of events.\<close>

definition fire_step :: "('l \<Rightarrow> 's \<Rightarrow> 's option) \<Rightarrow> 's \<Rightarrow> 's \<Rightarrow> bool" where
  "fire_step fire s t \<longleftrightarrow> (\<exists>l. fire l s = Some t)"

fun run_events :: "('l \<Rightarrow> 's \<Rightarrow> 's option) \<Rightarrow> 'l list \<Rightarrow> 's \<Rightarrow> 's option" where
  "run_events fire [] s = Some s"
| "run_events fire (l # ls) s = Option.bind (fire l s) (run_events fire ls)"

lemma run_events_reach: "run_events fire ls s = Some t \<Longrightarrow> reach init (fire_step fire) s \<Longrightarrow> reach init (fire_step fire) t"
proof (induction ls arbitrary: s)
  case (Cons l ls)
  then obtain z where "fire l s = Some z" and run: "run_events fire ls z = Some t" by (auto simp: bind_eq_Some_conv)
  then have "fire_step fire s z" by (auto simp: fire_step_def)
  from Cons.IH [OF run reach.reach_step [OF Cons.prems(2) this]] show ?case .
qed simp

section \<open>Graphs\<close>

lemma closed_contains_reachable:
  assumes "(x, y) \<in> r\<^sup>*" and "x \<in> V" and "\<And>u v. u \<in> V \<Longrightarrow> (u, v) \<in> r \<Longrightarrow> v \<in> V"
  shows "y \<in> V"
  using assms by (induction rule: rtrancl_induct) auto

text \<open>Every nonempty set of nodes of a finite acyclic graph has a node with no predecessor in it.\<close>

lemma acyclic_minimal:
  assumes "finite r" and "acyclic r" and "x \<in> S"
  obtains z where "z \<in> S" and "\<And>y. (y, z) \<in> r \<Longrightarrow> y \<notin> S"
  using wf_eq_minimal [THEN iffD1, OF finite_acyclic_wf [OF assms(1,2)]] assms(3) by blast

end
