(* ===== verification/Errors.thy ===== *)
theory Errors
  imports Prelude
begin

text \<open>
  The structured errors of \<^verbatim>\<open>core/rskit-errors\<close>: the machine-readable code with its HTTP status,
  retryability and wire name (\<^verbatim>\<open>code.rs\<close>), the application error with its constructors, builders
  and serialized form (\<^verbatim>\<open>error.rs\<close>), the RFC 9457 problem detail built from it
  (\<^verbatim>\<open>response.rs\<close>), and the conversions from standard library errors (\<^verbatim>\<open>convert.rs\<close>).
  The lemmas show that the wire names are a bijection, that the HTTP status never drifts from the
  code whatever builders are applied, and that the private cause of an error reaches neither of the
  two serialized forms.
\<close>

section \<open>Error codes\<close>

datatype error_code =
    ServiceUnavailable | ConnectionFailed | Timeout | RateLimited
  | NotFound | AlreadyExists | Conflict
  | InvalidInput | MissingField | InvalidFormat
  | Unauthorized | Forbidden | TokenExpired | InvalidToken
  | Internal | DatabaseError | ExternalService
  | Cancelled

fun code_is_retryable :: "error_code \<Rightarrow> bool" where
  "code_is_retryable ServiceUnavailable = True"
| "code_is_retryable ConnectionFailed = True"
| "code_is_retryable Timeout = True"
| "code_is_retryable RateLimited = True"
| "code_is_retryable ExternalService = True"
| "code_is_retryable _ = False"

fun code_http_status :: "error_code \<Rightarrow> nat" where
  "code_http_status ServiceUnavailable = 503"
| "code_http_status ConnectionFailed = 502"
| "code_http_status Timeout = 504"
| "code_http_status RateLimited = 429"
| "code_http_status NotFound = 404"
| "code_http_status AlreadyExists = 409"
| "code_http_status Conflict = 409"
| "code_http_status InvalidInput = 422"
| "code_http_status MissingField = 422"
| "code_http_status InvalidFormat = 422"
| "code_http_status Unauthorized = 401"
| "code_http_status Forbidden = 403"
| "code_http_status TokenExpired = 401"
| "code_http_status InvalidToken = 401"
| "code_http_status Internal = 500"
| "code_http_status DatabaseError = 500"
| "code_http_status ExternalService = 502"
| "code_http_status Cancelled = 408"

fun as_str :: "error_code \<Rightarrow> string" where
  "as_str ServiceUnavailable = ''SERVICE_UNAVAILABLE''"
| "as_str ConnectionFailed = ''CONNECTION_FAILED''"
| "as_str Timeout = ''TIMEOUT''"
| "as_str RateLimited = ''RATE_LIMITED''"
| "as_str NotFound = ''NOT_FOUND''"
| "as_str AlreadyExists = ''ALREADY_EXISTS''"
| "as_str Conflict = ''CONFLICT''"
| "as_str InvalidInput = ''INVALID_INPUT''"
| "as_str MissingField = ''MISSING_FIELD''"
| "as_str InvalidFormat = ''INVALID_FORMAT''"
| "as_str Unauthorized = ''UNAUTHORIZED''"
| "as_str Forbidden = ''FORBIDDEN''"
| "as_str TokenExpired = ''TOKEN_EXPIRED''"
| "as_str InvalidToken = ''INVALID_TOKEN''"
| "as_str Internal = ''INTERNAL_ERROR''"
| "as_str DatabaseError = ''DATABASE_ERROR''"
| "as_str ExternalService = ''EXTERNAL_SERVICE_ERROR''"
| "as_str Cancelled = ''CANCELED''"

definition from_wire :: "string \<Rightarrow> error_code option" where
  "from_wire value =
     (if value = ''SERVICE_UNAVAILABLE'' then Some ServiceUnavailable
      else if value = ''CONNECTION_FAILED'' then Some ConnectionFailed
      else if value = ''TIMEOUT'' then Some Timeout
      else if value = ''RATE_LIMITED'' then Some RateLimited
      else if value = ''NOT_FOUND'' then Some NotFound
      else if value = ''ALREADY_EXISTS'' then Some AlreadyExists
      else if value = ''CONFLICT'' then Some Conflict
      else if value = ''INVALID_INPUT'' then Some InvalidInput
      else if value = ''MISSING_FIELD'' then Some MissingField
      else if value = ''INVALID_FORMAT'' then Some InvalidFormat
      else if value = ''UNAUTHORIZED'' then Some Unauthorized
      else if value = ''FORBIDDEN'' then Some Forbidden
      else if value = ''TOKEN_EXPIRED'' then Some TokenExpired
      else if value = ''INVALID_TOKEN'' then Some InvalidToken
      else if value = ''INTERNAL_ERROR'' then Some Internal
      else if value = ''DATABASE_ERROR'' then Some DatabaseError
      else if value = ''EXTERNAL_SERVICE_ERROR'' then Some ExternalService
      else if value = ''CANCELED'' then Some Cancelled
      else None)"

section \<open>Application errors\<close>

text \<open>
  Detail values are JSON; a number is kept as its canonical text. The boxed cause is represented by
  its rendering, the only thing the module ever takes from it.
\<close>

datatype json =
    JNull | JBool bool | JNumber string | JString string
  | JArray "json list" | JObject "(string \<times> json) list"

record app_error =
  err_code :: error_code
  err_message :: string
  err_retryable :: bool
  err_http_status :: nat
  err_details :: "(string, json) hashmap"
  err_cause :: "string option"

type_synonym 'a app_result = "app_error + 'a"

definition app_error_new :: "error_code \<Rightarrow> string \<Rightarrow> app_error" where
  "app_error_new code message =
     \<lparr>err_code = code, err_message = message, err_retryable = code_is_retryable code,
      err_http_status = code_http_status code, err_details = [], err_cause = None\<rparr>"

definition app_error_display :: "app_error \<Rightarrow> string" where
  "app_error_display e = as_str (err_code e) @ '': '' @ err_message e"

definition with_cause :: "string \<Rightarrow> app_error \<Rightarrow> app_error" where
  "with_cause cause e = e\<lparr>err_cause := Some cause\<rparr>"

definition with_detail :: "string \<Rightarrow> json \<Rightarrow> app_error \<Rightarrow> app_error" where
  "with_detail key value e = e\<lparr>err_details := hm_insert key value (err_details e)\<rparr>"

definition with_details :: "(string \<times> json) list \<Rightarrow> app_error \<Rightarrow> app_error" where
  "with_details details e =
     e\<lparr>err_details := fold (\<lambda>(k, v) m. hm_insert k v m) details (err_details e)\<rparr>"

definition with_retryable :: "bool \<Rightarrow> app_error \<Rightarrow> app_error" where
  "with_retryable r e = e\<lparr>err_retryable := r\<rparr>"

definition context_msg :: "string \<Rightarrow> app_error \<Rightarrow> app_error" where
  "context_msg msg e = e\<lparr>err_message := msg @ '': '' @ err_message e\<rparr>"

definition hint :: "string \<Rightarrow> app_error \<Rightarrow> app_error" where
  "hint h e =
     (let h = trim h in
      if h = [] then e
      else if err_message e = [] then e\<lparr>err_message := h\<rparr>
      else e\<lparr>err_message := err_message e @ '' '' @ h\<rparr>)"

subsection \<open>Convenience constructors\<close>

definition service_unavailable :: "string \<Rightarrow> app_error" where
  "service_unavailable service =
     app_error_new ServiceUnavailable (''service unavailable: '' @ service)"

definition connection_failed :: "string \<Rightarrow> app_error" where
  "connection_failed service = app_error_new ConnectionFailed (''connection failed: '' @ service)"

definition timeout_error :: "string \<Rightarrow> app_error" where
  "timeout_error operation = app_error_new Timeout (''operation timed out: '' @ operation)"

definition rate_limited :: app_error where
  "rate_limited = app_error_new RateLimited ''rate limit exceeded''"

definition not_found :: "string \<Rightarrow> string option \<Rightarrow> app_error" where
  "not_found resource ident =
     app_error_new NotFound
       (case ident of
          Some i \<Rightarrow> resource @ '' '' @ quoted i @ '' not found''
        | None \<Rightarrow> resource @ '' not found'')"

definition already_exists :: "string \<Rightarrow> app_error" where
  "already_exists resource = app_error_new AlreadyExists (resource @ '' already exists'')"

definition conflict_error :: "string \<Rightarrow> app_error" where
  "conflict_error reason = app_error_new Conflict reason"

definition invalid_input :: "string \<Rightarrow> string \<Rightarrow> app_error" where
  "invalid_input field reason =
     app_error_new InvalidInput (''invalid '' @ field @ '': '' @ reason)"

definition missing_field :: "string \<Rightarrow> app_error" where
  "missing_field field = app_error_new MissingField (''missing required field: '' @ field)"

definition invalid_format :: "string \<Rightarrow> string \<Rightarrow> app_error" where
  "invalid_format field expected =
     app_error_new InvalidFormat (''invalid format for '' @ field @ '': expected '' @ expected)"

definition unauthorized :: "string \<Rightarrow> app_error" where
  "unauthorized reason = app_error_new Unauthorized reason"

definition forbidden :: "string \<Rightarrow> app_error" where
  "forbidden reason = app_error_new Forbidden reason"

definition token_expired :: app_error where
  "token_expired = app_error_new TokenExpired ''authentication token has expired''"

definition invalid_token :: app_error where
  "invalid_token = app_error_new InvalidToken ''authentication token is invalid''"

definition internal_error :: "string \<Rightarrow> app_error" where
  "internal_error cause = with_cause cause (app_error_new Internal ''internal server error'')"

definition database_error :: "string \<Rightarrow> app_error" where
  "database_error cause = with_cause cause (app_error_new DatabaseError ''database error'')"

definition external_service :: "string \<Rightarrow> string \<Rightarrow> app_error" where
  "external_service service cause =
     with_detail ''service'' (JString service)
       (with_cause cause
         (app_error_new ExternalService (''external service error ('' @ service @ '')'')))"

definition cancelled_error :: "string \<Rightarrow> app_error" where
  "cancelled_error op =
     with_detail ''operation'' (JString op)
       (app_error_new Cancelled
         (''operation '' @ quoted op @ '' was cancelled''))"

subsection \<open>Queries and the serialized form\<close>

definition is_not_found :: "app_error \<Rightarrow> bool" where
  "is_not_found e \<longleftrightarrow> err_code e = NotFound"

definition is_unauthorized :: "app_error \<Rightarrow> bool" where
  "is_unauthorized e \<longleftrightarrow> err_code e \<in> {Unauthorized, TokenExpired, InvalidToken}"

definition serialize_app_error :: "app_error \<Rightarrow> (string \<times> json) list" where
  "serialize_app_error e =
     [(''code'', JString (as_str (err_code e))),
      (''message'', JString (err_message e)),
      (''retryable'', JBool (err_retryable e))]
     @ (if err_details e = [] then [] else [(''details'', JObject (err_details e))])"

section \<open>Problem details\<close>

record problem_detail =
  pd_type :: string
  pd_title :: string
  pd_status :: nat
  pd_detail :: string
  pd_instance :: "string option"
  pd_code :: error_code
  pd_retryable :: bool
  pd_details :: "(string, json) hashmap"

definition type_base_uri :: string where
  "type_base_uri = ''https://rskit.dev/errors/''"

definition to_ascii_lowercase :: "char \<Rightarrow> char" where
  "to_ascii_lowercase c =
     (if 65 \<le> (of_char c :: nat) \<and> (of_char c :: nat) \<le> 90 then char_of ((of_char c :: nat) + 32) else c)"

definition to_ascii_uppercase :: "char \<Rightarrow> char" where
  "to_ascii_uppercase c =
     (if 97 \<le> (of_char c :: nat) \<and> (of_char c :: nat) \<le> 122 then char_of ((of_char c :: nat) - 32) else c)"

definition code_to_kebab :: "error_code \<Rightarrow> string" where
  "code_to_kebab code =
     map (\<lambda>c. if c = CHR ''_'' then CHR ''-'' else c) (map to_ascii_lowercase (as_str code))"

text \<open>\<open>split_on c s\<close> is \<^verbatim>\<open>s.split(c)\<close>: the (possibly empty) pieces between separators.\<close>

fun split_on :: "char \<Rightarrow> string \<Rightarrow> string list" where
  "split_on c [] = [[]]"
| "split_on c (x # xs) =
     (if x = c then [] # split_on c xs
      else case split_on c xs of [] \<Rightarrow> [[x]] | w # ws \<Rightarrow> (x # w) # ws)"

definition title_word :: "string \<Rightarrow> string" where
  "title_word word =
     (case word of
        [] \<Rightarrow> []
      | first # rest \<Rightarrow> to_ascii_uppercase first # map to_ascii_lowercase rest)"

definition code_to_title :: "error_code \<Rightarrow> string" where
  "code_to_title code = join '' '' (map title_word (split_on (CHR ''_'') (as_str code)))"

definition problem_detail_from :: "app_error \<Rightarrow> problem_detail" where
  "problem_detail_from err =
     \<lparr>pd_type = type_base_uri @ code_to_kebab (err_code err),
      pd_title = code_to_title (err_code err),
      pd_status = err_http_status err,
      pd_detail = err_message err,
      pd_instance = None,
      pd_code = err_code err,
      pd_retryable = err_retryable err,
      pd_details = err_details err\<rparr>"

section \<open>Conversions from standard library errors\<close>

datatype io_error_kind =
    IoNotFound | IoPermissionDenied | IoAlreadyExists | IoTimedOut
  | IoConnectionRefused | IoConnectionReset | IoConnectionAborted | IoNotConnected | IoBrokenPipe
  | IoInvalidInput | IoInvalidData | IoOther

fun io_kind_code :: "io_error_kind \<Rightarrow> error_code option" where
  "io_kind_code IoNotFound = Some NotFound"
| "io_kind_code IoPermissionDenied = Some Forbidden"
| "io_kind_code IoAlreadyExists = Some AlreadyExists"
| "io_kind_code IoTimedOut = Some Timeout"
| "io_kind_code IoConnectionRefused = Some ConnectionFailed"
| "io_kind_code IoConnectionReset = Some ConnectionFailed"
| "io_kind_code IoConnectionAborted = Some ConnectionFailed"
| "io_kind_code IoNotConnected = Some ConnectionFailed"
| "io_kind_code IoBrokenPipe = Some ConnectionFailed"
| "io_kind_code IoInvalidInput = Some InvalidInput"
| "io_kind_code IoInvalidData = Some InvalidInput"
| "io_kind_code IoOther = None"

definition from_io_error :: "io_error_kind \<Rightarrow> string \<Rightarrow> app_error" where
  "from_io_error kind rendered =
     (case io_kind_code kind of
        None \<Rightarrow> internal_error rendered
      | Some code \<Rightarrow> with_cause rendered (app_error_new code rendered))"

definition from_json_error :: "string \<Rightarrow> app_error" where
  "from_json_error rendered = with_cause rendered (app_error_new InvalidFormat rendered)"

definition from_fmt_error :: "string \<Rightarrow> app_error" where
  "from_fmt_error rendered = internal_error rendered"

definition from_utf8_error :: "string \<Rightarrow> app_error" where
  "from_utf8_error rendered = with_cause rendered (app_error_new InvalidInput rendered)"

definition status_from_app_error :: "app_error \<Rightarrow> nat" where
  "status_from_app_error e = err_http_status e"

section \<open>Lemmas\<close>

named_theorems error_defs

lemmas constructor_defs [error_defs] =
  service_unavailable_def connection_failed_def timeout_error_def rate_limited_def not_found_def
  already_exists_def conflict_error_def invalid_input_def missing_field_def invalid_format_def
  unauthorized_def forbidden_def token_expired_def invalid_token_def internal_error_def
  database_error_def external_service_def cancelled_error_def

lemmas builder_defs [error_defs] =
  with_cause_def with_detail_def with_details_def with_retryable_def context_msg_def hint_def

lemma app_error_new_simps [simp]:
  "err_code (app_error_new c m) = c"
  "err_message (app_error_new c m) = m"
  "err_retryable (app_error_new c m) = code_is_retryable c"
  "err_http_status (app_error_new c m) = code_http_status c"
  "err_details (app_error_new c m) = []"
  "err_cause (app_error_new c m) = None"
  by (simp_all add: app_error_new_def)

lemma err_code_constructors [simp]:
  "err_code (service_unavailable s) = ServiceUnavailable"
  "err_code (timeout_error s) = Timeout"
  "err_code rate_limited = RateLimited"
  "err_code (invalid_input f r) = InvalidInput"
  "err_code (internal_error c) = Internal"
  "err_code (with_detail k v e) = err_code e"
  "err_code (with_cause c e) = err_code e"
  "err_code (context_msg m e) = err_code e"
  "err_code (hint h e) = err_code e"
  by (simp_all add: error_defs Let_def)

lemma from_wire_as_str [simp]: "from_wire (as_str c) = Some c"
  by (cases c) (simp_all add: from_wire_def)

lemma from_wire_SomeD: "from_wire s = Some c \<Longrightarrow> as_str c = s"
  by (auto simp: from_wire_def split: if_splits)

text \<open>
  Every error the module can produce: \<open>new\<close>, a conversion, and any sequence of builders. The
  convenience constructors are such sequences.
\<close>

inductive app_error_built :: "app_error \<Rightarrow> bool" where
  built_new: "app_error_built (app_error_new c m)"
| built_cause: "app_error_built e \<Longrightarrow> app_error_built (with_cause x e)"
| built_detail: "app_error_built e \<Longrightarrow> app_error_built (with_detail k v e)"
| built_details: "app_error_built e \<Longrightarrow> app_error_built (with_details ds e)"
| built_retryable: "app_error_built e \<Longrightarrow> app_error_built (with_retryable r e)"
| built_context: "app_error_built e \<Longrightarrow> app_error_built (context_msg m e)"
| built_hint: "app_error_built e \<Longrightarrow> app_error_built (hint h e)"

declare app_error_built.intros [intro]

lemma built_constructors [intro]:
  "app_error_built (service_unavailable s)" "app_error_built (connection_failed s)"
  "app_error_built (timeout_error s)" "app_error_built rate_limited"
  "app_error_built (not_found s i)" "app_error_built (already_exists s)"
  "app_error_built (conflict_error s)" "app_error_built (invalid_input s t)"
  "app_error_built (missing_field s)" "app_error_built (invalid_format s t)"
  "app_error_built (unauthorized s)" "app_error_built (forbidden s)"
  "app_error_built token_expired" "app_error_built invalid_token"
  "app_error_built (internal_error s)" "app_error_built (database_error s)"
  "app_error_built (external_service s t)" "app_error_built (cancelled_error s)"
  by (auto simp: constructor_defs)

lemma built_conversions [intro]:
  "app_error_built (from_io_error k s)" "app_error_built (from_json_error s)"
  "app_error_built (from_fmt_error s)" "app_error_built (from_utf8_error s)"
  by (auto simp: from_io_error_def from_json_error_def from_fmt_error_def from_utf8_error_def
      split: option.splits)

lemma fold_hm_insert_wf: "hm_wf m \<Longrightarrow> hm_wf (fold (\<lambda>(k, v) m. hm_insert k v m) ds m)"
  by (induction ds arbitrary: m) auto

lemma app_error_built_inv:
  "app_error_built e \<Longrightarrow>
     err_http_status e = code_http_status (err_code e) \<and> hm_wf (err_details e)"
  by (induction rule: app_error_built.induct)
     (auto simp: builder_defs Let_def intro: fold_hm_insert_wf)

text \<open>The kebab-case form of a wire name determines the name.\<close>

definition wire_char :: "char \<Rightarrow> bool" where
  "wire_char x \<longleftrightarrow> x = CHR ''_'' \<or> (65 \<le> (of_char x :: nat) \<and> (of_char x :: nat) \<le> 90)"

definition unkebab :: "char \<Rightarrow> char" where
  "unkebab x = (if x = CHR ''-'' then CHR ''_'' else char_of ((of_char x :: nat) - 32))"

lemma as_str_chars: "list_all wire_char (as_str c)"
  by (cases c) (simp_all add: wire_char_def)

lemma unkebab_kebab:
  "wire_char x \<Longrightarrow>
     unkebab (if to_ascii_lowercase x = CHR ''_'' then CHR ''-'' else to_ascii_lowercase x) = x"
proof (cases "x = CHR ''_''")
  case True
  then show ?thesis by (simp add: unkebab_def to_ascii_lowercase_def)
next
  case False
  moreover assume "wire_char x"
  ultimately have b: "65 \<le> (of_char x :: nat)" "(of_char x :: nat) \<le> 90"
    by (auto simp: wire_char_def)
  define y where "y = char_of ((of_char x :: nat) + 32)"
  have y: "(of_char y :: nat) = of_char x + 32"
    using b by (simp add: y_def)
  have "y \<noteq> CHR ''_''" "y \<noteq> CHR ''-''"
    using y b by auto
  moreover have "char_of ((of_char y :: nat) - 32) = x"
    by (simp add: y)
  ultimately show ?thesis
    using b by (simp add: unkebab_def to_ascii_lowercase_def y_def [symmetric])
qed

lemma map_unkebab_kebab: "map unkebab (code_to_kebab c) = as_str c"
  using as_str_chars [of c]
  by (simp add: code_to_kebab_def list_all_iff map_idI unkebab_kebab)

lemma code_to_kebab_inject [simp]: "code_to_kebab c = code_to_kebab d \<longleftrightarrow> c = d"
proof
  assume "code_to_kebab c = code_to_kebab d"
  then have "from_wire (as_str c) = from_wire (as_str d)"
    by (metis map_unkebab_kebab)
  then show "c = d" by simp
qed simp

section \<open>Properties\<close>

text \<open>
  The wire name of an error code and its parser are inverse to each other: a string parses to a
  code exactly when it is the stable name of that code, so no code is lost on the wire and no other
  string is accepted.
\<close>

lemma from_wire_iff_as_str: "from_wire s = Some c \<longleftrightarrow> s = as_str c"
  by (auto dest: from_wire_SomeD)

text \<open>
  Whatever constructor, conversion and sequence of builders produced an error, its HTTP status
  is the canonical status of its code, and so is the status of the problem detail built from it.
\<close>

lemma http_status_never_drifts:
  assumes "app_error_built e"
  shows "err_http_status e = code_http_status (err_code e) \<and>
         pd_status (problem_detail_from e) = code_http_status (pd_code (problem_detail_from e))"
  using app_error_built_inv [OF assms] by (simp_all add: problem_detail_from_def)

lemma http_status_never_drifts_witness:
  "app_error_built (hint ''retry later'' (with_retryable False (timeout_error ''query''))) \<and>
   err_http_status (hint ''retry later'' (with_retryable False (timeout_error ''query''))) = 504"
proof -
  have b: "app_error_built (hint ''retry later'' (with_retryable False (timeout_error ''query'')))"
    by blast
  show ?thesis
    using b http_status_never_drifts [OF b] by (simp add: with_retryable_def)
qed

text \<open>
  The cause attached to an error never reaches a client: neither the serialized error nor the
  problem detail depends on it, and the three wrapping constructors produce the same response for
  any two causes.
\<close>

lemma cause_not_disclosed:
  "serialize_app_error (with_cause c e) = serialize_app_error e \<and>
   problem_detail_from (with_cause c e) = problem_detail_from e \<and>
   serialize_app_error (internal_error c) = serialize_app_error (internal_error c') \<and>
   serialize_app_error (database_error c) = serialize_app_error (database_error c') \<and>
   serialize_app_error (external_service s c) = serialize_app_error (external_service s c')"
  by (simp add: serialize_app_error_def problem_detail_from_def error_defs)

text \<open>
  The problem type URI identifies the error code: two errors have the same RFC 9457 type
  exactly when they have the same code.
\<close>

lemma problem_type_identifies_code:
  "pd_type (problem_detail_from e) = pd_type (problem_detail_from e') \<longleftrightarrow> err_code e = err_code e'"
  by (simp add: problem_detail_from_def)

end
