(* ===== verification/Circuit_Breaker.thy ===== *)
theory Circuit_Breaker
  imports Errors
begin

text \<open>
  The circuit breaker of \<^verbatim>\<open>core/rskit-resilience/src/circuit_breaker.rs\<close>. The two critical sections
  of \<^verbatim>\<open>execute\<close> (before and after the protected call) are the functions \<open>cb_before\<close> and
  \<open>cb_after\<close>; \<open>cb_execute\<close> composes them around one call, and \<open>cb_fire\<close> interleaves the
  sections of any number of concurrent calls, including calls whose future is dropped while the
  protected operation is pending. Instants and durations are nanoseconds; the elapsed time of an
  instant in the future is zero, as \<^verbatim>\<open>Instant::elapsed\<close> saturates. Counters are unbounded: each
  is incremented at most once per call, so \<^verbatim>\<open>usize\<close> is never exhausted.
\<close>

section \<open>Configuration\<close>

datatype cb_state = CbClosed | CbOpen | CbHalfOpen

fun cb_state_display :: "cb_state \<Rightarrow> string" where
  "cb_state_display CbClosed = ''closed''"
| "cb_state_display CbOpen = ''open''"
| "cb_state_display CbHalfOpen = ''half-open''"

text \<open>\<open>on_state_change\<close> records whether an observer closure is registered.\<close>

record cb_config =
  max_failures :: nat
  cb_timeout :: duration
  half_open_max_calls :: nat
  on_state_change :: bool
  cb_name :: string

definition cb_config_default :: cb_config where
  "cb_config_default =
     \<lparr>max_failures = 5, cb_timeout = 30 * 1000000000, half_open_max_calls = 3,
      on_state_change = False, cb_name = ''cb''\<rparr>"

definition cb_config_new :: "string \<Rightarrow> cb_config" where
  "cb_config_new name = cb_config_default\<lparr>cb_name := name\<rparr>"

definition cb_validate :: "cb_config \<Rightarrow> unit app_result" where
  "cb_validate config =
     (if max_failures config = 0 then
        Inl (invalid_input ''max_failures''
          ''circuit breaker failure threshold must be greater than zero'')
      else if half_open_max_calls config = 0 then
        Inl (invalid_input ''half_open_max_calls''
          ''half-open probe limit must be greater than zero'')
      else Inr ())"

definition with_max_failures :: "nat \<Rightarrow> cb_config \<Rightarrow> cb_config" where
  "with_max_failures n config = config\<lparr>max_failures := n\<rparr>"

definition with_cb_timeout :: "duration \<Rightarrow> cb_config \<Rightarrow> cb_config" where
  "with_cb_timeout t config = config\<lparr>cb_timeout := t\<rparr>"

definition with_half_open_max_calls :: "nat \<Rightarrow> cb_config \<Rightarrow> cb_config" where
  "with_half_open_max_calls n config = config\<lparr>half_open_max_calls := n\<rparr>"

definition with_on_state_change :: "cb_config \<Rightarrow> cb_config" where
  "with_on_state_change config = config\<lparr>on_state_change := True\<rparr>"

section \<open>State and critical sections\<close>

record cb_inner =
  cb_st :: cb_state
  failures :: nat
  successes :: nat
  half_open_calls :: nat
  last_failure :: "instant option"

definition inner_new :: cb_inner where
  "inner_new =
     \<lparr>cb_st = CbClosed, failures = 0, successes = 0, half_open_calls = 0, last_failure = None\<rparr>"

definition circuit_breaker_new :: "cb_config \<Rightarrow> (cb_inner \<times> cb_config) app_result" where
  "circuit_breaker_new config = try_result (cb_validate config) (\<lambda>_. Inr (inner_new, config))"

definition cb_reset :: "cb_inner \<Rightarrow> cb_inner" where
  "cb_reset inner = inner_new"

definition transition ::
    "cb_state \<Rightarrow> cb_inner \<Rightarrow> cb_inner \<times> (cb_state \<times> cb_state) option" where
  "transition to inner =
     (if cb_st inner = to then (inner, None)
      else (inner\<lparr>cb_st := to\<rparr>, Some (cb_st inner, to)))"

definition notify_transition ::
    "cb_config \<Rightarrow> (cb_state \<times> cb_state) option \<Rightarrow> (cb_state \<times> cb_state) list" where
  "notify_transition config tr =
     (case tr of
        None \<Rightarrow> []
      | Some (from, to) \<Rightarrow> if on_state_change config then [(from, to)] else [])"

definition cb_before ::
    "cb_config \<Rightarrow> instant \<Rightarrow> cb_inner \<Rightarrow> cb_inner \<times> (cb_state \<times> cb_state) option \<times> bool" where
  "cb_before config now inner =
     (case cb_st inner of
        CbClosed \<Rightarrow> (inner, None, True)
      | CbOpen \<Rightarrow>
          if (case last_failure inner of Some t \<Rightarrow> cb_timeout config \<le> now - t | None \<Rightarrow> False)
          then let (inner', tr) = transition CbHalfOpen inner
               in (inner'\<lparr>half_open_calls := 1, successes := 0\<rparr>, tr, True)
          else (inner, None, False)
      | CbHalfOpen \<Rightarrow>
          if half_open_calls inner < half_open_max_calls config
          then (inner\<lparr>half_open_calls := half_open_calls inner + 1\<rparr>, None, True)
          else (inner, None, False))"

definition cb_after ::
    "cb_config \<Rightarrow> instant \<Rightarrow> bool \<Rightarrow> cb_inner \<Rightarrow> cb_inner \<times> (cb_state \<times> cb_state) option" where
  "cb_after config now ok inner =
     (if ok then
        (case cb_st inner of
           CbHalfOpen \<Rightarrow>
             (let inner' = inner\<lparr>successes := successes inner + 1\<rparr>
              in if half_open_max_calls config \<le> successes inner'
                 then transition CbClosed (inner'\<lparr>failures := 0\<rparr>)
                 else (inner', None))
         | CbClosed \<Rightarrow> (inner\<lparr>failures := 0\<rparr>, None)
         | CbOpen \<Rightarrow> (inner, None))
      else
        (let inner' = inner\<lparr>failures := failures inner + 1, last_failure := Some now\<rparr>
         in case cb_st inner' of
              CbClosed \<Rightarrow>
                if max_failures config \<le> failures inner' then transition CbOpen inner'
                else (inner', None)
            | CbHalfOpen \<Rightarrow> transition CbOpen inner'
            | CbOpen \<Rightarrow> (inner', None)))"

definition cb_rejection :: "cb_config \<Rightarrow> app_error" where
  "cb_rejection config =
     with_detail ''circuit_breaker_state'' (JString ''open'') (service_unavailable (cb_name config))"

text \<open>
  One call through the breaker with no other call in between. \<open>f\<close> transforms a world \<open>'w\<close> whose
  clock is read by \<open>clock\<close>; the third component is what the observer closure was told.
\<close>

definition cb_execute ::
    "cb_config \<Rightarrow> ('w \<Rightarrow> instant) \<Rightarrow> ('w \<Rightarrow> 'w \<times> 'a app_result) \<Rightarrow> cb_inner \<times> 'w \<Rightarrow>
     (cb_inner \<times> 'w) \<times> (cb_state \<times> cb_state) list \<times> 'a app_result" where
  "cb_execute config clock f st =
     (case st of (inner, w) \<Rightarrow>
       case cb_before config (clock w) inner of (inner1, tr1, can_proceed) \<Rightarrow>
         if \<not> can_proceed then
           ((inner1, w), notify_transition config tr1, Inl (cb_rejection config))
         else
           case f w of (w', result) \<Rightarrow>
             case cb_after config (clock w') (is_ok result) inner1 of (inner2, tr2) \<Rightarrow>
               ((inner2, w'), notify_transition config tr1 @ notify_transition config tr2, result))"

section \<open>Concurrent calls\<close>

text \<open>
  The critical sections of concurrent calls interleave freely: the mutex is not held across the
  protected call. \<open>Enter\<close> is the first section at an instant, \<open>Finish\<close> the second one with the
  outcome of the protected call, \<open>Abandon\<close> a pending call whose future is dropped, and \<open>ResetCb\<close>
  the public \<^verbatim>\<open>reset\<close>. A pending call is counted in \<open>inflight\<close>.
\<close>

datatype cb_label = Enter instant | Finish instant bool | Abandon | ResetCb

record cb_sys =
  inner :: cb_inner
  inflight :: nat
  notified :: "(cb_state \<times> cb_state) list"

definition cb_init :: cb_sys where
  "cb_init = \<lparr>inner = inner_new, inflight = 0, notified = []\<rparr>"

fun cb_fire :: "cb_config \<Rightarrow> cb_label \<Rightarrow> cb_sys \<Rightarrow> cb_sys option" where
  "cb_fire config (Enter now) s =
     (case cb_before config now (inner s) of (i, tr, go) \<Rightarrow>
        Some (s\<lparr>inner := i, inflight := (if go then inflight s + 1 else inflight s),
                notified := notified s @ notify_transition config tr\<rparr>))"
| "cb_fire config (Finish now ok) s =
     (if inflight s = 0 then None
      else case cb_after config now ok (inner s) of (i, tr) \<Rightarrow>
        Some (s\<lparr>inner := i, inflight := inflight s - 1,
                notified := notified s @ notify_transition config tr\<rparr>))"
| "cb_fire config Abandon s =
     (if inflight s = 0 then None else Some (s\<lparr>inflight := inflight s - 1\<rparr>))"
| "cb_fire config ResetCb s = Some (s\<lparr>inner := cb_reset (inner s)\<rparr>)"

fun cb_run :: "cb_config \<Rightarrow> cb_label list \<Rightarrow> cb_sys \<Rightarrow> cb_sys option" where
  "cb_run config [] s = Some s"
| "cb_run config (l # ls) s =
     (case cb_fire config l s of None \<Rightarrow> None | Some t \<Rightarrow> cb_run config ls t)"

definition cb_step :: "cb_config \<Rightarrow> cb_sys \<Rightarrow> cb_sys \<Rightarrow> bool" where
  "cb_step config s t \<longleftrightarrow> (\<exists>l. cb_fire config l s = Some t)"

section \<open>Invariant\<close>

definition cb_inv :: "cb_config \<Rightarrow> cb_inner \<Rightarrow> bool" where
  "cb_inv config i \<longleftrightarrow>
     (cb_st i = CbClosed \<longrightarrow> failures i < max_failures config) \<and>
     (cb_st i = CbOpen \<longrightarrow> last_failure i \<noteq> None) \<and>
     (cb_st i = CbHalfOpen \<longrightarrow>
        1 \<le> half_open_calls i \<and> half_open_calls i \<le> half_open_max_calls config \<and>
        successes i < half_open_max_calls config)"

lemmas cb_defs = cb_before_def cb_after_def transition_def Let_def

lemma cb_validate_ok_iff:
  "is_ok (cb_validate config) \<longleftrightarrow> 0 < max_failures config \<and> 0 < half_open_max_calls config"
  by (simp add: cb_validate_def)

lemma cb_inv_new: "is_ok (cb_validate config) \<Longrightarrow> cb_inv config inner_new"
  by (simp add: cb_validate_ok_iff cb_inv_def inner_new_def)

lemma cb_inv_before:
  assumes "is_ok (cb_validate config)" and "cb_inv config i"
    and "cb_before config now i = (i', tr, go)"
  shows "cb_inv config i'"
  using assms by (auto simp: cb_validate_ok_iff cb_inv_def cb_defs split: cb_state.splits if_splits option.splits)

lemma cb_inv_after:
  assumes "is_ok (cb_validate config)" and "cb_inv config i"
    and "cb_after config now ok i = (i', tr)"
  shows "cb_inv config i'"
  using assms by (auto simp: cb_validate_ok_iff cb_inv_def cb_defs split: cb_state.splits if_splits)

lemma cb_fire_inv:
  assumes ok: "is_ok (cb_validate config)" and inv: "cb_inv config (inner s)"
    and "cb_fire config l s = Some t"
  shows "cb_inv config (inner t)"
  using assms(3)
  by (cases l)
     (auto simp: cb_reset_def split: prod.splits if_splits
       intro: cb_inv_before [OF ok inv] cb_inv_after [OF ok inv] cb_inv_new [OF ok] inv)

interpretation breaker: invariant_system
  "\<lambda>s. s = cb_init \<and> is_ok (cb_validate config)" "cb_step config"
  "\<lambda>s. is_ok (cb_validate config) \<and> cb_inv config (inner s)" for config
  by unfold_locales (auto simp: cb_init_def cb_step_def intro: cb_inv_new cb_fire_inv)

lemma cb_run_steps: "cb_run config ls s = Some t \<Longrightarrow> (cb_step config)\<^sup>*\<^sup>* s t"
proof (induction ls arbitrary: s)
  case (Cons l ls)
  then obtain u where "cb_fire config l s = Some u" and u: "(cb_step config)\<^sup>*\<^sup>* u t"
    by (auto split: option.splits)
  then have "cb_step config s u" by (auto simp: cb_step_def)
  then show ?case using u by (rule converse_rtranclp_into_rtranclp)
qed simp

lemma cb_run_append:
  "cb_run config (xs @ ys) s =
     (case cb_run config xs s of None \<Rightarrow> None | Some t \<Rightarrow> cb_run config ys t)"
  by (induction xs arbitrary: s) (auto split: option.splits)

section \<open>Notifications\<close>

text \<open>
  \<open>cb_chain\<close> replays a list of notified transitions from a state, checking that each one starts
  where the previous one ended and is an edge of the documented state diagram.
\<close>

definition cb_edge :: "cb_state \<times> cb_state \<Rightarrow> bool" where
  "cb_edge e \<longleftrightarrow>
     e \<in> {(CbClosed, CbOpen), (CbOpen, CbHalfOpen), (CbHalfOpen, CbClosed), (CbHalfOpen, CbOpen)}"

fun cb_chain :: "cb_state \<Rightarrow> (cb_state \<times> cb_state) list \<Rightarrow> cb_state option" where
  "cb_chain s [] = Some s"
| "cb_chain s ((a, b) # es) = (if a = s \<and> cb_edge (a, b) then cb_chain b es else None)"

lemma cb_chain_append:
  "cb_chain s (xs @ ys) = (case cb_chain s xs of None \<Rightarrow> None | Some t \<Rightarrow> cb_chain t ys)"
  by (induction s xs rule: cb_chain.induct) auto

lemma cb_before_chain:
  "on_state_change config \<Longrightarrow> cb_before config now i = (i', tr, go) \<Longrightarrow>
     cb_chain (cb_st i) (notify_transition config tr) = Some (cb_st i')"
  by (auto simp: cb_defs notify_transition_def cb_edge_def
      split: cb_state.splits if_splits option.splits)

lemma cb_after_chain:
  "on_state_change config \<Longrightarrow> cb_after config now ok i = (i', tr) \<Longrightarrow>
     cb_chain (cb_st i) (notify_transition config tr) = Some (cb_st i')"
  by (auto simp: cb_defs notify_transition_def cb_edge_def
      split: cb_state.splits if_splits option.splits)

lemma cb_fire_chain:
  assumes "on_state_change config" and "l \<noteq> ResetCb" and "cb_fire config l s = Some t"
    and "cb_chain c (notified s) = Some (cb_st (inner s))"
  shows "cb_chain c (notified t) = Some (cb_st (inner t))"
  using assms
  by (cases l)
     (auto simp: cb_chain_append cb_before_chain cb_after_chain split: prod.splits if_splits)

lemma cb_run_chain:
  assumes "on_state_change config" and "ResetCb \<notin> set ls" and "cb_run config ls s = Some t"
    and "cb_chain c (notified s) = Some (cb_st (inner s))"
  shows "cb_chain c (notified t) = Some (cb_st (inner t))"
  using assms(2-)
proof (induction ls arbitrary: s)
  case (Cons l ls)
  then obtain u where u: "cb_fire config l s = Some u" and run: "cb_run config ls u = Some t"
    by (auto split: option.splits)
  have "cb_chain c (notified u) = Some (cb_st (inner u))"
    using cb_fire_chain [OF assms(1) _ u] Cons.prems by auto
  with Cons.IH run Cons.prems show ?case by auto
qed simp

section \<open>Runs of calls\<close>

text \<open>\<open>calls ok ts\<close>: sequential calls that start and finish at the given instants with outcome \<open>ok\<close>.\<close>

definition calls :: "bool \<Rightarrow> (instant \<times> instant) list \<Rightarrow> cb_label list" where
  "calls ok ts = concat (map (\<lambda>(t, t'). [Enter t, Finish t' ok]) ts)"

lemma calls_simps [simp]:
  "calls ok [] = []"
  "calls ok ((t, t') # ts) = Enter t # Finish t' ok # calls ok ts"
  by (simp_all add: calls_def)

lemma closed_failures_run:
  assumes "cb_st (inner s) = CbClosed" and "failures (inner s) + length ts < max_failures config"
  shows "\<exists>s'. cb_run config (calls False ts) s = Some s' \<and> cb_st (inner s') = CbClosed \<and>
           failures (inner s') = failures (inner s) + length ts \<and> inflight s' = inflight s"
  using assms
proof (induction ts arbitrary: s)
  case (Cons tt ts)
  obtain t t' where [simp]: "tt = (t, t')" by (cases tt)
  let ?u = "s\<lparr>inner := (inner s)\<lparr>failures := failures (inner s) + 1, last_failure := Some t'\<rparr>\<rparr>"
  have "cb_run config (calls False (tt # ts)) s = cb_run config (calls False ts) ?u"
    using Cons.prems by (simp add: cb_defs notify_transition_def)
  moreover have "\<exists>s'. cb_run config (calls False ts) ?u = Some s' \<and> cb_st (inner s') = CbClosed \<and>
      failures (inner s') = failures (inner ?u) + length ts \<and> inflight s' = inflight ?u"
    using Cons.prems by (intro Cons.IH) auto
  ultimately show ?case by auto
qed auto

lemma closed_trips:
  assumes "cb_st (inner s) = CbClosed" and "failures (inner s) + 1 = max_failures config"
  shows "\<exists>s'. cb_run config (calls False [(t, t')]) s = Some s' \<and> cb_st (inner s') = CbOpen \<and>
           last_failure (inner s') = Some t' \<and> inflight s' = inflight s"
  using assms by (simp add: cb_defs)

lemma half_open_successes_run:
  assumes "cb_st (inner s) = CbHalfOpen"
    and "half_open_calls (inner s) + length ts \<le> half_open_max_calls config"
    and "successes (inner s) + length ts = half_open_max_calls config" and "ts \<noteq> []"
  shows "\<exists>s'. cb_run config (calls True ts) s = Some s' \<and> cb_st (inner s') = CbClosed \<and>
           failures (inner s') = 0 \<and> inflight s' = inflight s"
  using assms
proof (induction ts arbitrary: s)
  case (Cons tt ts)
  obtain t t' where [simp]: "tt = (t, t')" by (cases tt)
  show ?case
  proof (cases "ts = []")
    case True
    with Cons.prems show ?thesis by (auto simp: cb_defs)
  next
    case False
    let ?u = "s\<lparr>inner := (inner s)\<lparr>half_open_calls := half_open_calls (inner s) + 1,
      successes := successes (inner s) + 1\<rparr>\<rparr>"
    have "cb_run config (calls True (tt # ts)) s = cb_run config (calls True ts) ?u"
      using Cons.prems False by (cases ts) (auto simp: cb_defs notify_transition_def)
    moreover have "\<exists>s'. cb_run config (calls True ts) ?u = Some s' \<and>
        cb_st (inner s') = CbClosed \<and> failures (inner s') = 0 \<and> inflight s' = inflight ?u"
      using Cons.prems False by (intro Cons.IH) auto
    ultimately show ?thesis by auto
  qed
qed simp

section \<open>Admission while half-open\<close>

text \<open>
  The number of calls admitted by a run before the breaker leaves the half-open state.
\<close>

fun cb_probes :: "cb_config \<Rightarrow> cb_label list \<Rightarrow> cb_sys \<Rightarrow> nat" where
  "cb_probes config [] s = 0"
| "cb_probes config (l # ls) s =
     (if cb_st (inner s) \<noteq> CbHalfOpen then 0
      else case cb_fire config l s of
             None \<Rightarrow> 0
           | Some t \<Rightarrow> (if inflight t = inflight s + 1 then 1 else 0) + cb_probes config ls t)"

lemma cb_fire_half_open:
  assumes "cb_st (inner s) = CbHalfOpen"
    and "half_open_calls (inner s) \<le> half_open_max_calls config"
    and "cb_fire config l s = Some t"
  shows "(if inflight t = inflight s + 1 then 1 else 0) + half_open_calls (inner s)
           \<le> half_open_max_calls config"
    and "cb_st (inner t) = CbHalfOpen \<Longrightarrow>
           half_open_calls (inner t) =
             half_open_calls (inner s) + (if inflight t = inflight s + 1 then 1 else 0)"
  using assms
  by (cases l; auto simp: cb_defs cb_reset_def inner_new_def split: if_splits cb_state.splits)+

lemma cb_probes_bound:
  assumes "half_open_calls (inner s) \<le> half_open_max_calls config"
  shows "cb_st (inner s) = CbHalfOpen \<Longrightarrow>
    half_open_calls (inner s) + cb_probes config ls s \<le> half_open_max_calls config"
  using assms
proof (induction ls arbitrary: s)
  case (Cons l ls)
  show ?case
  proof (cases "cb_fire config l s")
    case (Some t)
    note step = cb_fire_half_open [OF Cons.prems Some]
    show ?thesis
    proof (cases "cb_st (inner t) = CbHalfOpen")
      case True
      with Cons.IH [OF True] step Cons.prems Some show ?thesis by auto
    next
      case False
      then have "cb_probes config ls t = 0" by (cases ls) auto
      with step(1) Cons.prems Some show ?thesis by auto
    qed
  qed (use Cons.prems in simp)
qed simp

section \<open>Abandoned probes\<close>

text \<open>
  A half-open breaker whose probe budget is used up and that has no pending call admits nothing
  more and never changes state again, short of a reset.
\<close>

definition cb_wedged :: "cb_config \<Rightarrow> cb_sys \<Rightarrow> bool" where
  "cb_wedged config s \<longleftrightarrow>
     cb_st (inner s) = CbHalfOpen \<and> inflight s = 0 \<and>
     half_open_calls (inner s) = half_open_max_calls config"

lemma cb_wedged_fire:
  "cb_wedged config s \<Longrightarrow> l \<noteq> ResetCb \<Longrightarrow> cb_fire config l s = Some t \<Longrightarrow>
     cb_wedged config t \<and> inner t = inner s"
  by (cases l) (auto simp: cb_wedged_def cb_before_def)

lemma cb_wedged_run:
  "cb_wedged config s \<Longrightarrow> ResetCb \<notin> set ls \<Longrightarrow> cb_run config ls s = Some t \<Longrightarrow>
     cb_wedged config t \<and> inner t = inner s"
proof (induction ls arbitrary: s)
  case (Cons l ls)
  then obtain u where u: "cb_fire config l s = Some u" and run: "cb_run config ls u = Some t"
    by (auto split: option.splits)
  with Cons.prems cb_wedged_fire [OF Cons.prems(1) _ u] have "cb_wedged config u" "inner u = inner s"
    by auto
  with Cons.IH [OF _ _ run] Cons.prems show ?case by auto
qed simp

definition abandoned :: "instant list \<Rightarrow> cb_label list" where
  "abandoned ts = concat (map (\<lambda>t. [Enter t, Abandon]) ts)"

lemma abandoned_simps [simp]:
  "abandoned [] = []"
  "abandoned (t # ts) = Enter t # Abandon # abandoned ts"
  by (simp_all add: abandoned_def)

lemma half_open_abandoned_run:
  assumes "cb_st (inner s) = CbHalfOpen" and "inflight s = 0"
    and "half_open_calls (inner s) + length ts = half_open_max_calls config"
  shows "\<exists>s'. cb_run config (abandoned ts) s = Some s' \<and> cb_wedged config s'"
  using assms
proof (induction ts arbitrary: s)
  case (Cons t ts)
  let ?u = "s\<lparr>inner := (inner s)\<lparr>half_open_calls := half_open_calls (inner s) + 1\<rparr>, inflight := 0\<rparr>"
  have "cb_run config (abandoned (t # ts)) s = cb_run config (abandoned ts) ?u"
    using Cons.prems by (simp add: cb_defs notify_transition_def)
  moreover have "\<exists>s'. cb_run config (abandoned ts) ?u = Some s' \<and> cb_wedged config s'"
    using Cons.prems by (intro Cons.IH) auto
  ultimately show ?case by auto
qed (auto simp: cb_wedged_def)

section \<open>Properties\<close>

text \<open>
  C1. In every interleaving of calls, dropped calls and resets, the breaker's counters agree with its
  state: a closed breaker has fewer than \<open>max_failures\<close> consecutive failures, an open one knows
  when it failed last, and a half-open one has admitted between one and \<open>half_open_max_calls\<close>
  probes and is still short of that many successes.
\<close>

theorem breaker_invariant:
  assumes "is_ok (cb_validate config)" and "cb_run config ls cb_init = Some s"
  shows "cb_inv config (inner s)"
  using breaker.inv_steps [OF cb_run_steps [OF assms(2)]] assms(1)
  by (simp add: cb_init_def cb_inv_new)

theorem breaker_invariant_witness:
  "cb_inv (cb_config_new ''db'')
     \<lparr>cb_st = CbClosed, failures = 1, successes = 0, half_open_calls = 0, last_failure = Some 7\<rparr>"
  using breaker_invariant [of "cb_config_new ''db''" "[Enter 3, Finish 7 False]"]
  by (simp add: cb_validate_def cb_config_new_def cb_config_default_def cb_init_def inner_new_def
      cb_defs notify_transition_def)

text \<open>
  Between resets, the transitions reported to the observer closure are exactly the path of the
  breaker through its state diagram (closed to open, open to half-open, half-open to closed or back
  to open): none is missed, repeated or out of order, and the path ends in the current state.
\<close>

lemma notifications_follow_diagram:
  assumes "on_state_change config" and "ResetCb \<notin> set ls" and "cb_run config ls cb_init = Some s"
  shows "cb_chain CbClosed (notified s) = Some (cb_st (inner s))"
  using cb_run_chain [OF assms] by (simp add: cb_init_def inner_new_def)

lemma notifications_follow_diagram_witness:
  "cb_chain CbClosed [(CbClosed, CbOpen), (CbOpen, CbHalfOpen)] = Some CbHalfOpen"
  using notifications_follow_diagram
    [of "with_max_failures 1 (with_on_state_change (cb_config_new ''db''))"
      "[Enter 0, Finish 5 False, Enter 40000000000]"]
  by (simp add: cb_config_new_def cb_config_default_def cb_init_def inner_new_def with_max_failures_def
      with_on_state_change_def cb_defs notify_transition_def)

text \<open>
  C2. A closed breaker with no failures counts consecutive failing calls and trips on exactly the
  \<open>max_failures\<close>-th one: after fewer failing calls it is still closed with that count, and after
  \<open>max_failures\<close> of them it is open with the instant of the last failure.
\<close>

theorem trips_at_threshold:
  assumes "cb_st (inner s) = CbClosed" and "failures (inner s) = 0"
    and "length ts \<le> max_failures config" and "ts \<noteq> []"
  shows "\<exists>s'. cb_run config (calls False ts) s = Some s' \<and> inflight s' = inflight s \<and>
           (if length ts < max_failures config
            then cb_st (inner s') = CbClosed \<and> failures (inner s') = length ts
            else cb_st (inner s') = CbOpen \<and> last_failure (inner s') = Some (snd (last ts)))"
proof (cases "length ts < max_failures config")
  case True
  with assms closed_failures_run [of s ts config] show ?thesis by auto
next
  case False
  with assms(3) have len: "length ts = max_failures config" by simp
  obtain us t t' where ts: "ts = us @ [(t, t')]"
    using assms(4) by (metis append_butlast_last_id prod.collapse)
  with len have "failures (inner s) + length us < max_failures config"
    using assms(2) by simp
  from closed_failures_run [OF assms(1) this] obtain u where
    u: "cb_run config (calls False us) s = Some u" "cb_st (inner u) = CbClosed"
       "failures (inner u) = length us" "inflight u = inflight s"
    using assms(2) by auto
  from closed_trips [OF u(2), of config t t'] u len ts show ?thesis
    by (auto simp: calls_def cb_run_append)
qed

theorem trips_at_threshold_witness:
  "\<exists>s'. cb_run (with_max_failures 2 (cb_config_new ''db'')) (calls False [(0, 1), (2, 3)]) cb_init
          = Some s' \<and> cb_st (inner s') = CbOpen \<and> last_failure (inner s') = Some 3"
  using trips_at_threshold [of cb_init "[(0, 1), (2, 3)]" "with_max_failures 2 (cb_config_new ''db'')"]
  by (auto simp: cb_init_def inner_new_def with_max_failures_def)

text \<open>
  C3. An open breaker recovers: once the timeout has elapsed since the last failure, that many
  sequential successful calls as \<open>half_open_max_calls\<close> are all admitted and close the breaker with
  its failure count back at zero.
\<close>

theorem recovers_after_timeout:
  assumes "cb_st (inner s) = CbOpen" and "last_failure (inner s) = Some t0"
    and "cb_timeout config \<le> t - t0"
    and "Suc (length ts) = half_open_max_calls config"
  shows "\<exists>s'. cb_run config (calls True ((t, t') # ts)) s = Some s' \<and>
           cb_st (inner s') = CbClosed \<and> failures (inner s') = 0 \<and> inflight s' = inflight s"
proof (cases "ts = []")
  case True
  with assms show ?thesis by (auto simp: cb_defs)
next
  case False
  let ?u = "s\<lparr>inner := (inner s)\<lparr>cb_st := CbHalfOpen, half_open_calls := 1, successes := 1\<rparr>,
    notified := notified s @ notify_transition config (Some (CbOpen, CbHalfOpen))\<rparr>"
  have "cb_run config (calls True ((t, t') # ts)) s = cb_run config (calls True ts) ?u"
    using assms False by (cases ts) (auto simp: cb_defs notify_transition_def)
  moreover have "\<exists>s'. cb_run config (calls True ts) ?u = Some s' \<and>
      cb_st (inner s') = CbClosed \<and> failures (inner s') = 0 \<and> inflight s' = inflight ?u"
    using assms(4) False by (intro half_open_successes_run) auto
  ultimately show ?thesis by auto
qed

theorem recovers_after_timeout_witness:
  "\<exists>s'. cb_run (with_half_open_max_calls 2 (with_cb_timeout 10 (cb_config_new ''db'')))
          (calls True [(25, 26), (27, 28)])
          (cb_init\<lparr>inner := inner_new\<lparr>cb_st := CbOpen, failures := 5, last_failure := Some 15\<rparr>\<rparr>)
        = Some s' \<and> cb_st (inner s') = CbClosed \<and> failures (inner s') = 0"
  using recovers_after_timeout
    [of "cb_init\<lparr>inner := inner_new\<lparr>cb_st := CbOpen, failures := 5, last_failure := Some 15\<rparr>\<rparr>" 15
      "with_half_open_max_calls 2 (with_cb_timeout 10 (cb_config_new ''db''))" 25 "[(27, 28)]" 26]
  by (auto simp: with_half_open_max_calls_def with_cb_timeout_def)

text \<open>
  While the breaker is half-open, however calls interleave, the probes it admits before leaving
  that state never exceed what is left of \<open>half_open_max_calls\<close>.
\<close>

lemma half_open_probe_bound:
  assumes "cb_st (inner s) = CbHalfOpen" and "cb_inv config (inner s)"
  shows "half_open_calls (inner s) + cb_probes config ls s \<le> half_open_max_calls config"
  using assms by (intro cb_probes_bound) (auto simp: cb_inv_def)

lemma half_open_probe_bound_witness:
  "1 + cb_probes (cb_config_new ''db'') [Enter 1, Enter 2, Enter 3, Enter 4]
         (cb_init\<lparr>inner := inner_new\<lparr>cb_st := CbHalfOpen, half_open_calls := 1\<rparr>\<rparr>) \<le> 3"
  using half_open_probe_bound
    [of "cb_init\<lparr>inner := inner_new\<lparr>cb_st := CbHalfOpen, half_open_calls := 1\<rparr>\<rparr>"
      "cb_config_new ''db''" "[Enter 1, Enter 2, Enter 3, Enter 4]"]
  by (simp add: cb_inv_def cb_config_new_def cb_config_default_def inner_new_def del: cb_probes.simps)

text \<open>
  A probe that is dropped before it finishes never gives its slot back: for every valid
  configuration there is a run in which the callers of all probes give up, after which the breaker
  stays half-open and rejects every call at every later instant until someone resets it by hand.
\<close>

lemma abandoned_probes_wedge_breaker:
  assumes "is_ok (cb_validate config)"
  shows "\<exists>ls s. ResetCb \<notin> set ls \<and> cb_run config ls cb_init = Some s \<and> inflight s = 0 \<and>
           (\<forall>ls' t. ResetCb \<notin> set ls' \<longrightarrow> cb_run config ls' s = Some t \<longrightarrow>
              cb_st (inner t) = CbHalfOpen \<and> inflight t = 0 \<and>
              (\<forall>now. snd (snd (cb_before config now (inner t))) = False))"
proof -
  let ?m = "max_failures config" and ?h = "half_open_max_calls config"
  have pos: "0 < ?m" "0 < ?h" using assms by (auto simp: cb_validate_ok_iff)
  let ?fails = "calls False (replicate ?m (0, 0))"
  from trips_at_threshold [of cb_init "replicate ?m (0, 0)" config] pos obtain u where
    u: "cb_run config ?fails cb_init = Some u" "cb_st (inner u) = CbOpen"
       "last_failure (inner u) = Some 0" "inflight u = 0"
    by (auto simp: cb_init_def inner_new_def)
  let ?t = "cb_timeout config"
  define v where "v = u\<lparr>inner := (inner u)\<lparr>cb_st := CbHalfOpen, half_open_calls := 1, successes := 0\<rparr>,
    inflight := 0, notified := notified u @ notify_transition config (Some (CbOpen, CbHalfOpen))\<rparr>"
  have v: "cb_run config [Enter ?t, Abandon] u = Some v"
    using u by (simp add: cb_defs v_def)
  have "cb_st (inner v) = CbHalfOpen" "inflight v = 0" "half_open_calls (inner v) = 1"
    by (simp_all add: v_def)
  then obtain s where s: "cb_run config (abandoned (replicate (?h - 1) ?t)) v = Some s" "cb_wedged config s"
    using half_open_abandoned_run [of v "replicate (?h - 1) ?t" config] pos by auto
  let ?ls = "?fails @ [Enter ?t, Abandon] @ abandoned (replicate (?h - 1) ?t)"
  have "cb_run config ?ls cb_init = Some s"
    unfolding cb_run_append using u(1) v s(1) by simp
  moreover have "ResetCb \<notin> set ?ls"
    by (auto simp: calls_def abandoned_def)
  moreover have "inflight s = 0" using s(2) by (simp add: cb_wedged_def)
  moreover have "cb_st (inner t) = CbHalfOpen \<and> inflight t = 0 \<and>
      (\<forall>now. snd (snd (cb_before config now (inner t))) = False)"
    if "ResetCb \<notin> set ls'" and "cb_run config ls' s = Some t" for ls' t
    using cb_wedged_run [OF s(2) that] by (auto simp: cb_wedged_def cb_before_def)
  ultimately show ?thesis by blast
qed

lemma abandoned_probes_wedge_breaker_witness:
  "\<exists>ls s. ResetCb \<notin> set ls \<and> cb_run cb_config_default ls cb_init = Some s \<and>
          cb_st (inner s) = CbHalfOpen \<and> (\<forall>now. \<not> snd (snd (cb_before cb_config_default now (inner s))))"
proof -
  have ok: "is_ok (cb_validate cb_config_default)"
    by (simp add: cb_validate_ok_iff cb_config_default_def)
  from abandoned_probes_wedge_breaker [OF ok] show ?thesis
    by (metis cb_run.simps(1) empty_iff empty_set)
qed

text \<open>
  An open breaker fails fast: before the timeout has elapsed since the last failure, a call is
  rejected with a service-unavailable error without running the operation, without touching the
  world and without changing the breaker.
\<close>

lemma open_breaker_fails_fast:
  assumes "cb_st i = CbOpen" and "last_failure i = Some t0" and "clock w - t0 < cb_timeout config"
  shows "cb_execute config clock f (i, w) = ((i, w), [], Inl (cb_rejection config)) \<and>
         err_code (cb_rejection config) = ServiceUnavailable"
  using assms by (auto simp: cb_execute_def cb_before_def notify_transition_def cb_rejection_def)

lemma open_breaker_fails_fast_witness:
  "cb_execute (with_cb_timeout 10 cb_config_default) (\<lambda>w. w) (\<lambda>w. (w + 1, Inr ()))
      (inner_new\<lparr>cb_st := CbOpen, last_failure := Some 15\<rparr>, 20)
   = ((inner_new\<lparr>cb_st := CbOpen, last_failure := Some 15\<rparr>, 20), [],
      Inl (cb_rejection (with_cb_timeout 10 cb_config_default)))"
  using open_breaker_fails_fast
    [of "inner_new\<lparr>cb_st := CbOpen, last_failure := Some 15\<rparr>" 15 "\<lambda>w. w" 20
      "with_cb_timeout 10 cb_config_default" "\<lambda>w. (w + 1, Inr ())"]
  by (simp add: with_cb_timeout_def)

end
