(* ===== verification/Backoff.thy ===== *)
theory Backoff
  imports Prelude
begin

text \<open>
  The stateless backoff calculator of \<^verbatim>\<open>core/rskit-util/src/backoff.rs\<close>. A \<^verbatim>\<open>Duration\<close> is its
  number of nanoseconds, at most \<open>duration_max\<close> (\<^verbatim>\<open>u64::MAX\<close> seconds and 999999999 nanoseconds);
  \<^verbatim>\<open>Duration::checked_mul\<close> and \<^verbatim>\<open>Duration::checked_add\<close> answer \<open>None\<close> beyond it.
\<close>

section \<open>Durations\<close>

definition duration_max :: nat where
  "duration_max = 2 ^ 64 * 1000000000 - 1"

definition duration_checked :: "nat \<Rightarrow> nat option" where
  "duration_checked ns = (if ns \<le> duration_max then Some ns else None)"

text \<open>\<^verbatim>\<open>u128::checked_mul\<close>.\<close>

definition u128_checked_mul :: "nat \<Rightarrow> nat \<Rightarrow> nat option" where
  "u128_checked_mul a b = (if a * b < 2 ^ 128 then Some (a * b) else None)"

section \<open>The calculator\<close>

text \<open>\<open>backoff_loop n max_delay delay\<close> is the loop with \<open>n\<close> rounds left.\<close>

fun backoff_loop :: "nat \<Rightarrow> nat \<Rightarrow> nat \<Rightarrow> nat" where
  "backoff_loop 0 max_delay delay = delay"
| "backoff_loop (Suc n) max_delay delay =
     (case duration_checked (delay * 2) of
        None \<Rightarrow> max_delay
      | Some next_delay \<Rightarrow>
          if next_delay \<ge> max_delay then max_delay else backoff_loop n max_delay next_delay)"

definition calculate_backoff :: "nat \<Rightarrow> nat \<Rightarrow> nat \<Rightarrow> nat" where
  "calculate_backoff attempt min_delay max_delay =
     (if max_delay \<le> min_delay then min_delay
      else if attempt \<le> 1 then min_delay
      else if min_delay = 0 then min_delay
      else backoff_loop (attempt - 1) max_delay min_delay)"

definition duration_from_nanos :: "nat \<Rightarrow> nat option" where
  "duration_from_nanos nanos =
     (let secs = nanos div 1000000000; subsec_nanos = nanos mod 1000000000
      in if secs < 2 ^ 64 \<and> subsec_nanos < 2 ^ 32 then Some (secs * 1000000000 + subsec_nanos) else None)"

definition calculate_jittered_backoff :: "nat \<Rightarrow> nat \<Rightarrow> nat \<Rightarrow> nat \<Rightarrow> nat option" where
  "calculate_jittered_backoff attempt min_delay max_delay jitter_permyriad =
     (if jitter_permyriad > 10000 then None
      else
        let limit = calculate_backoff attempt min_delay max_delay
        in if limit \<le> min_delay then Some min_delay
           else
             case u128_checked_mul (limit - min_delay) jitter_permyriad of
               None \<Rightarrow> None
             | Some product \<Rightarrow>
                 case duration_from_nanos (product div 10000) of
                   None \<Rightarrow> None
                 | Some jitter \<Rightarrow> duration_checked (min_delay + jitter))"

record exponential_backoff =
  min_delay :: nat
  max_delay :: nat

definition exponential_backoff_new :: "nat \<Rightarrow> nat \<Rightarrow> exponential_backoff" where
  "exponential_backoff_new lo hi = \<lparr>min_delay = lo, max_delay = hi\<rparr>"

definition exponential_delay :: "exponential_backoff \<Rightarrow> nat \<Rightarrow> nat" where
  "exponential_delay b attempt = calculate_backoff attempt (min_delay b) (max_delay b)"

definition exponential_jittered_delay :: "exponential_backoff \<Rightarrow> nat \<Rightarrow> nat \<Rightarrow> nat option" where
  "exponential_jittered_delay b attempt jitter_permyriad =
     calculate_jittered_backoff attempt (min_delay b) (max_delay b) jitter_permyriad"

section \<open>Closed forms\<close>

lemma backoff_loop_closed:
  assumes "delay < hi" and "hi \<le> duration_max"
  shows "backoff_loop n hi delay = min (delay * 2 ^ n) hi"
  using assms
proof (induction n arbitrary: delay)
  case (Suc n)
  show ?case
  proof (cases "delay * 2 < hi")
    case True
    with Suc.prems Suc.IH [OF True] show ?thesis
      by (simp add: duration_checked_def mult.assoc)
  next
    case False
    have "hi \<le> delay * 2 ^ Suc n"
      using False by (metis (no_types, opaque_lifting) leI le_trans mult.assoc mult_le_mono2
          mult.right_neutral one_le_numeral one_le_power power_Suc)
    with False show ?thesis
      by (auto simp: duration_checked_def)
  qed
qed simp

lemma calculate_backoff_closed:
  assumes "hi \<le> duration_max"
  shows "calculate_backoff attempt lo hi = max lo (min (lo * 2 ^ (attempt - 1)) hi)"
proof (cases "lo < hi \<and> 1 < attempt \<and> 0 < lo")
  case True
  then have "lo \<le> lo * 2 ^ (attempt - 1)" by simp
  with True assms show ?thesis
    by (auto simp: calculate_backoff_def backoff_loop_closed)
next
  case False
  then show ?thesis by (auto simp: calculate_backoff_def)
qed

lemma duration_from_nanos_id: "n \<le> duration_max \<Longrightarrow> duration_from_nanos n = Some n"
proof -
  assume "n \<le> duration_max"
  then have "n div 1000000000 < 2 ^ 64"
    by (simp add: duration_max_def div_less_iff_less_mult)
  moreover have "n mod 1000000000 < 2 ^ 32"
    by (rule less_trans [of _ 1000000000]) simp_all
  ultimately show ?thesis
    by (simp add: duration_from_nanos_def Let_def)
qed

text \<open>
  The loop of \<^verbatim>\<open>calculate_backoff\<close> computes the capped exponential: the minimum delay doubled
  once per attempt after the first, cut at the maximum, never below the minimum, whatever overflows on
  the way. The jittered variant is total for ratios up to 10000 and interpolates between
  the minimum and that delay, rounding down.
\<close>

lemma backoff_is_capped_exponential:
  assumes "lo \<le> duration_max" and "hi \<le> duration_max"
  shows "calculate_backoff attempt lo hi = max lo (min (lo * 2 ^ (attempt - 1)) hi) \<and>
         calculate_jittered_backoff attempt lo hi j =
           (if j \<le> 10000 then Some (lo + (calculate_backoff attempt lo hi - lo) * j div 10000) else None)"
proof
  let ?limit = "calculate_backoff attempt lo hi"
  let ?jit = "(?limit - lo) * j div 10000"
  show closed: "?limit = max lo (min (lo * 2 ^ (attempt - 1)) hi)"
    using assms(2) by (rule calculate_backoff_closed)
  then have limit: "?limit \<le> duration_max" using assms by simp
  show "calculate_jittered_backoff attempt lo hi j = (if j \<le> 10000 then Some (lo + ?jit) else None)"
  proof (cases "j \<le> 10000 \<and> lo < ?limit")
    case True
    have "(?limit - lo) * j \<le> duration_max * 10000"
      using True limit by (intro mult_le_mono) auto
    then have small: "(?limit - lo) * j < 2 ^ 128"
      by (rule le_less_trans) (simp add: duration_max_def)
    have "(?limit - lo) * j \<le> (?limit - lo) * 10000" using True by (intro mult_le_mono) auto
    then have jit: "?jit \<le> ?limit - lo" by linarith
    then have "?jit \<le> duration_max" "lo + ?jit \<le> duration_max" using limit True by auto
    with True small show ?thesis
      by (simp add: calculate_jittered_backoff_def Let_def u128_checked_mul_def
          duration_from_nanos_id duration_checked_def)
  next
    case False
    have "lo \<le> ?limit" using closed by simp
    with False show ?thesis by (auto simp: calculate_jittered_backoff_def Let_def)
  qed
qed

lemma backoff_is_capped_exponential_witness:
  "calculate_backoff 4 100 10000 = 800 \<and> calculate_jittered_backoff 4 100 10000 5000 = Some 450"
  using backoff_is_capped_exponential [of 100 10000 4 5000] by (simp add: duration_max_def)

end
