(* ===== verification/Retry.thy ===== *)
theory Retry
  imports Circuit_Breaker Backoff Complex_Main "HOL-Library.Word" "HOL-Library.Log_Nat"
begin

unbundle bit_operations_syntax

text \<open>
  The retry policy of \<^verbatim>\<open>core/rskit-resilience/src/retry\<close>: configuration, presets, backoff delays with
  seeded or random jitter, and the execution loop bounded by attempts and elapsed time. The \<^verbatim>\<open>f64\<close>
  arithmetic of the delays is IEEE binary64 with round-to-nearest-even; \<^verbatim>\<open>f64::powi\<close>, whose precision
  the standard library leaves open, and the random draws are arguments.
\<close>

section \<open>Binary64 numbers\<close>

text \<open>Finite values are rationals; the sign of zero is not distinguished.\<close>

datatype f64 = Fin rat | PosInf | NegInf | NaN

definition pow2 :: "int \<Rightarrow> rat" where
  "pow2 k = (if 0 \<le> k then 2 ^ nat k else 1 / 2 ^ nat (- k))"

definition round_half_even :: "rat \<Rightarrow> int" where
  "round_half_even q =
     (let fl = \<lfloor>q\<rfloor>; d = q - of_int fl
      in if d < 1 / 2 then fl else if d > 1 / 2 then fl + 1 else if even fl then fl else fl + 1)"

text \<open>The exponent of the last bit of the 53-bit significand of \<open>q\<close>, at least \<open>-1074\<close>.\<close>

definition ulp_exponent :: "rat \<Rightarrow> int" where
  "ulp_exponent q =
     (let n = nat \<bar>fst (quotient_of q)\<bar>; d = nat (snd (quotient_of q));
          k = int (floorlog 2 n) - int (floorlog 2 d);
          e = (if pow2 k \<le> \<bar>q\<bar> then k else k - 1)
      in max (e - 52) (- 1074))"

definition round_f64 :: "rat \<Rightarrow> f64" where
  "round_f64 q =
     (let u = pow2 (ulp_exponent q); v = of_int (round_half_even (q / u)) * u
      in if v \<ge> 2 ^ 1024 then PosInf else if v \<le> - (2 ^ 1024) then NegInf else Fin v)"

definition f64_of_nat :: "nat \<Rightarrow> f64" where
  "f64_of_nat n = round_f64 (of_nat n)"

fun f64_neg :: "f64 \<Rightarrow> f64" where
  "f64_neg (Fin a) = Fin (- a)"
| "f64_neg PosInf = NegInf"
| "f64_neg NegInf = PosInf"
| "f64_neg NaN = NaN"

fun f64_add :: "f64 \<Rightarrow> f64 \<Rightarrow> f64" where
  "f64_add (Fin a) (Fin b) = round_f64 (a + b)"
| "f64_add NaN _ = NaN"
| "f64_add _ NaN = NaN"
| "f64_add PosInf NegInf = NaN"
| "f64_add NegInf PosInf = NaN"
| "f64_add PosInf _ = PosInf"
| "f64_add NegInf _ = NegInf"
| "f64_add _ x = x"

definition f64_sub :: "f64 \<Rightarrow> f64 \<Rightarrow> f64" where
  "f64_sub x y = f64_add x (f64_neg y)"

text \<open>The sign of a nonzero factor decides the sign of an infinite product; zero times infinity is NaN.\<close>

definition inf_times :: "bool \<Rightarrow> rat \<Rightarrow> f64" where
  "inf_times positive a =
     (if a = 0 then NaN else if (0 < a) = positive then PosInf else NegInf)"

fun f64_mul :: "f64 \<Rightarrow> f64 \<Rightarrow> f64" where
  "f64_mul (Fin a) (Fin b) = round_f64 (a * b)"
| "f64_mul NaN _ = NaN"
| "f64_mul _ NaN = NaN"
| "f64_mul PosInf (Fin a) = inf_times True a"
| "f64_mul NegInf (Fin a) = inf_times False a"
| "f64_mul (Fin a) PosInf = inf_times True a"
| "f64_mul (Fin a) NegInf = inf_times False a"
| "f64_mul PosInf PosInf = PosInf"
| "f64_mul NegInf NegInf = PosInf"
| "f64_mul _ _ = NegInf"

fun f64_less :: "f64 \<Rightarrow> f64 \<Rightarrow> bool" where
  "f64_less (Fin a) (Fin b) = (a < b)"
| "f64_less NaN _ = False"
| "f64_less _ NaN = False"
| "f64_less NegInf x = (x \<noteq> NegInf)"
| "f64_less PosInf _ = False"
| "f64_less (Fin _) x = (x = PosInf)"

fun f64_is_finite :: "f64 \<Rightarrow> bool" where
  "f64_is_finite (Fin _) = True"
| "f64_is_finite _ = False"

definition f64_le :: "f64 \<Rightarrow> f64 \<Rightarrow> bool" where
  "f64_le x y = (f64_less x y \<or> (x = y \<and> x \<noteq> NaN))"

text \<open>\<^verbatim>\<open>f64::clamp\<close> and the saturating cast \<^verbatim>\<open>as u64\<close>.\<close>

definition f64_clamp :: "f64 \<Rightarrow> f64 \<Rightarrow> f64 \<Rightarrow> f64" where
  "f64_clamp lo hi x = (if f64_less x lo then lo else if f64_less hi x then hi else x)"

fun f64_to_u64 :: "f64 \<Rightarrow> nat" where
  "f64_to_u64 (Fin a) = (if a < 0 then 0 else min (nat \<lfloor>a\<rfloor>) (2 ^ 64 - 1))"
| "f64_to_u64 PosInf = 2 ^ 64 - 1"
| "f64_to_u64 NegInf = 0"
| "f64_to_u64 NaN = 0"

section \<open>Configuration\<close>

datatype backoff_kind = Exponential | Constant | Linear

record constant_backoff =
  cb_delay :: duration

definition constant_backoff_new :: "duration \<Rightarrow> constant_backoff" where
  "constant_backoff_new d = \<lparr>cb_delay = d\<rparr>"

record linear_backoff =
  lb_initial_backoff :: duration
  lb_increment :: duration
  lb_max_backoff :: duration

definition linear_backoff_new :: "duration \<Rightarrow> duration \<Rightarrow> duration \<Rightarrow> linear_backoff" where
  "linear_backoff_new i inc mx = \<lparr>lb_initial_backoff = i, lb_increment = inc, lb_max_backoff = mx\<rparr>"

text \<open>
  The callback \<^verbatim>\<open>on_retry\<close> is represented by whether it is set; its calls are part of what the loop
  returns.
\<close>

record retry_policy =
  max_attempts :: nat
  initial_backoff :: duration
  max_backoff :: duration
  max_elapsed_time :: duration
  backoff_factor :: f64
  jitter :: f64
  policy_backoff_kind :: backoff_kind
  linear_increment :: duration
  retry_if :: "(app_error \<Rightarrow> bool) option"
  on_retry :: bool
  jitter_seed :: "64 word option"

abbreviation millis :: "nat \<Rightarrow> duration" where
  "millis n \<equiv> n * 1000000"

abbreviation seconds :: "nat \<Rightarrow> duration" where
  "seconds n \<equiv> n * 1000000000"

definition retry_policy_default :: retry_policy where
  "retry_policy_default =
     \<lparr>max_attempts = 3, initial_backoff = millis 100, max_backoff = seconds 10,
      max_elapsed_time = seconds 30, backoff_factor = Fin 2, jitter = round_f64 (1 / 10),
      policy_backoff_kind = Exponential, linear_increment = millis 100, retry_if = None,
      on_retry = False, jitter_seed = None\<rparr>"

definition with_max_attempts :: "nat \<Rightarrow> retry_policy \<Rightarrow> retry_policy" where
  "with_max_attempts n p = p\<lparr>max_attempts := n\<rparr>"

definition with_initial_backoff :: "duration \<Rightarrow> retry_policy \<Rightarrow> retry_policy" where
  "with_initial_backoff d p = p\<lparr>initial_backoff := d\<rparr>"

definition with_max_backoff :: "duration \<Rightarrow> retry_policy \<Rightarrow> retry_policy" where
  "with_max_backoff d p = p\<lparr>max_backoff := d\<rparr>"

definition with_max_elapsed_time :: "duration \<Rightarrow> retry_policy \<Rightarrow> retry_policy" where
  "with_max_elapsed_time d p = p\<lparr>max_elapsed_time := d\<rparr>"

definition with_backoff_factor :: "f64 \<Rightarrow> retry_policy \<Rightarrow> retry_policy" where
  "with_backoff_factor x p = p\<lparr>backoff_factor := x\<rparr>"

definition with_jitter :: "f64 \<Rightarrow> retry_policy \<Rightarrow> retry_policy" where
  "with_jitter fraction p = p\<lparr>jitter := fraction\<rparr>"

definition with_jitter_seed :: "64 word \<Rightarrow> retry_policy \<Rightarrow> retry_policy" where
  "with_jitter_seed seed p = p\<lparr>jitter_seed := Some seed\<rparr>"

definition with_constant_backoff :: "constant_backoff \<Rightarrow> retry_policy \<Rightarrow> retry_policy" where
  "with_constant_backoff b p =
     p\<lparr>policy_backoff_kind := Constant, initial_backoff := cb_delay b, max_backoff := cb_delay b\<rparr>"

definition with_linear_backoff :: "linear_backoff \<Rightarrow> retry_policy \<Rightarrow> retry_policy" where
  "with_linear_backoff b p =
     p\<lparr>policy_backoff_kind := Linear, initial_backoff := lb_initial_backoff b,
       linear_increment := lb_increment b, max_backoff := lb_max_backoff b\<rparr>"

definition with_retry_if :: "(app_error \<Rightarrow> bool) \<Rightarrow> retry_policy \<Rightarrow> retry_policy" where
  "with_retry_if pred p = p\<lparr>retry_if := Some pred\<rparr>"

definition with_on_retry :: "retry_policy \<Rightarrow> retry_policy" where
  "with_on_retry p = p\<lparr>on_retry := True\<rparr>"

datatype retry_preset = Fast | Standard | ExternalServicePreset

fun preset_policy :: "retry_preset \<Rightarrow> retry_policy" where
  "preset_policy Fast =
     with_max_elapsed_time (seconds 1)
       (with_constant_backoff (constant_backoff_new (millis 10))
         (with_max_attempts 2 retry_policy_default))"
| "preset_policy Standard =
     with_max_elapsed_time (seconds 10) (with_max_backoff (seconds 2)
       (with_initial_backoff (millis 100) (with_max_attempts 3 retry_policy_default)))"
| "preset_policy ExternalServicePreset =
     with_max_elapsed_time (seconds 30) (with_max_backoff (seconds 5)
       (with_initial_backoff (millis 200) (with_max_attempts 4 retry_policy_default)))"

definition retry_validate :: "retry_policy \<Rightarrow> unit app_result" where
  "retry_validate p =
     (if max_attempts p = 0 then
        Inl (invalid_input ''max_attempts'' ''retry attempts must be greater than zero'')
      else if \<not> f64_is_finite (backoff_factor p) \<or> f64_le (backoff_factor p) (Fin 0) then
        Inl (invalid_input ''backoff_factor'' ''retry backoff factor must be finite and greater than zero'')
      else if \<not> f64_is_finite (jitter p) \<or> \<not> (f64_le (Fin 0) (jitter p) \<and> f64_le (jitter p) (Fin 1)) then
        Inl (invalid_input ''jitter'' ''retry jitter must be a finite fraction within [0.0, 1.0]'')
      else Inr ())"

section \<open>Backoff delays\<close>

text \<open>\<^verbatim>\<open>Duration::as_millis\<close>, the truncating cast \<^verbatim>\<open>as u64\<close> and the saturating operations on \<^verbatim>\<open>u64\<close>.\<close>

definition as_millis :: "duration \<Rightarrow> nat" where
  "as_millis d = d div 1000000"

definition u64_max :: nat where
  "u64_max = 2 ^ 64 - 1"

definition as_u64 :: "nat \<Rightarrow> nat" where
  "as_u64 n = n mod 2 ^ 64"

definition saturating_add :: "nat \<Rightarrow> nat \<Rightarrow> nat" where
  "saturating_add a b = min (a + b) u64_max"

definition saturating_mul :: "nat \<Rightarrow> nat \<Rightarrow> nat" where
  "saturating_mul a b = min (a * b) u64_max"

text \<open>\<open>i32\<close> is the truncating cast of an attempt index; the index is a 64-bit \<^verbatim>\<open>usize\<close>.\<close>

definition as_i32 :: "nat \<Rightarrow> int" where
  "as_i32 n = sint (of_nat n :: 32 word)"

definition deterministic_word :: "64 word \<Rightarrow> nat \<Rightarrow> 64 word" where
  "deterministic_word seed attempt =
     (let v0 = seed XOR (of_nat attempt * 0x9E3779B97F4A7C15);
          v1 = v0 + 0x9E3779B97F4A7C15;
          v2 = (v1 XOR drop_bit 30 v1) * 0xBF58476D1CE4E5B9;
          v3 = (v2 XOR drop_bit 27 v2) * 0x94D049BB133111EB
      in v3 XOR drop_bit 31 v3)"

definition deterministic_unit :: "64 word \<Rightarrow> nat \<Rightarrow> f64" where
  "deterministic_unit seed attempt =
     (case f64_of_nat (unat (drop_bit 11 (deterministic_word seed attempt))) of
        Fin a \<Rightarrow> round_f64 (a / 2 ^ 53)
      | x \<Rightarrow> x)"

definition base_delay :: "(f64 \<Rightarrow> int \<Rightarrow> f64) \<Rightarrow> retry_policy \<Rightarrow> nat \<Rightarrow> duration" where
  "base_delay powi_fn p attempt =
     (case policy_backoff_kind p of
        Exponential \<Rightarrow>
          (let e = powi_fn (backoff_factor p) (as_i32 (attempt - 1));
               base_ms = f64_to_u64 (f64_mul (f64_of_nat (as_millis (initial_backoff p))) e)
           in millis (min base_ms (as_u64 (as_millis (max_backoff p)))))
      | Constant \<Rightarrow> initial_backoff p
      | Linear \<Rightarrow>
          (let initial = as_u64 (as_millis (initial_backoff p));
               increment = as_u64 (as_millis (linear_increment p));
               computed = saturating_add initial (saturating_mul increment (as_u64 (attempt - 1)))
           in millis (min computed (as_u64 (as_millis (max_backoff p))))))"

text \<open>\<open>draw attempt\<close> is the value of \<^verbatim>\<open>rand::random::<f64>\<close> at that call.\<close>

definition backoff_delay ::
    "(f64 \<Rightarrow> int \<Rightarrow> f64) \<Rightarrow> (nat \<Rightarrow> f64) \<Rightarrow> retry_policy \<Rightarrow> nat \<Rightarrow> duration" where
  "backoff_delay powi_fn draw p attempt =
     (let base = base_delay powi_fn p attempt
      in if f64_less (Fin 0) (jitter p) \<and> base \<noteq> 0 then
           let unit = (case jitter_seed p of
                         Some seed \<Rightarrow> deterministic_unit seed attempt
                       | None \<Rightarrow> draw attempt);
               base_ms = f64_of_nat (as_millis base);
               offset = f64_mul (f64_mul (f64_sub (f64_mul unit (Fin 2)) (Fin 1)) base_ms) (jitter p);
               max_ms = f64_of_nat (as_millis (max_backoff p));
               jittered = f64_clamp (Fin 0) max_ms (f64_add base_ms offset)
           in millis (f64_to_u64 jittered)
         else base)"

section \<open>The execution loop\<close>

record retry_error =
  re_attempts :: nat
  re_last_error :: app_error

definition retry_error_display :: "retry_error \<Rightarrow> string" where
  "retry_error_display e =
     ''all '' @ show_nat (re_attempts e) @ '' retry attempts failed; last: '' @
     app_error_display (re_last_error e)"

definition should_retry :: "retry_policy \<Rightarrow> app_error \<Rightarrow> bool" where
  "should_retry p e = (case retry_if p of Some pred \<Rightarrow> pred e | None \<Rightarrow> err_retryable e)"

text \<open>
  The operation transforms a world \<open>'w\<close>. \<open>clock\<close> reads its monotonic clock, \<open>sleep\<close> is
  \<^verbatim>\<open>tokio::time::sleep\<close>, and \<open>tmo d f\<close> is \<^verbatim>\<open>tokio::time::timeout\<close>: what \<open>f\<close> returned, or \<open>None\<close> when the
  deadline came first. The second component of the result lists the calls of \<^verbatim>\<open>on_retry\<close>.
\<close>

record 'w time_env =
  clock :: "'w \<Rightarrow> instant"
  sleep :: "duration \<Rightarrow> 'w \<Rightarrow> 'w"

type_synonym ('w, 'r) operation = "'w \<Rightarrow> 'w \<times> 'r"

type_synonym ('w, 'r) timeout_fn = "duration \<Rightarrow> ('w, 'r) operation \<Rightarrow> 'w \<Rightarrow> 'w \<times> 'r option"

definition elapsed_error :: "nat \<Rightarrow> retry_error" where
  "elapsed_error attempts = \<lparr>re_attempts = attempts, re_last_error = timeout_error ''retry elapsed time''\<rparr>"

text \<open>
  One round of the loop, given the number of attempts made before: \<open>None\<close> goes round again, after the
  backoff sleep.
\<close>

definition retry_round ::
    "'w time_env \<Rightarrow> ('w, 'a app_result) timeout_fn \<Rightarrow> (nat \<Rightarrow> duration) \<Rightarrow> retry_policy \<Rightarrow>
     ('w, 'a app_result) operation \<Rightarrow> instant \<Rightarrow> nat \<Rightarrow> 'w \<Rightarrow>
     'w \<times> (nat \<times> app_error) list \<times> (retry_error + 'a) option" where
  "retry_round env tmo delay_of p f started attempts w =
     (let elapsed = clock env w - started in
      if max_elapsed_time p < elapsed then (w, [], Some (Inl (elapsed_error attempts)))
      else if max_elapsed_time p - elapsed = 0 then (w, [], Some (Inl (elapsed_error attempts)))
      else
        let attempt = attempts + 1 in
        case tmo (max_elapsed_time p - elapsed) f w of
          (w1, None) \<Rightarrow> (w1, [], Some (Inl (elapsed_error attempt)))
        | (w1, Some (Inr v)) \<Rightarrow> (w1, [], Some (Inr v))
        | (w1, Some (Inl e)) \<Rightarrow>
            if attempt \<ge> max_attempts p \<or> \<not> should_retry p e \<or>
               clock env w1 - started \<ge> max_elapsed_time p
            then (w1, [], Some (Inl \<lparr>re_attempts = attempt, re_last_error = e\<rparr>))
            else
              let told = (if on_retry p then [(attempt mod 2 ^ 32, e)] else []);
                  delay = delay_of attempt
              in if min (clock env w1 - started + delay) duration_max \<ge> max_elapsed_time p
                 then (w1, told, Some (Inl \<lparr>re_attempts = attempt, re_last_error = e\<rparr>))
                 else (sleep env delay w1, told, None))"

lemma retry_round_again:
  "retry_round env tmo delay_of p f started attempts w = (w', told, None) \<Longrightarrow> attempts + 1 < max_attempts p"
  by (auto simp: retry_round_def Let_def split: if_splits prod.splits option.splits sum.splits)

function retry_loop ::
    "'w time_env \<Rightarrow> ('w, 'a app_result) timeout_fn \<Rightarrow> (nat \<Rightarrow> duration) \<Rightarrow> retry_policy \<Rightarrow>
     ('w, 'a app_result) operation \<Rightarrow> instant \<Rightarrow> nat \<Rightarrow> 'w \<Rightarrow> (nat \<times> app_error) list \<Rightarrow>
     'w \<times> (nat \<times> app_error) list \<times> (retry_error + 'a)" where
  "retry_loop env tmo delay_of p f started attempts w told =
     (case retry_round env tmo delay_of p f started attempts w of
        (w', new, Some r) \<Rightarrow> (w', told @ new, r)
      | (w', new, None) \<Rightarrow> retry_loop env tmo delay_of p f started (attempts + 1) w' (told @ new))"
  by pat_completeness auto
termination
proof (relation "measure (\<lambda>(_, _, _, p, _, _, attempts, _, _). max_attempts p - attempts)", goal_cases)
  case (2 env tmo delay_of p f started attempts w told w' y new z)
  then have "attempts + 1 < max_attempts p" by (auto dest: retry_round_again [OF sym])
  then show ?case by simp
qed simp

declare retry_loop.simps [simp del]

definition retry_execute ::
    "'w time_env \<Rightarrow> ('w, 'a app_result) timeout_fn \<Rightarrow> (nat \<Rightarrow> duration) \<Rightarrow> retry_policy \<Rightarrow>
     ('w, 'a app_result) operation \<Rightarrow> 'w \<Rightarrow> 'w \<times> (nat \<times> app_error) list \<times> (retry_error + 'a)" where
  "retry_execute env tmo delay_of p f w =
     (case retry_validate p of
        Inl e \<Rightarrow> (w, [], Inl \<lparr>re_attempts = 0, re_last_error = e\<rparr>)
      | Inr _ \<Rightarrow> retry_loop env tmo delay_of p f (clock env w) 0 w [])"

section \<open>Delays stay below the cap\<close>

lemma round_half_even_of_int [simp]: "round_half_even (of_int k) = k"
  by (simp add: round_half_even_def)

lemma pow2_pos [simp]: "0 < pow2 k"
  by (simp add: pow2_def)

lemma ulp_exponent_nat:
  assumes "n < 2 ^ 53" shows "ulp_exponent (of_nat n) \<le> 0"
proof -
  have q: "quotient_of (of_nat n) = (int n, 1)"
    using quotient_of_int [of "int n"] by (simp add: Fract_of_int_quotient)
  have "floorlog 2 n \<le> 53"
    using assms by (simp add: floorlog_le_iff) 
  moreover have "floorlog 2 1 = 1" by (simp add: floorlog_def)
  ultimately show ?thesis
    by (simp add: ulp_exponent_def Let_def q)
qed

text \<open>Integers below \<open>2 ^ 53\<close> are represented exactly.\<close>

lemma f64_of_nat_exact:
  assumes "n < 2 ^ 53" shows "f64_of_nat n = Fin (of_nat n)"
proof -
  let ?e = "ulp_exponent (of_nat n)"
  have e: "?e \<le> 0" using assms by (rule ulp_exponent_nat)
  then have u: "pow2 ?e = 1 / 2 ^ nat (- ?e)" by (auto simp: pow2_def)
  have "of_nat n / pow2 ?e = of_int (int n * 2 ^ nat (- ?e))" by (simp add: u)
  then have "of_int (round_half_even (of_nat n / pow2 ?e)) * pow2 ?e = of_nat n"
    by (simp only: round_half_even_of_int) (simp add: u)
  moreover have "(of_nat n :: rat) < 2 ^ 1024"
  proof -
    have "(of_nat n :: rat) < of_nat (2 ^ 53)" using assms by (simp only: of_nat_less_iff)
    also have "\<dots> \<le> 2 ^ 1024" by (simp only: of_nat_power of_nat_numeral) (rule power_increasing; simp)
    finally show ?thesis .
  qed
  moreover have "- (2 ^ 1024) < (of_nat n :: rat)"
    by (rule less_le_trans [of _ 0]) simp_all
  ultimately show ?thesis
    by (simp add: f64_of_nat_def round_f64_def Let_def)
qed

text \<open>Fractions of \<open>2 ^ 53\<close> in the unit interval are exact, too.\<close>

lemma ulp_exponent_unit:
  assumes "0 \<le> q" and "q < 1" shows "ulp_exponent q \<le> - 53"
proof -
  obtain n d where nd: "quotient_of q = (n, d)" by fastforce
  have d: "0 < d" using quotient_of_denom_pos [OF nd] .
  have q: "q = of_int n / of_int d" using quotient_of_div [OF nd] .
  have "0 \<le> n" "n < d"
    using assms d unfolding q by (auto simp: zero_le_divide_iff divide_less_eq_1)
  then have "floorlog 2 (nat n) \<le> floorlog 2 (nat d)"
    by (intro floorlog_mono) simp_all
  moreover have "k < 0" if "pow2 k \<le> \<bar>q\<bar>" for k
  proof (rule ccontr)
    assume "\<not> k < 0"
    then have "1 \<le> pow2 k" by (simp add: pow2_def)
    with that assms show False by simp
  qed
  ultimately show ?thesis
    unfolding ulp_exponent_def Let_def nd fst_conv snd_conv
    using \<open>0 \<le> n\<close> by (fastforce split: if_split)
qed

lemma round_f64_unit:
  assumes "n < 2 ^ 53" shows "round_f64 (of_nat n / 2 ^ 53) = Fin (of_nat n / 2 ^ 53)"
proof -
  let ?q = "of_nat n / 2 ^ 53 :: rat"
  have "(of_nat n :: rat) < of_nat (2 ^ 53)" using assms by (simp only: of_nat_less_iff)
  then have q: "0 \<le> ?q" "?q < 1" by (simp_all add: divide_less_eq_1)
  let ?e = "ulp_exponent ?q"
  have e: "?e \<le> - 53" using q by (rule ulp_exponent_unit)
  define k where "k = nat (- ?e) - 53"
  have k: "nat (- ?e) = 53 + k" using e by (simp add: k_def)
  have u: "pow2 ?e = 1 / (2 ^ 53 * 2 ^ k)"
    using e k by (simp add: pow2_def power_add)
  have "?q / pow2 ?e = of_int (int n * 2 ^ k)" by (subst u) simp
  then have "of_int (round_half_even (?q / pow2 ?e)) * pow2 ?e = ?q"
    by (simp only: round_half_even_of_int) (subst u, simp)
  moreover have "?q < 2 ^ 1024" using q(2) by (rule less_le_trans) simp
  moreover have "- (2 ^ 1024) < ?q" by (rule less_le_trans [of _ 0]) (use q in simp_all)
  ultimately show ?thesis by (simp add: round_f64_def Let_def)
qed

lemma deterministic_unit_range:
  "\<exists>a. deterministic_unit seed attempt = Fin a \<and> 0 \<le> a \<and> a < 1"
proof -
  let ?n = "unat (drop_bit 11 (deterministic_word seed attempt))"
  have "?n = unat (deterministic_word seed attempt) div 2 ^ 11"
    by (subst unat_drop_bit_eq) (rule drop_bit_eq_div)
  moreover have "unat (deterministic_word seed attempt) < 2 ^ 64"
    using unsigned_less [of "deterministic_word seed attempt"] by simp
  ultimately have n: "?n < 2 ^ 53" by (simp add: div_less_iff_less_mult)
  then have "(of_nat ?n :: rat) < of_nat (2 ^ 53)" by (simp only: of_nat_less_iff)
  then have "of_nat ?n / 2 ^ 53 < (1 :: rat)" by (simp add: divide_less_eq_1)
  moreover have "deterministic_unit seed attempt = Fin (of_nat ?n / 2 ^ 53)"
    unfolding deterministic_unit_def f64_of_nat_exact [OF n] f64.case round_f64_unit [OF n] ..
  ultimately show ?thesis by (metis divide_nonneg_nonneg of_nat_0_le_iff zero_le_numeral zero_le_power)
qed

lemma clamp_to_u64_le:
  "f64_to_u64 (f64_clamp (Fin 0) (Fin (of_nat m)) x) \<le> m"
proof (cases x)
  case (Fin a)
  then show ?thesis
    by (auto simp: f64_clamp_def min_le_iff_disj nat_le_iff) (linarith | simp add: floor_le_iff)+
qed (auto simp: f64_clamp_def)

lemma millis_as_millis_le: "millis (as_millis d) \<le> d"
  by (simp add: as_millis_def)

lemma base_delay_capped:
  assumes "policy_backoff_kind p \<noteq> Constant"
  shows "base_delay powi_fn p attempt \<le> max_backoff p"
proof -
  have "millis (min x (as_u64 (as_millis (max_backoff p)))) \<le> max_backoff p" for x
  proof -
    have "min x (as_u64 (as_millis (max_backoff p))) \<le> as_millis (max_backoff p)"
      by (simp add: as_u64_def min_le_iff_disj)
    then show ?thesis using millis_as_millis_le by (meson le_trans mult_le_mono1)
  qed
  with assms show ?thesis
    by (cases "policy_backoff_kind p") (simp_all add: base_delay_def Let_def)
qed

text \<open>
  Below \<open>2 ^ 53\<close> milliseconds (where \<^verbatim>\<open>f64\<close> counts exactly) a backoff delay never exceeds
  \<^verbatim>\<open>max_backoff\<close>, whatever \<^verbatim>\<open>powi\<close> returns, however large the attempt number and the factor, and whatever
  jitter is drawn; the constant kind without jitter is the exception, where the bound holds if the
  configured delay respects it. Seeded jitter is drawn from the half-open unit interval.
\<close>

lemma backoff_delay_capped:
  assumes "as_millis (max_backoff p) < 2 ^ 53"
    and "policy_backoff_kind p = Constant \<Longrightarrow> \<not> f64_less (Fin 0) (jitter p) \<Longrightarrow>
           initial_backoff p \<le> max_backoff p"
  shows "backoff_delay powi_fn draw p attempt \<le> max_backoff p \<and>
         (\<exists>a. deterministic_unit seed attempt = Fin a \<and> 0 \<le> a \<and> a < 1)"
proof
  show "\<exists>a. deterministic_unit seed attempt = Fin a \<and> 0 \<le> a \<and> a < 1"
    by (rule deterministic_unit_range)
  have jittered: "millis (f64_to_u64 (f64_clamp (Fin 0) (f64_of_nat (as_millis (max_backoff p))) x))
      \<le> max_backoff p" for x
    unfolding f64_of_nat_exact [OF assms(1)]
    using clamp_to_u64_le millis_as_millis_le by (meson le_trans mult_le_mono1)
  show "backoff_delay powi_fn draw p attempt \<le> max_backoff p"
  proof (cases "f64_less (Fin 0) (jitter p) \<and> base_delay powi_fn p attempt \<noteq> 0")
    case True
    then show ?thesis unfolding backoff_delay_def Let_def by (simp add: jittered)
  next
    case False
    have "base_delay powi_fn p attempt \<le> max_backoff p"
      if "policy_backoff_kind p = Constant" "\<not> f64_less (Fin 0) (jitter p)"
      using assms(2) [OF that] that(1) by (simp add: base_delay_def)
    with False base_delay_capped [of p powi_fn attempt] show ?thesis
      unfolding backoff_delay_def Let_def by (cases "policy_backoff_kind p = Constant") auto
  qed
qed

lemma backoff_delay_capped_witness:
  "backoff_delay (\<lambda>_ _. PosInf) (\<lambda>_. Fin 0) retry_policy_default 40 \<le> seconds 10"
  using backoff_delay_capped [of retry_policy_default "\<lambda>_ _. PosInf" "\<lambda>_. Fin 0" 40 7]
  by (simp add: retry_policy_default_def as_millis_def)

section \<open>The loop is bounded\<close>

text \<open>
  \<open>counter\<close> counts the calls of the operation in the world, completed or cut off by the deadline. What a
  round contributes: at most one call, and one exactly when it goes round again.
\<close>

lemma retry_round_attempts:
  assumes count: "\<And>d w. counter (fst (tmo d f w)) = Suc (counter w)"
      "\<And>d w. counter (sleep env d w) = counter w"
    and tmo: "\<And>d w. snd (tmo d f w) = None \<or> snd (tmo d f w) = Some (snd (f w))"
    and round: "retry_round env tmo delay_of p f started attempts w = (w', new, r)"
  shows "\<forall>(k, e) \<in> set new. should_retry p e"
    and "r = None \<Longrightarrow> counter w' = Suc (counter w)"
    and "r = Some (Inr v) \<Longrightarrow> counter w' = Suc (counter w) \<and> (\<exists>w1. snd (f w1) = Inr v)"
    and "r = Some (Inl re) \<Longrightarrow> attempts \<le> re_attempts re \<and> re_attempts re \<le> attempts + 1 \<and>
           counter w' = counter w + (re_attempts re - attempts) \<and>
           (re_last_error re = timeout_error ''retry elapsed time'' \<or> (\<exists>w1. snd (f w1) = Inl (re_last_error re)))"
proof -
  let ?d = "max_elapsed_time p - (clock env w - started)"
  obtain w1 o1 where t: "tmo ?d f w = (w1, o1)" by fastforce
  then have "counter w1 = Suc (counter w)" "o1 = None \<or> o1 = Some (snd (f w))"
    using count(1) [of ?d w] tmo [of ?d w] by auto
  with round t count(2) show "\<forall>(k, e) \<in> set new. should_retry p e"
    "r = None \<Longrightarrow> counter w' = Suc (counter w)"
    "r = Some (Inr v) \<Longrightarrow> counter w' = Suc (counter w) \<and> (\<exists>w1. snd (f w1) = Inr v)"
    "r = Some (Inl re) \<Longrightarrow> attempts \<le> re_attempts re \<and> re_attempts re \<le> attempts + 1 \<and>
           counter w' = counter w + (re_attempts re - attempts) \<and>
           (re_last_error re = timeout_error ''retry elapsed time'' \<or> (\<exists>w1. snd (f w1) = Inl (re_last_error re)))"
    unfolding retry_round_def Let_def
    by (auto simp: elapsed_error_def split: if_splits sum.splits option.splits; metis)+
qed

text \<open>What a run of the loop delivers, with \<open>n\<close> calls made.\<close>

definition retry_outcome :: "('w \<Rightarrow> nat) \<Rightarrow> ('w, 'a app_result) operation \<Rightarrow> nat \<Rightarrow> 'w \<Rightarrow> 'w \<Rightarrow> (retry_error + 'a) \<Rightarrow> bool" where
  "retry_outcome counter f attempts w w' r \<longleftrightarrow>
     counter w \<le> counter w' \<and>
     (case r of
        Inr v \<Rightarrow> counter w < counter w' \<and> (\<exists>w1. snd (f w1) = Inr v)
      | Inl re \<Rightarrow> re_attempts re = attempts + (counter w' - counter w) \<and>
          (re_last_error re = timeout_error ''retry elapsed time'' \<or>
           (\<exists>w1. snd (f w1) = Inl (re_last_error re))))"

lemma retry_loop_attempts:
  assumes count: "\<And>d w. counter (fst (tmo d f w)) = Suc (counter w)"
      "\<And>d w. counter (sleep env d w) = counter w"
    and tmo: "\<And>d w. snd (tmo d f w) = None \<or> snd (tmo d f w) = Some (snd (f w))"
    and "attempts < max_attempts p"
    and "retry_loop env tmo delay_of p f started attempts w told = (w', told', r)"
  shows "retry_outcome counter f attempts w w' r \<and> attempts + (counter w' - counter w) \<le> max_attempts p \<and>
         (\<exists>new. told' = told @ new \<and> (\<forall>(k, e) \<in> set new. should_retry p e))"
  using assms(4,5)
proof (induction "max_attempts p - attempts" arbitrary: attempts w told rule: less_induct)
  case less
  obtain w1 new o1 where round: "retry_round env tmo delay_of p f started attempts w = (w1, new, o1)"
    using prod_cases3 by blast
  note r = retry_round_attempts [OF count tmo round]
  show ?case
  proof (cases o1)
    case (Some r')
    then have eq: "w' = w1" "told' = told @ new" "r = r'"
      using less.prems(2) round by (auto simp: retry_loop.simps [of _ _ _ _ _ _ attempts])
    show ?thesis
      using r(1,3,4) Some less.prems(1) unfolding eq retry_outcome_def
      by (cases r') auto
  next
    case None
    have again: "attempts + 1 < max_attempts p" using round unfolding None by (rule retry_round_again)
    moreover have "retry_loop env tmo delay_of p f started (attempts + 1) w1 (told @ new) = (w', told', r)"
      using less.prems(2) round None by (simp add: retry_loop.simps [of _ _ _ _ _ _ attempts])
    ultimately have ih: "retry_outcome counter f (attempts + 1) w1 w' r"
        "attempts + 1 + (counter w' - counter w1) \<le> max_attempts p"
        "\<exists>new'. told' = (told @ new) @ new' \<and> (\<forall>(k, e) \<in> set new'. should_retry p e)"
      using less.hyps [of "attempts + 1" w1 "told @ new"] less.prems(1) by auto
    have c: "counter w1 = Suc (counter w)" using r(2) None by simp
    have "retry_outcome counter f attempts w w' r"
      using ih(1) c unfolding retry_outcome_def by (auto split: sum.splits)
    moreover have "attempts + (counter w' - counter w) \<le> max_attempts p"
      using ih(1,2) c unfolding retry_outcome_def by simp
    moreover from ih(3) obtain new' where
        "told' = (told @ new) @ new'" "\<forall>(k, e) \<in> set new'. should_retry p e" by blast
    then have "told' = told @ (new @ new')" "\<forall>(k, e) \<in> set (new @ new'). should_retry p e"
      using r(1) by auto
    ultimately show ?thesis by blast
  qed
qed

text \<open>
  C9. Whatever the operation does, a valid policy calls it at most \<^verbatim>\<open>max_attempts\<close> times and then
  returns. It returns a value the operation produced, or an error that says exactly how many calls were
  made and carries either the error of a call or the elapsed-time error; the observer only ever sees
  errors the policy retries.
\<close>

theorem retry_attempts_bounded:
  assumes "retry_validate p = Inr ()"
    and "\<And>d w. counter (fst (tmo d f w)) = Suc (counter w)"
    and "\<And>d w. counter (sleep env d w) = counter w"
    and "\<And>d w. snd (tmo d f w) = None \<or> snd (tmo d f w) = Some (snd (f w))"
  shows "\<exists>w' told r. retry_execute env tmo delay_of p f w = (w', told, r) \<and>
           retry_outcome counter f 0 w w' r \<and> counter w' \<le> counter w + max_attempts p \<and>
           (\<forall>(k, e) \<in> set told. should_retry p e)"
proof -
  obtain w' told r where run: "retry_loop env tmo delay_of p f (clock env w) 0 w [] = (w', told, r)"
    using prod_cases3 by blast
  have "0 < max_attempts p" using assms(1) by (auto simp: retry_validate_def split: if_splits)
  from retry_loop_attempts [of counter tmo f env, OF assms(2-4) this run]
  have "retry_outcome counter f 0 w w' r" "counter w' - counter w \<le> max_attempts p"
      "\<forall>(k, e) \<in> set told. should_retry p e" by auto
  with run assms(1) show ?thesis by (auto simp: retry_execute_def)
qed

text \<open>A world that counts calls and time, with an operation that always fails, for the witness.\<close>

definition counting_env :: "(nat \<times> nat) time_env" where
  "counting_env = \<lparr>clock = snd, sleep = (\<lambda>d (n, t). (n, t + d))\<rparr>"

definition failing_op :: "(nat \<times> nat, nat app_result) operation" where
  "failing_op = (\<lambda>(n, t). ((n + 1, t + 1), Inl (service_unavailable ''db'')))"

definition run_to_end :: "(nat \<times> nat, nat app_result) timeout_fn" where
  "run_to_end d f w = (let (w', r) = f w in (w', Some r))"

theorem retry_attempts_bounded_witness:
  "\<exists>w' told r. retry_execute counting_env run_to_end (\<lambda>_. 5)
         (with_jitter (Fin 0) (preset_policy Fast)) failing_op (0, 0) =
       (w', told, r) \<and> retry_outcome fst failing_op 0 (0, 0) w' r \<and> fst w' \<le> 2"
proof -
  have "retry_validate (with_jitter (Fin 0) (preset_policy Fast)) = Inr ()"
    by (simp add: retry_validate_def retry_policy_default_def with_max_elapsed_time_def
        with_constant_backoff_def with_max_attempts_def with_jitter_def f64_le_def)
  from retry_attempts_bounded [of _ fst run_to_end failing_op counting_env, OF this, of "\<lambda>_. 5" "(0, 0)"]
  show ?thesis
    by (auto simp: counting_env_def failing_op_def run_to_end_def split_beta with_max_elapsed_time_def
        with_constant_backoff_def with_max_attempts_def with_jitter_def)
qed

lemma retry_loop_elapsed:
  assumes sleep: "\<And>d w. clock env (sleep env d w) = clock env w + d"
    and tmo: "\<And>d w. clock env w \<le> clock env (fst (tmo d f w)) \<and> clock env (fst (tmo d f w)) \<le> clock env w + d"
    and "max_elapsed_time p \<le> duration_max"
  shows "started \<le> clock env w \<Longrightarrow> clock env w \<le> started + max_elapsed_time p \<Longrightarrow>
    retry_loop env tmo delay_of p f started attempts w told = (w', told', r) \<Longrightarrow>
    clock env w' \<le> started + max_elapsed_time p"
proof (induction "max_attempts p - attempts" arbitrary: attempts w told rule: less_induct)
  case less
  let ?d = "max_elapsed_time p - (clock env w - started)"
  obtain w1 new o1 where round: "retry_round env tmo delay_of p f started attempts w = (w1, new, o1)"
    using prod_cases3 by blast
  have w1: "started \<le> clock env w1 \<and> clock env w1 \<le> started + max_elapsed_time p"
    using round less.prems(1,2) tmo [of w ?d] assms(3) unfolding retry_round_def Let_def
    by (auto simp: sleep split: if_splits prod.splits option.splits sum.splits)
  show ?case
  proof (cases o1)
    case (Some r')
    then show ?thesis using less.prems(3) round w1 by (simp add: retry_loop.simps [of _ _ _ _ _ _ attempts])
  next
    case None
    have "attempts + 1 < max_attempts p" using round unfolding None by (rule retry_round_again)
    then show ?thesis
      using less.hyps [of "attempts + 1" w1 "told @ new"] less.prems(3) round None w1
      by (simp add: retry_loop.simps [of _ _ _ _ _ _ attempts])
  qed
qed

text \<open>
  With timers that fire on time, all attempts and sleeps of \<^verbatim>\<open>execute\<close> together stay within
  \<^verbatim>\<open>max_elapsed_time\<close>: no attempt outlives the budget and no sleep is started that would.
\<close>

lemma retry_within_elapsed_budget:
  assumes "\<And>d w. clock env (sleep env d w) = clock env w + d"
    and "\<And>d w. clock env w \<le> clock env (fst (tmo d f w)) \<and> clock env (fst (tmo d f w)) \<le> clock env w + d"
    and "max_elapsed_time p \<le> duration_max"
  shows "clock env (fst (retry_execute env tmo delay_of p f w)) \<le> clock env w + max_elapsed_time p"
proof (cases "retry_validate p")
  case (Inr u)
  obtain w' told r where "retry_loop env tmo delay_of p f (clock env w) 0 w [] = (w', told, r)"
    using prod_cases3 by blast
  with retry_loop_elapsed [of env tmo f, OF assms, of "clock env w" w] Inr show ?thesis
    by (auto simp: retry_execute_def)
qed (simp add: retry_execute_def)

text \<open>A deadline enforced on the counting world: an operation that would end late is cut off in time.\<close>

definition cut_at_deadline :: "(nat \<times> nat, nat app_result) timeout_fn" where
  "cut_at_deadline d f w =
     (let (w', r) = f w
      in if snd w \<le> snd w' \<and> snd w' \<le> snd w + d then (w', Some r) else ((fst w', snd w + d), None))"

lemma retry_within_elapsed_budget_witness:
  "snd (fst (retry_execute counting_env cut_at_deadline (\<lambda>_. 5) (preset_policy Standard) failing_op (0, 0)))
     \<le> seconds 10"
  using retry_within_elapsed_budget
      [of counting_env cut_at_deadline failing_op "preset_policy Standard" "\<lambda>_. 5" "(0, 0)"]
  by (simp add: counting_env_def cut_at_deadline_def split_beta with_max_elapsed_time_def
      with_max_backoff_def with_initial_backoff_def with_max_attempts_def duration_max_def)

end
