(* ===== verification/Admission.thy ===== *)
theory Admission
  imports Retry
begin

text \<open>
  The admission layers of \<^verbatim>\<open>core/rskit-resilience/src\<close> besides the circuit breaker: the bulkhead
  (\<^verbatim>\<open>bulkhead.rs\<close>) and the rate limiter (\<^verbatim>\<open>rate_limiter.rs\<close>). The locale \<open>admission\<close> states what every
  such layer promises about the operation it guards, and is interpreted on the three of them.
\<close>

section \<open>The interface of an admission layer\<close>

text \<open>
  A layer with state \<open>'s\<close> decides, without looking at the guarded operation, either to run it in some
  world (the one after waiting for a permit, say) or to refuse with an error. Admitted, the operation
  runs exactly once, and what it returns is handed on; refused, it does not run at all.
\<close>

locale admission =
  fixes decide :: "'s \<times> 'w \<Rightarrow> 'w + (('s \<times> 'w) \<times> app_error)"
    and call :: "('w \<Rightarrow> 'w \<times> 'a app_result) \<Rightarrow> 's \<times> 'w \<Rightarrow> ('s \<times> 'w) \<times> 'a app_result"
  assumes admit: "decide st = Inl w1 \<Longrightarrow> \<exists>s'. call f st = ((s', fst (f w1)), snd (f w1))"
    and reject: "decide st = Inr (st', e) \<Longrightarrow> call f st = (st', Inl e)"
begin

lemma success_from_operation:
  assumes "call f st = (st', Inr v)"
  shows "\<exists>w1. decide st = Inl w1 \<and> f w1 = (snd st', Inr v)"
proof (cases "decide st")
  case (Inl w1)
  with admit [OF Inl, of f] assms show ?thesis by (auto simp: prod_eq_iff)
next
  case (Inr r)
  then show ?thesis using reject [of st "fst r" "snd r" f] assms by simp
qed

text \<open>
  A quantity that waiting and refusing do not change, and that the operation raises by at most \<open>k\<close>, is
  raised by at most \<open>k\<close> by the guarded call.
\<close>

lemma call_raises:
  fixes m :: "'w \<Rightarrow> nat"
  assumes "\<And>st w1. decide st = Inl w1 \<Longrightarrow> m w1 \<le> m (snd st)"
    and "\<And>st st' e. decide st = Inr (st', e) \<Longrightarrow> m (snd st') \<le> m (snd st)"
    and "\<And>w. m (fst (f w)) \<le> m w + k"
  shows "m (snd (fst (call f st))) \<le> m (snd st) + k"
proof (cases "decide st")
  case (Inl w1)
  from admit [OF Inl, of f] assms(1) [OF Inl] assms(3) [of w1] show ?thesis by fastforce
next
  case (Inr r)
  then have "decide st = Inr (fst r, snd r)" by simp
  from reject [OF this, of f] assms(2) [OF this] show ?thesis by simp
qed

end

section \<open>Bulkhead\<close>

record bulkhead_config =
  bh_name :: string
  max_concurrent :: nat
  max_wait :: duration
  on_reject :: bool
  on_acquire :: bool
  on_release :: bool

definition bulkhead_config_default :: bulkhead_config where
  "bulkhead_config_default =
     \<lparr>bh_name = ''bulkhead'', max_concurrent = 32, max_wait = seconds 5, on_reject = False,
      on_acquire = False, on_release = False\<rparr>"

definition bulkhead_config_new :: "string \<Rightarrow> nat \<Rightarrow> bulkhead_config" where
  "bulkhead_config_new name n = bulkhead_config_default\<lparr>bh_name := name, max_concurrent := n\<rparr>"

definition bulkhead_validate :: "bulkhead_config \<Rightarrow> unit app_result" where
  "bulkhead_validate c =
     (if max_concurrent c = 0 then
        Inl (invalid_input ''max_concurrent'' ''bulkhead concurrency limit must be greater than zero'')
      else Inr ())"

definition with_max_wait :: "duration \<Rightarrow> bulkhead_config \<Rightarrow> bulkhead_config" where
  "with_max_wait d c = c\<lparr>max_wait := d\<rparr>"

definition with_on_reject :: "bulkhead_config \<Rightarrow> bulkhead_config" where
  "with_on_reject c = c\<lparr>on_reject := True\<rparr>"

definition with_on_acquire :: "bulkhead_config \<Rightarrow> bulkhead_config" where
  "with_on_acquire c = c\<lparr>on_acquire := True\<rparr>"

definition with_on_release :: "bulkhead_config \<Rightarrow> bulkhead_config" where
  "with_on_release c = c\<lparr>on_release := True\<rparr>"

text \<open>The state of a bulkhead is the number of free permits of its semaphore.\<close>

definition bulkhead_new :: "bulkhead_config \<Rightarrow> nat app_result" where
  "bulkhead_new c = try_result (bulkhead_validate c) (\<lambda>_. Inr (max_concurrent c))"

definition available :: "nat \<Rightarrow> nat" where
  "available permits = permits"

definition in_use :: "bulkhead_config \<Rightarrow> nat \<Rightarrow> nat" where
  "in_use c permits = max_concurrent c - available permits"

text \<open>
  \<open>acquire\<close> is \<^verbatim>\<open>tokio::time::timeout(max_wait, sem.acquire())\<close>: it takes a permit, gives up after the
  wait, or finds the semaphore closed; meanwhile other holders may come and go.
\<close>

datatype acquire_outcome = Acquired | WaitElapsed | SemaphoreClosed

datatype bh_callback = CalledOnReject | CalledOnAcquire | CalledOnRelease

fun acquire_error :: "bulkhead_config \<Rightarrow> acquire_outcome \<Rightarrow> app_error option" where
  "acquire_error c Acquired = None"
| "acquire_error c WaitElapsed = Some (with_detail ''bulkhead'' (JString (bh_name c)) rate_limited)"
| "acquire_error c SemaphoreClosed = Some (service_unavailable ''bulkhead closed'')"

definition bulkhead_execute ::
    "bulkhead_config \<Rightarrow> (duration \<Rightarrow> nat \<times> 'w \<Rightarrow> (nat \<times> 'w) \<times> acquire_outcome) \<Rightarrow>
     ('w \<Rightarrow> 'w \<times> 'a app_result) \<Rightarrow> nat \<times> 'w \<Rightarrow> (nat \<times> 'w) \<times> bh_callback list \<times> 'a app_result" where
  "bulkhead_execute c acquire f st =
     (case acquire (max_wait c) st of ((permits, w), outcome) \<Rightarrow>
       case acquire_error c outcome of
         Some e \<Rightarrow> ((permits, w), if on_reject c then [CalledOnReject] else [], Inl e)
       | None \<Rightarrow>
           case f w of (w', result) \<Rightarrow>
             ((permits + 1, w'),
              (if on_acquire c then [CalledOnAcquire] else []) @
              (if on_release c then [CalledOnRelease] else []), result))"

section \<open>Concurrent calls of a bulkhead\<close>

text \<open>
  \<open>Arrive\<close> starts a call that waits for a permit; \<open>Grant\<close> hands a free permit to a waiting call;
  \<open>Expire\<close> is a wait that timed out; \<open>Complete\<close> is an operation that returned, with its release
  callback; \<open>DropWaiting\<close> and \<open>DropRunning\<close> are calls whose future is dropped: dropping the permit guard
  frees the slot.
\<close>

datatype bh_label = Arrive | Grant | Expire | Complete | DropWaiting | DropRunning

record bh_sys =
  bh_permits :: nat
  bh_waiting :: nat
  bh_running :: nat
  bh_dropped :: nat
  bh_called :: "bh_callback list"

definition bh_init :: "bulkhead_config \<Rightarrow> bh_sys" where
  "bh_init c = \<lparr>bh_permits = max_concurrent c, bh_waiting = 0, bh_running = 0, bh_dropped = 0, bh_called = []\<rparr>"

fun bh_fire :: "bulkhead_config \<Rightarrow> bh_label \<Rightarrow> bh_sys \<Rightarrow> bh_sys option" where
  "bh_fire c Arrive s = Some (s\<lparr>bh_waiting := bh_waiting s + 1\<rparr>)"
| "bh_fire c Grant s =
     (if 0 < bh_waiting s \<and> 0 < bh_permits s
      then Some (s\<lparr>bh_waiting := bh_waiting s - 1, bh_permits := bh_permits s - 1,
                   bh_running := bh_running s + 1,
                   bh_called := bh_called s @ (if on_acquire c then [CalledOnAcquire] else [])\<rparr>)
      else None)"
| "bh_fire c Expire s =
     (if 0 < bh_waiting s
      then Some (s\<lparr>bh_waiting := bh_waiting s - 1,
                   bh_called := bh_called s @ (if on_reject c then [CalledOnReject] else [])\<rparr>)
      else None)"
| "bh_fire c Complete s =
     (if 0 < bh_running s
      then Some (s\<lparr>bh_running := bh_running s - 1, bh_permits := bh_permits s + 1,
                   bh_called := bh_called s @ (if on_release c then [CalledOnRelease] else [])\<rparr>)
      else None)"
| "bh_fire c DropWaiting s =
     (if 0 < bh_waiting s then Some (s\<lparr>bh_waiting := bh_waiting s - 1\<rparr>) else None)"
| "bh_fire c DropRunning s =
     (if 0 < bh_running s
      then Some (s\<lparr>bh_running := bh_running s - 1, bh_permits := bh_permits s + 1,
                   bh_dropped := bh_dropped s + 1\<rparr>)
      else None)"

definition bh_step :: "bulkhead_config \<Rightarrow> bh_sys \<Rightarrow> bh_sys \<Rightarrow> bool" where
  "bh_step c s t \<longleftrightarrow> (\<exists>l. bh_fire c l s = Some t)"

definition bh_inv :: "bulkhead_config \<Rightarrow> bh_sys \<Rightarrow> bool" where
  "bh_inv c s \<longleftrightarrow>
     bh_permits s + bh_running s = max_concurrent c \<and>
     (on_acquire c \<and> on_release c \<longrightarrow>
        count_list (bh_called s) CalledOnAcquire =
          count_list (bh_called s) CalledOnRelease + bh_running s + bh_dropped s)"

lemma bh_fire_inv: "bh_inv c s \<Longrightarrow> bh_fire c l s = Some t \<Longrightarrow> bh_inv c t"
  by (cases l) (auto simp: bh_inv_def split: if_splits)

lemma bh_inv_init: "bh_inv c (bh_init c)"
  by (simp add: bh_inv_def bh_init_def)

interpretation bulkhead: invariant_system "\<lambda>s. s = bh_init c" "bh_step c" "bh_inv c" for c
  by unfold_locales (auto simp: bh_inv_init bh_step_def intro: bh_fire_inv)

text \<open>
  C10. In every interleaving of arrivals, grants, expired waits, completions and dropped calls, the
  bulkhead never has more than \<^verbatim>\<open>max_concurrent\<close> operations in flight, \<^verbatim>\<open>in_use\<close> is their exact number, and
  with both callbacks installed every acquisition is matched by a release notification except for
  the operations still running and those whose future was dropped, which release their permit silently.
\<close>

theorem bulkhead_bounds_concurrency:
  assumes "reach (\<lambda>s. s = bh_init c) (bh_step c) s"
  shows "bh_running s \<le> max_concurrent c \<and> in_use c (bh_permits s) = bh_running s \<and>
         (on_acquire c \<and> on_release c \<longrightarrow>
            count_list (bh_called s) CalledOnAcquire =
              count_list (bh_called s) CalledOnRelease + bh_running s + bh_dropped s)"
  using bulkhead.inv_reach [OF assms] by (auto simp: bh_inv_def in_use_def available_def)

theorem bulkhead_bounds_concurrency_witness:
  "\<exists>s. reach (\<lambda>s. s = bh_init (with_on_release (with_on_acquire (bulkhead_config_new ''db'' 1))))
         (bh_step (with_on_release (with_on_acquire (bulkhead_config_new ''db'' 1)))) s \<and>
       bh_running s = 0 \<and> bh_dropped s = 1 \<and>
       count_list (bh_called s) CalledOnAcquire = count_list (bh_called s) CalledOnRelease + 1"
proof -
  let ?c = "with_on_release (with_on_acquire (bulkhead_config_new ''db'' 1))"
  obtain s1 s2 s3 where s: "bh_fire ?c Arrive (bh_init ?c) = Some s1" "bh_fire ?c Grant s1 = Some s2"
      "bh_fire ?c DropRunning s2 = Some s3" "bh_running s3 = 0" "bh_dropped s3 = 1"
    by (simp add: bh_init_def with_on_release_def with_on_acquire_def bulkhead_config_new_def)
  have "reach (\<lambda>s. s = bh_init ?c) (bh_step ?c) (bh_init ?c)" by (rule reach_init) simp
  then have "reach (\<lambda>s. s = bh_init ?c) (bh_step ?c) s1"
    by (rule reach_step) (unfold bh_step_def, rule exI, rule s(1))
  then have "reach (\<lambda>s. s = bh_init ?c) (bh_step ?c) s2"
    by (rule reach_step) (unfold bh_step_def, rule exI, rule s(2))
  then have "reach (\<lambda>s. s = bh_init ?c) (bh_step ?c) s3"
    by (rule reach_step) (unfold bh_step_def, rule exI, rule s(3))
  from bulkhead_bounds_concurrency [OF this] this s(4,5) show ?thesis
    by (intro exI [of _ s3]) (simp add: with_on_release_def with_on_acquire_def)
qed

section \<open>Rate limiter\<close>

record limiter_config =
  rl_name :: string
  per_second :: nat
  burst :: nat
  on_limit :: bool

definition limiter_config_new :: "string \<Rightarrow> nat \<Rightarrow> nat \<Rightarrow> limiter_config" where
  "limiter_config_new name ps b = \<lparr>rl_name = name, per_second = ps, burst = b, on_limit = False\<rparr>"

definition with_per_second :: "nat \<Rightarrow> limiter_config \<Rightarrow> limiter_config" where
  "with_per_second ps c = c\<lparr>per_second := ps\<rparr>"

definition with_burst :: "nat \<Rightarrow> limiter_config \<Rightarrow> limiter_config" where
  "with_burst b c = c\<lparr>burst := b\<rparr>"

definition with_on_limit :: "limiter_config \<Rightarrow> limiter_config" where
  "with_on_limit c = c\<lparr>on_limit := True\<rparr>"

definition limiter_validate :: "limiter_config \<Rightarrow> unit app_result" where
  "limiter_validate c =
     (if per_second c = 0 then
        Inl (invalid_input ''per_second'' ''rate limit must be greater than zero'')
      else if burst c = 0 then
        Inl (invalid_input ''burst'' ''rate limit burst must be greater than zero'')
      else Inr ())"

definition non_zero :: "string \<Rightarrow> nat \<Rightarrow> string \<Rightarrow> nat app_result" where
  "non_zero field value message = (if value = 0 then Inl (invalid_input field message) else Inr value)"

text \<open>
  The token bucket is the \<^verbatim>\<open>governor\<close> crate: \<open>direct\<close> builds its state \<open>'g\<close> from the rate and the burst,
  \<open>governor_check\<close> takes a token from it or refuses.
\<close>

record 'g limiter =
  l_inner :: 'g
  l_name :: string
  l_on_limit :: bool

definition limiter_from_config :: "(nat \<Rightarrow> nat \<Rightarrow> 'g) \<Rightarrow> limiter_config \<Rightarrow> 'g limiter app_result" where
  "limiter_from_config direct c =
     try_result (non_zero ''per_second'' (per_second c) ''rate limit must be greater than zero'') (\<lambda>per_sec.
     try_result (non_zero ''burst'' (burst c) ''rate limit burst must be greater than zero'') (\<lambda>burst_size.
       Inr \<lparr>l_inner = direct per_sec burst_size, l_name = rl_name c, l_on_limit = on_limit c\<rparr>))"

definition limiter_new :: "(nat \<Rightarrow> nat \<Rightarrow> 'g) \<Rightarrow> string \<Rightarrow> nat \<Rightarrow> nat \<Rightarrow> 'g limiter app_result" where
  "limiter_new direct name ps b = limiter_from_config direct (limiter_config_new name ps b)"

text \<open>The second component lists the names passed to the callback.\<close>

definition limiter_check ::
    "('g \<times> 'w \<Rightarrow> 'g \<times> bool) \<Rightarrow> 'g limiter \<times> 'w \<Rightarrow> 'g limiter \<times> string list \<times> unit app_result" where
  "limiter_check governor_check st =
     (case st of (l, w) \<Rightarrow>
       case governor_check (l_inner l, w) of (g, granted) \<Rightarrow>
         if granted then (l\<lparr>l_inner := g\<rparr>, [], Inr ())
         else (l\<lparr>l_inner := g\<rparr>, if l_on_limit l then [l_name l] else [],
               Inl (with_detail ''rate_limiter'' (JString (l_name l)) rate_limited)))"

text \<open>\<^verbatim>\<open>until_ready\<close>: the environment decides whether a token or the cancellation comes first.\<close>

definition until_ready :: "bool option \<Rightarrow> unit app_result" where
  "until_ready cancelled_first =
     (case cancelled_first of
        Some True \<Rightarrow> Inl (service_unavailable ''rate limiter cancelled'')
      | _ \<Rightarrow> Inr ())"

text \<open>A rate-limited call: the check, then the operation.\<close>

definition limited_call ::
    "('g \<times> 'w \<Rightarrow> 'g \<times> bool) \<Rightarrow> ('w \<Rightarrow> 'w \<times> 'a app_result) \<Rightarrow> 'g limiter \<times> 'w \<Rightarrow>
     ('g limiter \<times> 'w) \<times> string list \<times> 'a app_result" where
  "limited_call governor_check f st =
     (case limiter_check governor_check st of (l, told, r) \<Rightarrow>
       case r of
         Inl e \<Rightarrow> ((l, snd st), told, Inl e)
       | Inr _ \<Rightarrow> (case f (snd st) of (w', result) \<Rightarrow> ((l, w'), told, result)))"

section \<open>The three layers meet the interface\<close>

abbreviation drop_log :: "'st \<times> 'l \<times> 'r \<Rightarrow> 'st \<times> 'r" where
  "drop_log x \<equiv> (fst x, snd (snd x))"

definition breaker_decide ::
    "cb_config \<Rightarrow> ('w \<Rightarrow> instant) \<Rightarrow> cb_inner \<times> 'w \<Rightarrow> 'w + ((cb_inner \<times> 'w) \<times> app_error)" where
  "breaker_decide config clk st =
     (case cb_before config (clk (snd st)) (fst st) of (cb, _, go) \<Rightarrow>
       if go then Inl (snd st) else Inr ((cb, snd st), cb_rejection config))"

definition bulkhead_decide ::
    "bulkhead_config \<Rightarrow> (duration \<Rightarrow> nat \<times> 'w \<Rightarrow> (nat \<times> 'w) \<times> acquire_outcome) \<Rightarrow>
     nat \<times> 'w \<Rightarrow> 'w + ((nat \<times> 'w) \<times> app_error)" where
  "bulkhead_decide c acquire st =
     (case acquire (max_wait c) st of (st', out) \<Rightarrow>
       case acquire_error c out of None \<Rightarrow> Inl (snd st') | Some e \<Rightarrow> Inr (st', e))"

definition limiter_decide ::
    "('g \<times> 'w \<Rightarrow> 'g \<times> bool) \<Rightarrow> 'g limiter \<times> 'w \<Rightarrow> 'w + (('g limiter \<times> 'w) \<times> app_error)" where
  "limiter_decide governor_check st =
     (case limiter_check governor_check st of (l, _, r) \<Rightarrow>
       case r of Inr _ \<Rightarrow> Inl (snd st) | Inl e \<Rightarrow> Inr ((l, snd st), e))"

interpretation breaker_layer: admission
  "breaker_decide config clk" "\<lambda>f st. drop_log (cb_execute config clk f st)" for config clk
  by unfold_locales
     (auto simp: breaker_decide_def cb_execute_def split_beta split: if_splits)

interpretation bulkhead_layer: admission
  "bulkhead_decide c acquire" "\<lambda>f st. drop_log (bulkhead_execute c acquire f st)" for c acquire
  by unfold_locales
     (auto simp: bulkhead_decide_def bulkhead_execute_def split_beta split: option.splits)

interpretation limiter_layer: admission
  "limiter_decide governor_check" "\<lambda>f st. drop_log (limited_call governor_check f st)"
  for governor_check
  by unfold_locales
     (auto simp: limiter_decide_def limited_call_def split_beta split: sum.splits)

end
