(* ===== verification/Policy.thy ===== *)
theory Policy
  imports Admission
begin

text \<open>
  The composed policy of \<^verbatim>\<open>core/rskit-resilience/src/policy.rs\<close>: rate limit, bulkhead, circuit breaker,
  timeout, retry, operation, in that order, and the tower services of
  \<^verbatim>\<open>core/rskit-resilience/src/layers\<close>, which wrap one layer each around a service. The operation works on
  a world \<open>'w\<close>; its error type \<open>'e\<close> is converted by \<open>from\<close> and \<open>into\<close>, as the trait bounds have it.
\<close>

section \<open>The policy object\<close>

record 'g policy =
  p_retry :: "retry_policy option"
  p_breaker :: "(cb_config \<times> cb_inner) option"
  p_bulkhead :: "(bulkhead_config \<times> nat) option"
  p_limiter :: "'g limiter option"
  p_timeout :: "duration option"

definition policy_new :: "'g policy" where
  "policy_new = \<lparr>p_retry = None, p_breaker = None, p_bulkhead = None, p_limiter = None, p_timeout = None\<rparr>"

definition with_retry :: "retry_policy \<Rightarrow> 'g policy \<Rightarrow> 'g policy" where
  "with_retry config p = p\<lparr>p_retry := Some config\<rparr>"

definition try_with_circuit_breaker :: "cb_config \<Rightarrow> 'g policy \<Rightarrow> 'g policy app_result" where
  "try_with_circuit_breaker config p =
     try_result (circuit_breaker_new config) (\<lambda>(cb, cfg). Inr (p\<lparr>p_breaker := Some (cfg, cb)\<rparr>))"

definition with_circuit_breaker :: "cb_config \<Rightarrow> 'g policy \<Rightarrow> 'g policy app_result" where
  "with_circuit_breaker config p = try_with_circuit_breaker config p"

definition try_with_bulkhead :: "bulkhead_config \<Rightarrow> 'g policy \<Rightarrow> 'g policy app_result" where
  "try_with_bulkhead config p =
     try_result (bulkhead_new config) (\<lambda>permits. Inr (p\<lparr>p_bulkhead := Some (config, permits)\<rparr>))"

definition with_bulkhead :: "bulkhead_config \<Rightarrow> 'g policy \<Rightarrow> 'g policy app_result" where
  "with_bulkhead config p = try_with_bulkhead config p"

definition with_rate_limiter :: "'g limiter \<Rightarrow> 'g policy \<Rightarrow> 'g policy" where
  "with_rate_limiter l p = p\<lparr>p_limiter := Some l\<rparr>"

definition try_with_rate_limiter_config ::
    "(nat \<Rightarrow> nat \<Rightarrow> 'g) \<Rightarrow> limiter_config \<Rightarrow> 'g policy \<Rightarrow> 'g policy app_result" where
  "try_with_rate_limiter_config direct config p =
     try_result (limiter_from_config direct config) (\<lambda>l. Inr (p\<lparr>p_limiter := Some l\<rparr>))"

definition with_timeout :: "duration \<Rightarrow> 'g policy \<Rightarrow> 'g policy" where
  "with_timeout d p = p\<lparr>p_timeout := Some d\<rparr>"

definition has_retry :: "'g policy \<Rightarrow> bool" where
  "has_retry p = (p_retry p \<noteq> None)"

definition policy_timeout :: "'g policy \<Rightarrow> duration option" where
  "policy_timeout p = p_timeout p"

section \<open>Execution\<close>

text \<open>
  What the runtime and the crates around the policy do: the timers, the retry observer, the token
  bucket and the semaphore. \<open>pe_delay\<close> is \<open>backoff_delay\<close> at the draws of this run.
\<close>

record ('g, 'w) policy_env =
  pe_time :: "'w time_env"
  pe_delay :: "retry_policy \<Rightarrow> nat \<Rightarrow> duration"
  pe_on_retry :: "nat \<Rightarrow> app_error \<Rightarrow> 'w \<Rightarrow> 'w"
  pe_governor :: "'g \<times> 'w \<Rightarrow> 'g \<times> bool"
  pe_acquire :: "duration \<Rightarrow> nat \<times> 'w \<Rightarrow> (nat \<times> 'w) \<times> acquire_outcome"

definition map_err :: "('e \<Rightarrow> 'f) \<Rightarrow> 'e + 'a \<Rightarrow> 'f + 'a" where
  "map_err g r = (case r of Inl e \<Rightarrow> Inl (g e) | Inr v \<Rightarrow> Inr v)"

lemma map_err_simps [simp]: "map_err g (Inl e) = Inl (g e)" "map_err g (Inr v) = Inr v"
  by (simp_all add: map_err_def)

function policy_retry_loop ::
    "('g, 'w) policy_env \<Rightarrow> (app_error \<Rightarrow> 'e) \<Rightarrow> ('e \<Rightarrow> app_error) \<Rightarrow> retry_policy \<Rightarrow>
     ('w, 'e + 'a) operation \<Rightarrow> nat \<Rightarrow> 'w \<Rightarrow> 'w \<times> ('e + 'a)" where
  "policy_retry_loop env from into retry f attempts w =
     (let attempt = attempts + 1 in
      case f w of
        (w1, Inr value) \<Rightarrow> (w1, Inr value)
      | (w1, Inl err) \<Rightarrow>
          let e = into err in
          if attempt \<ge> max_attempts retry \<or> \<not> should_retry retry e then (w1, Inl (from e))
          else
            let w2 = (if on_retry retry then pe_on_retry env (attempt mod 2 ^ 32) e w1 else w1)
            in policy_retry_loop env from into retry f attempt
                 (sleep (pe_time env) (pe_delay env retry attempt) w2))"
  by pat_completeness auto
termination
  by (relation "measure (\<lambda>(_, _, _, retry, _, attempts, _). max_attempts retry - attempts)") auto

declare policy_retry_loop.simps [simp del]

definition execute_retry ::
    "('g, 'w) policy_env \<Rightarrow> (app_error \<Rightarrow> 'e) \<Rightarrow> ('e \<Rightarrow> app_error) \<Rightarrow> retry_policy option \<Rightarrow>
     ('w, 'e + 'a) operation \<Rightarrow> ('w, 'e + 'a) operation" where
  "execute_retry env from into retry f w =
     (case retry of
        Some r \<Rightarrow>
          (case retry_validate r of
             Inl e \<Rightarrow> (w, Inl (from e))
           | Inr _ \<Rightarrow> policy_retry_loop env from into r f 0 w)
      | None \<Rightarrow> f w)"

definition execute_timeout ::
    "('g, 'w) policy_env \<Rightarrow> ('w, 'e + 'a) timeout_fn \<Rightarrow> (app_error \<Rightarrow> 'e) \<Rightarrow> ('e \<Rightarrow> app_error) \<Rightarrow>
     duration option \<Rightarrow> retry_policy option \<Rightarrow> ('w, 'e + 'a) operation \<Rightarrow> ('w, 'e + 'a) operation" where
  "execute_timeout env tmo from into limit retry f w =
     (case limit of
        Some d \<Rightarrow>
          (case tmo d (execute_retry env from into retry f) w of
             (w', Some r) \<Rightarrow> (w', r)
           | (w', None) \<Rightarrow> (w', Inl (from (timeout_error ''resilience policy''))))
      | None \<Rightarrow> execute_retry env from into retry f w)"

text \<open>The guarded call, and the breaker with its state.\<close>

definition execute_circuit_breaker ::
    "('g, 'w) policy_env \<Rightarrow> ('w, 'e + 'a) timeout_fn \<Rightarrow> (app_error \<Rightarrow> 'e) \<Rightarrow> ('e \<Rightarrow> app_error) \<Rightarrow>
     duration option \<Rightarrow> retry_policy option \<Rightarrow> ('w, 'e + 'a) operation \<Rightarrow>
     (cb_config \<times> cb_inner) option \<times> 'w \<Rightarrow> ((cb_config \<times> cb_inner) option \<times> 'w) \<times> ('e + 'a)" where
  "execute_circuit_breaker env tmo from into limit retry f st =
     (case st of
        (Some (config, cb), w) \<Rightarrow>
          (case drop_log (cb_execute config (clock (pe_time env))
                   (\<lambda>w. case execute_timeout env tmo from into limit retry f w of
                          (w', r) \<Rightarrow> (w', map_err into r))
                   (cb, w)) of
             ((cb', w'), r) \<Rightarrow> ((Some (config, cb'), w'), map_err from r))
      | (None, w) \<Rightarrow>
          (case execute_timeout env tmo from into limit retry f w of (w', r) \<Rightarrow> ((None, w'), r)))"

text \<open>While a call waits for a permit, the breaker is left alone by it.\<close>

definition lift_acquire ::
    "(duration \<Rightarrow> nat \<times> 'w \<Rightarrow> (nat \<times> 'w) \<times> acquire_outcome) \<Rightarrow>
     duration \<Rightarrow> nat \<times> ('b \<times> 'w) \<Rightarrow> (nat \<times> ('b \<times> 'w)) \<times> acquire_outcome" where
  "lift_acquire acquire d st =
     (case st of (permits, b, w) \<Rightarrow>
       case acquire d (permits, w) of ((permits', w'), out) \<Rightarrow> ((permits', b, w'), out))"

definition policy_execute_inner ::
    "('g, 'w) policy_env \<Rightarrow> ('w, 'e + 'a) timeout_fn \<Rightarrow> (app_error \<Rightarrow> 'e) \<Rightarrow> ('e \<Rightarrow> app_error) \<Rightarrow>
     ('w, 'e + 'a) operation \<Rightarrow> 'g policy \<times> 'w \<Rightarrow> ('g policy \<times> 'w) \<times> ('e + 'a)" where
  "policy_execute_inner env tmo from into f st =
     (case st of (p, w) \<Rightarrow>
       case p_bulkhead p of
         Some (config, permits) \<Rightarrow>
           (case drop_log (bulkhead_execute config (lift_acquire (pe_acquire env))
                    (\<lambda>bw. case execute_circuit_breaker env tmo from into (p_timeout p) (p_retry p) f bw of
                            (bw', r) \<Rightarrow> (bw', map_err into r))
                    (permits, p_breaker p, w)) of
              ((permits', b', w'), r) \<Rightarrow>
                ((p\<lparr>p_bulkhead := Some (config, permits'), p_breaker := b'\<rparr>, w'), map_err from r))
       | None \<Rightarrow>
           (case execute_circuit_breaker env tmo from into (p_timeout p) (p_retry p) f (p_breaker p, w) of
              ((b', w'), r) \<Rightarrow> ((p\<lparr>p_breaker := b'\<rparr>, w'), r)))"

definition policy_execute ::
    "('g, 'w) policy_env \<Rightarrow> ('w, 'e + 'a) timeout_fn \<Rightarrow> (app_error \<Rightarrow> 'e) \<Rightarrow> ('e \<Rightarrow> app_error) \<Rightarrow>
     ('w, 'e + 'a) operation \<Rightarrow> 'g policy \<times> 'w \<Rightarrow> ('g policy \<times> 'w) \<times> ('e + 'a)" where
  "policy_execute env tmo from into f st =
     (case st of (p, w) \<Rightarrow>
       case p_limiter p of
         Some l \<Rightarrow>
           (case limiter_check (pe_governor env) (l, w) of
              (l', _, Inl e) \<Rightarrow> ((p\<lparr>p_limiter := Some l'\<rparr>, w), Inl (from e))
            | (l', _, Inr _) \<Rightarrow> policy_execute_inner env tmo from into f (p\<lparr>p_limiter := Some l'\<rparr>, w))
       | None \<Rightarrow> policy_execute_inner env tmo from into f (p, w))"

section \<open>Tower services\<close>

text \<open>
  Each service clones the inner service and wraps its call; \<open>svc req\<close> is the call of the inner service
  with an \<open>app_error\<close> error. A retried call clones the request and waits for readiness before
  every attempt but the first, for which the caller has done so.
\<close>

definition circuit_breaker_service_call ::
    "cb_config \<Rightarrow> ('w \<Rightarrow> instant) \<Rightarrow> ('req \<Rightarrow> ('w, 'a app_result) operation) \<Rightarrow> 'req \<Rightarrow>
     cb_inner \<times> 'w \<Rightarrow> (cb_inner \<times> 'w) \<times> 'a app_result" where
  "circuit_breaker_service_call config clk svc req st = drop_log (cb_execute config clk (svc req) st)"

definition bulkhead_service_call ::
    "bulkhead_config \<Rightarrow> (duration \<Rightarrow> nat \<times> 'w \<Rightarrow> (nat \<times> 'w) \<times> acquire_outcome) \<Rightarrow>
     ('req \<Rightarrow> ('w, 'a app_result) operation) \<Rightarrow> 'req \<Rightarrow> nat \<times> 'w \<Rightarrow> (nat \<times> 'w) \<times> 'a app_result" where
  "bulkhead_service_call config acquire svc req st = drop_log (bulkhead_execute config acquire (svc req) st)"

definition rate_limit_service_call ::
    "('g \<times> 'w \<Rightarrow> 'g \<times> bool) \<Rightarrow> ('req \<Rightarrow> ('w, 'a app_result) operation) \<Rightarrow> 'req \<Rightarrow>
     'g limiter \<times> 'w \<Rightarrow> ('g limiter \<times> 'w) \<times> 'a app_result" where
  "rate_limit_service_call governor_check svc req st = drop_log (limited_call governor_check (svc req) st)"

definition timeout_service_call ::
    "('w, 'a app_result) timeout_fn \<Rightarrow> duration \<Rightarrow> ('req \<Rightarrow> ('w, 'a app_result) operation) \<Rightarrow> 'req \<Rightarrow>
     ('w, 'a app_result) operation" where
  "timeout_service_call tmo limit svc req w =
     (case tmo limit (svc req) w of
        (w', Some r) \<Rightarrow> (w', r)
      | (w', None) \<Rightarrow> (w', Inl (timeout_error ''resilience timeout'')))"

text \<open>The world of the retried attempts carries whether the first, already ready service was used up.\<close>

definition retry_attempt ::
    "('w \<Rightarrow> 'w \<times> unit app_result) \<Rightarrow> ('req \<Rightarrow> ('w, 'a app_result) operation) \<Rightarrow> 'req \<Rightarrow>
     (bool \<times> 'w, 'a app_result) operation" where
  "retry_attempt ready svc req st =
     (case st of (first_used, w) \<Rightarrow>
       if \<not> first_used then (case svc req w of (w', r) \<Rightarrow> ((True, w'), r))
       else
         case ready w of
           (w1, Inl e) \<Rightarrow> ((True, w1), Inl e)
         | (w1, Inr _) \<Rightarrow> (case svc req w1 of (w', r) \<Rightarrow> ((True, w'), r)))"

definition retry_service_call ::
    "(bool \<times> 'w) time_env \<Rightarrow> (bool \<times> 'w, 'a app_result) timeout_fn \<Rightarrow> (nat \<Rightarrow> duration) \<Rightarrow> retry_policy \<Rightarrow>
     ('w \<Rightarrow> 'w \<times> unit app_result) \<Rightarrow> ('req \<Rightarrow> ('w, 'a app_result) operation) \<Rightarrow> 'req \<Rightarrow>
     ('w, 'a app_result) operation" where
  "retry_service_call env tmo delay_of policy ready svc req w =
     (case retry_execute env tmo delay_of policy (retry_attempt ready svc req) (False, w) of
        ((_, w'), _, r) \<Rightarrow> (w', map_err re_last_error r))"

section \<open>How often the operation runs\<close>

text \<open>
  The environment as the crates document it: timers, observers and waiting leave the call counter
  alone, each run of the operation raises it by at most \<open>k\<close>, and a call cut off by the deadline has made no
  more calls than the call in full.
\<close>

definition counting_policy_env ::
    "nat \<Rightarrow> ('w \<Rightarrow> nat) \<Rightarrow> ('g, 'w) policy_env \<Rightarrow> ('w, 'e + 'a) timeout_fn \<Rightarrow> ('w, 'e + 'a) operation \<Rightarrow> bool" where
  "counting_policy_env k m env tmo f \<longleftrightarrow>
     (\<forall>w. m (fst (f w)) \<le> m w + k) \<and>
     (\<forall>d w. m (sleep (pe_time env) d w) = m w) \<and>
     (\<forall>n e w. m (pe_on_retry env n e w) = m w) \<and>
     (\<forall>d st. m (snd (fst (pe_acquire env d st))) = m (snd st)) \<and>
     (\<forall>d g w. tmo d g w = (fst (g w), Some (snd (g w))) \<or>
        (snd (tmo d g w) = None \<and> m (fst (tmo d g w)) \<le> m (fst (g w))))"

definition calls_bound :: "retry_policy option \<Rightarrow> nat" where
  "calls_bound retry = (case retry of None \<Rightarrow> 1 | Some r \<Rightarrow> max_attempts r)"

lemma policy_retry_loop_calls:
  assumes env: "counting_policy_env k m env tmo f" and "attempts < max_attempts retry"
  shows "m (fst (policy_retry_loop env from into retry f attempts w)) \<le> m w + k * (max_attempts retry - attempts)"
  using assms(2)
proof (induction "max_attempts retry - attempts" arbitrary: attempts w rule: less_induct)
  case less
  obtain w1 r where fw: "f w = (w1, r)" by fastforce
  then have w1: "m w1 \<le> m w + k" using env unfolding counting_policy_env_def by (metis fst_conv)
  show ?case
  proof (cases "\<exists>err. r = Inl err \<and> attempts + 1 < max_attempts retry \<and> should_retry retry (into err)")
    case True
    then obtain err where err: "r = Inl err" "attempts + 1 < max_attempts retry"
      "should_retry retry (into err)" by blast
    let ?w2 = "if on_retry retry then pe_on_retry env ((attempts + 1) mod 2 ^ 32) (into err) w1 else w1"
    let ?w3 = "sleep (pe_time env) (pe_delay env retry (attempts + 1)) ?w2"
    have again: "policy_retry_loop env from into retry f attempts w =
        policy_retry_loop env from into retry f (attempts + 1) ?w3"
      using fw err by (subst policy_retry_loop.simps) (simp add: Let_def)
    have "m ?w3 = m w1" using env by (simp add: counting_policy_env_def)
    moreover have "m (fst (policy_retry_loop env from into retry f (attempts + 1) ?w3)) \<le> m ?w3 + k * (max_attempts retry - (attempts + 1))"
      by (rule less.hyps) (use err(2) in simp_all)
    ultimately have "m (fst (policy_retry_loop env from into retry f attempts w)) \<le> m w + (k + k * (max_attempts retry - (attempts + 1)))"
      unfolding again using w1 by linarith
    also have "k + k * (max_attempts retry - (attempts + 1)) = k * (max_attempts retry - attempts)"
      using err(2) by (metis Suc_diff_Suc Suc_eq_plus1 add_lessD1 mult_Suc_right)
    finally show ?thesis by simp
  next
    case False
    then have stop: "fst (policy_retry_loop env from into retry f attempts w) = w1"
      using fw by (subst policy_retry_loop.simps) (auto simp: Let_def split: sum.split)
    have "k * 1 \<le> k * (max_attempts retry - attempts)" using less.prems by (intro mult_le_mono) auto
    then show ?thesis unfolding stop using w1 by linarith
  qed
qed

lemma execute_retry_calls:
  assumes env: "counting_policy_env k m env tmo f"
  shows "m (fst (execute_retry env from into retry f w)) \<le> m w + k * calls_bound retry"
proof (cases retry)
  case None
  have "m (fst (f w)) \<le> m w + k" using env by (simp add: counting_policy_env_def)
  with None show ?thesis by (simp add: execute_retry_def calls_bound_def)
next
  case (Some r)
  show ?thesis
  proof (cases "retry_validate r")
    case (Inr u)
    then have "0 < max_attempts r" by (auto simp: retry_validate_def split: if_splits)
    from policy_retry_loop_calls [OF env this, of "from" into w] Inr Some show ?thesis
      by (simp add: execute_retry_def calls_bound_def)
  qed (simp add: execute_retry_def calls_bound_def Some)
qed

lemma execute_timeout_calls:
  assumes env: "counting_policy_env k m env tmo f"
  shows "m (fst (execute_timeout env tmo from into limit retry f w)) \<le> m w + k * calls_bound retry"
proof (cases limit)
  case (Some d)
  let ?g = "execute_retry env from into retry f"
  have "m (fst (tmo d ?g w)) \<le> m (fst (?g w))"
    using env unfolding counting_policy_env_def by (metis fst_conv order_refl)
  then have "m (fst (tmo d ?g w)) \<le> m w + k * calls_bound retry"
    using execute_retry_calls [OF env, of "from" into retry w] by simp
  with Some show ?thesis by (auto simp: execute_timeout_def split: prod.split option.split)
qed (simp add: execute_timeout_def execute_retry_calls [OF env])

lemma breaker_decide_world:
  "breaker_decide config clk st = Inl w1 \<Longrightarrow> w1 = snd st"
  "breaker_decide config clk st = Inr (st', e) \<Longrightarrow> snd st' = snd st"
  by (auto simp: breaker_decide_def split_beta split: if_splits)

lemma execute_circuit_breaker_calls:
  assumes env: "counting_policy_env k m env tmo f"
  shows "m (snd (fst (execute_circuit_breaker env tmo from into limit retry f st))) \<le> m (snd st) + k * calls_bound retry"
proof (cases "fst st")
  case None
  with execute_timeout_calls [OF env, of "from" into limit retry "snd st"] show ?thesis
    by (cases st) (auto simp: execute_circuit_breaker_def split: prod.split)
next
  case (Some cb)
  let ?g = "\<lambda>w. case execute_timeout env tmo from into limit retry f w of (w', r) \<Rightarrow> (w', map_err into r)"
  have g: "m (fst (?g w)) \<le> m w + k * calls_bound retry" for w
    using execute_timeout_calls [OF env, of "from" into limit retry w] by (simp add: split_beta)
  have "m (snd (fst (drop_log (cb_execute (fst cb) (clock (pe_time env)) ?g (snd cb, snd st))))) \<le>
      m (snd (snd cb, snd st)) + k * calls_bound retry"
    by (rule breaker_layer.call_raises) (auto simp: g dest: breaker_decide_world)
  with Some show ?thesis
    by (cases st) (auto simp: execute_circuit_breaker_def split_beta)
qed

lemma bulkhead_decide_world:
  assumes "\<And>d st. m (snd (fst (acquire d st))) = m (snd st)"
  shows "bulkhead_decide c acquire st = Inl w1 \<Longrightarrow> m w1 = m (snd st)"
    and "bulkhead_decide c acquire st = Inr (st', e) \<Longrightarrow> m (snd st') = m (snd st)"
  using assms [of "max_wait c" st] by (auto simp: bulkhead_decide_def split_beta split: option.splits)

lemma policy_execute_inner_calls:
  assumes env: "counting_policy_env k m env tmo f"
  shows "m (snd (fst (policy_execute_inner env tmo from into f (p, w)))) \<le> m w + k * calls_bound (p_retry p)"
proof (cases "p_bulkhead p")
  case None
  with execute_circuit_breaker_calls [OF env, of "from" into "p_timeout p" "p_retry p" "(p_breaker p, w)"]
  show ?thesis by (simp add: policy_execute_inner_def split_beta)
next
  case (Some cp)
  let ?g = "\<lambda>bw. case execute_circuit_breaker env tmo from into (p_timeout p) (p_retry p) f bw of
      (bw', r) \<Rightarrow> (bw', map_err into r)"
  let ?acq = "lift_acquire (pe_acquire env)"
  have g: "(m \<circ> snd) (fst (?g bw)) \<le> (m \<circ> snd) bw + k * calls_bound (p_retry p)" for bw
    using execute_circuit_breaker_calls [OF env, of "from" into "p_timeout p" "p_retry p" bw]
    by (simp add: split_beta)
  have "m (snd (fst (pe_acquire env d st))) = m (snd st)" for d st
    using env unfolding counting_policy_env_def by blast
  then have acq: "(m \<circ> snd) (snd (fst (?acq d st))) = (m \<circ> snd) (snd st)" for d st
    by (cases st) (auto simp: lift_acquire_def split_beta)
  have "(m \<circ> snd) (snd (fst (drop_log (bulkhead_execute (fst cp) ?acq ?g (snd cp, p_breaker p, w))))) \<le>
      (m \<circ> snd) (snd (snd cp, p_breaker p, w)) + k * calls_bound (p_retry p)"
  proof (rule bulkhead_layer.call_raises)
    note world = bulkhead_decide_world [of "m \<circ> snd" ?acq, OF acq]
    show "(m \<circ> snd) w1 \<le> (m \<circ> snd) (snd st)"
      if "bulkhead_decide (fst cp) ?acq st = Inl w1" for st w1
      using world(1) [OF that] by simp
    show "(m \<circ> snd) (snd st') \<le> (m \<circ> snd) (snd st)"
      if "bulkhead_decide (fst cp) ?acq st = Inr (st', e)" for st st' e
      using world(2) [OF that] by simp
  qed (rule g)
  with Some show ?thesis
    by (cases cp) (simp add: policy_execute_inner_def split_beta)
qed

lemma policy_execute_calls:
  assumes "counting_policy_env k m env tmo f"
  shows "m (snd (fst (policy_execute env tmo from into f (p, w)))) \<le>
           m w + k * calls_bound (p_retry p)"
proof -
  note calls = policy_execute_inner_calls [OF assms, of "from" into]
  show ?thesis
  proof (cases "p_limiter p")
    case None
    then show ?thesis using calls [of p w] by (simp add: policy_execute_def)
  next
    case (Some l)
    obtain l' told r where "limiter_check (pe_governor env) (l, w) = (l', told, r)"
      using prod_cases3 by blast
    with Some calls [of "p\<lparr>p_limiter := Some l'\<rparr>" w] show ?thesis
      by (cases r) (simp_all add: policy_execute_def)
  qed
qed

lemma policy_execute_retry [simp]: "p_retry (fst (fst (policy_execute env tmo from into f (p, w)))) = p_retry p"
  by (auto simp: policy_execute_def policy_execute_inner_def split_beta split: option.split sum.split)

section \<open>Properties of the composed policy\<close>

text \<open>A world of call count and clock, and an environment that grants everything, for the witnesses.\<close>

definition plain_env :: "(nat, nat \<times> nat) policy_env" where
  "plain_env =
     \<lparr>pe_time = counting_env, pe_delay = (\<lambda>_ _. 5), pe_on_retry = (\<lambda>_ _ w. w),
      pe_governor = (\<lambda>(g, _). (g - 1, 0 < g)),
      pe_acquire = (\<lambda>_ (permits, w). if permits = 0 then ((0, w), WaitElapsed) else ((permits - 1, w), Acquired))\<rparr>"

definition plain_tmo :: "(nat \<times> nat, app_error + nat) timeout_fn" where
  "plain_tmo d g w = (fst (g w), Some (snd (g w)))"

lemma plain_counting: "counting_policy_env 1 fst plain_env plain_tmo failing_op"
  by (auto simp: counting_policy_env_def plain_env_def plain_tmo_def counting_env_def failing_op_def split_beta)

text \<open>
  C11. A call through the policy runs the operation at most once without a retry policy and at most
  \<^verbatim>\<open>max_attempts\<close> times with one, whatever limiter, bulkhead, breaker and timeout do.
\<close>

theorem policy_bounds_calls:
  assumes "counting_policy_env 1 m env tmo f"
  shows "m (snd (fst (policy_execute env tmo from into f (p, w)))) \<le>
           m w + (case p_retry p of None \<Rightarrow> 1 | Some r \<Rightarrow> max_attempts r)"
  using policy_execute_calls [OF assms, of "from" into p w] by (simp add: calls_bound_def)

theorem policy_bounds_calls_witness:
  "fst (snd (fst (policy_execute plain_env plain_tmo id id failing_op
      (with_retry (with_max_attempts 3 retry_policy_default) policy_new, (0, 0))))) \<le> 3"
  using policy_bounds_calls [OF plain_counting, of id id
      "with_retry (with_max_attempts 3 retry_policy_default) policy_new" "(0, 0)"]
  by (simp add: with_retry_def policy_new_def with_max_attempts_def)

text \<open>
  The layers act in the documented order and a refusal never reaches the operation. When the limiter
  refuses, breaker, bulkhead and world are untouched. When an open breaker refuses a call the outer layers
  admit, the outcome is the same for every operation, and the error is the breaker's rejection.
\<close>

lemma policy_refusal_skips_operation:
  shows "(\<forall>l st' e. p_limiter p = Some l \<and> limiter_decide (pe_governor env) (l, w) = Inr (st', e) \<longrightarrow>
            policy_execute env tmo from into f (p, w) =
              ((p\<lparr>p_limiter := Some (fst st')\<rparr>, w), Inl (from e))) \<and>
         (\<forall>config cb st' e.
            p_limiter p = None \<and> p_bulkhead p = None \<and> p_breaker p = Some (config, cb) \<and>
            breaker_decide config (clock (pe_time env)) (cb, w) = Inr (st', e) \<longrightarrow>
            policy_execute env tmo from into f (p, w) =
              ((p\<lparr>p_breaker := Some (config, fst st')\<rparr>, w), Inl (from (cb_rejection config))))"
proof (intro conjI allI impI)
  fix l st' e
  assume a: "p_limiter p = Some l \<and> limiter_decide (pe_governor env) (l, w) = Inr (st', e)"
  obtain l' told r where c: "limiter_check (pe_governor env) (l, w) = (l', told, r)"
    using prod_cases3 by blast
  with a have "r = Inl e" "fst st' = l'" by (auto simp: limiter_decide_def split: sum.splits)
  with a c show "policy_execute env tmo from into f (p, w) =
      ((p\<lparr>p_limiter := Some (fst st')\<rparr>, w), Inl (from e))"
    by (simp add: policy_execute_def)
next
  fix config cb st' e
  assume a: "p_limiter p = None \<and> p_bulkhead p = None \<and> p_breaker p = Some (config, cb) \<and>
      breaker_decide config (clock (pe_time env)) (cb, w) = Inr (st', e)"
  then have r: "drop_log (cb_execute config (clock (pe_time env)) g (cb, w)) = (st', Inl e)" for g
    :: "'b \<Rightarrow> 'b \<times> (app_error + 'd)"
    using breaker_layer.reject by blast
  have "snd st' = w" "e = cb_rejection config"
    using a breaker_decide_world(2) by (fastforce simp: breaker_decide_def split_beta split: if_splits)+
  then show "policy_execute env tmo from into f (p, w) =
      ((p\<lparr>p_breaker := Some (config, fst st')\<rparr>, w), Inl (from (cb_rejection config)))"
    using a r by (cases st') (simp add: policy_execute_def policy_execute_inner_def execute_circuit_breaker_def)
qed

lemma policy_refusal_skips_operation_witness:
  "policy_execute plain_env plain_tmo id id failing_op
     (with_rate_limiter \<lparr>l_inner = 0, l_name = ''api'', l_on_limit = True\<rparr> policy_new, (0, 0)) =
   ((with_rate_limiter \<lparr>l_inner = 0, l_name = ''api'', l_on_limit = True\<rparr> policy_new, (0, 0)),
    Inl (with_detail ''rate_limiter'' (JString ''api'') rate_limited))"
proof -
  let ?l = "\<lparr>l_inner = 0, l_name = ''api'', l_on_limit = True\<rparr> :: nat limiter"
  have "p_limiter (with_rate_limiter ?l policy_new) = Some ?l"
    "limiter_decide (pe_governor plain_env) (?l, (0, 0)) =
       Inr ((?l, (0, 0)), with_detail ''rate_limiter'' (JString ''api'') rate_limited)"
    by (simp_all add: with_rate_limiter_def limiter_decide_def limiter_check_def plain_env_def)
  with policy_refusal_skips_operation
      [of "with_rate_limiter ?l policy_new" plain_env "(0, 0)" plain_tmo id id failing_op]
  show ?thesis by (fastforce simp: with_rate_limiter_def policy_new_def)
qed

lemma backoff_delay_elapsed:
  "backoff_delay powi_fn draw (with_max_elapsed_time d p) = backoff_delay powi_fn draw p"
proof
  fix attempt
  have "base_delay powi_fn (with_max_elapsed_time d p) attempt = base_delay powi_fn p attempt"
    by (cases "policy_backoff_kind p") (simp_all add: base_delay_def with_max_elapsed_time_def)
  then show "backoff_delay powi_fn draw (with_max_elapsed_time d p) attempt = backoff_delay powi_fn draw p attempt"
    unfolding backoff_delay_def Let_def by (simp add: with_max_elapsed_time_def cong: if_cong)
qed

lemma policy_retry_loop_elapsed:
  assumes "pe_delay env = backoff_delay powi_fn draw"
  shows "policy_retry_loop env from into (with_max_elapsed_time d retry) f attempts w =
           policy_retry_loop env from into retry f attempts w"
proof (induction "max_attempts retry - attempts" arbitrary: attempts w rule: less_induct)
  case less
  let ?retry = "with_max_elapsed_time d retry"
  have same: "max_attempts ?retry = max_attempts retry" "should_retry ?retry = should_retry retry"
      "on_retry ?retry = on_retry retry" "pe_delay env ?retry = pe_delay env retry"
    unfolding assms backoff_delay_elapsed
    by (simp_all add: with_max_elapsed_time_def should_retry_def fun_eq_iff)
  obtain w1 r where fw: "f w = (w1, r)" by fastforce
  show ?case
  proof (cases "\<exists>err. r = Inl err \<and> attempts + 1 < max_attempts retry \<and> should_retry retry (into err)")
    case True
    then show ?thesis
      using fw less by (auto simp: policy_retry_loop.simps [of _ _ _ _ _ attempts] Let_def same)
  next
    case False
    then show ?thesis
      using fw by (auto simp: policy_retry_loop.simps [of _ _ _ _ _ attempts] Let_def same split: sum.split)
  qed
qed

lemma execute_circuit_breaker_elapsed:
  assumes "pe_delay env = backoff_delay powi_fn draw"
  shows "execute_circuit_breaker env tmo from into limit (Some (with_max_elapsed_time d retry)) f =
           execute_circuit_breaker env tmo from into limit (Some retry) f"
proof -
  have "retry_validate (with_max_elapsed_time d retry) = retry_validate retry"
    by (simp add: retry_validate_def with_max_elapsed_time_def)
  then have retry: "execute_retry env from into (Some (with_max_elapsed_time d retry)) f =
      execute_retry env from into (Some retry) f"
    by (simp add: execute_retry_def fun_eq_iff policy_retry_loop_elapsed [OF assms] split: sum.split)
  have "execute_timeout env tmo from into limit (Some (with_max_elapsed_time d retry)) f =
      execute_timeout env tmo from into limit (Some retry) f"
    by (rule ext, cases limit) (simp_all add: execute_timeout_def retry)
  then show ?thesis by (intro ext) (auto simp: execute_circuit_breaker_def split: prod.split option.split)
qed

text \<open>
  The retry loop inside a policy ignores \<^verbatim>\<open>RetryPolicy::max_elapsed_time\<close>: replacing it by any
  other duration, zero included, changes neither the result of a call through the policy nor what
  the call does to the world.
\<close>

lemma policy_retry_ignores_elapsed_time:
  fixes p :: "'g policy" and d :: duration and retry :: retry_policy
  assumes "p_retry p = Some retry" and "pe_delay env = backoff_delay powi_fn draw"
  defines "q \<equiv> p\<lparr>p_retry := Some (with_max_elapsed_time d retry)\<rparr>"
  shows "snd (policy_execute env tmo from into f (q, w)) = snd (policy_execute env tmo from into f (p, w)) \<and>
         snd (fst (policy_execute env tmo from into f (q, w))) =
           snd (fst (policy_execute env tmo from into f (p, w)))"
proof -
  have inner: "snd (policy_execute_inner env tmo from into f (q\<lparr>p_limiter := l\<rparr>, w)) =
      snd (policy_execute_inner env tmo from into f (p\<lparr>p_limiter := l\<rparr>, w))"
    "snd (fst (policy_execute_inner env tmo from into f (q\<lparr>p_limiter := l\<rparr>, w))) =
      snd (fst (policy_execute_inner env tmo from into f (p\<lparr>p_limiter := l\<rparr>, w)))" for l
    using assms(1)
    by (auto simp: q_def policy_execute_inner_def execute_circuit_breaker_elapsed [OF assms(2)]
        split_beta split: option.split)
  have l: "p_limiter q = p_limiter p" by (simp add: q_def)
  show ?thesis
  proof (cases "p_limiter p")
    case None
    have "p\<lparr>p_limiter := None\<rparr> = p" "q\<lparr>p_limiter := None\<rparr> = q" using None l by (cases p, cases q, simp)+
    from inner [of None, unfolded this] show ?thesis using l None by (simp add: policy_execute_def)
  next
    case (Some lim)
    obtain l' told r where "limiter_check (pe_governor env) (lim, w) = (l', told, r)"
      using prod_cases3 by blast
    then show ?thesis using inner [of "Some l'"] l Some by (cases r) (simp_all add: policy_execute_def)
  qed
qed

lemma policy_retry_ignores_elapsed_time_witness:
  "fst (snd (fst (policy_execute (plain_env\<lparr>pe_delay := backoff_delay (\<lambda>_ _. Fin 1) (\<lambda>_. Fin 0)\<rparr>)
       plain_tmo id id failing_op
       (with_retry (with_max_elapsed_time 0 (with_jitter (Fin 0) (preset_policy Fast))) policy_new, (0, 0))))) = 2"
proof -
  let ?env = "plain_env\<lparr>pe_delay := backoff_delay (\<lambda>_ _. Fin 1) (\<lambda>_. Fin 0)\<rparr>"
  let ?retry = "with_jitter (Fin 0) (preset_policy Fast)"
  let ?p = "with_retry ?retry policy_new :: nat policy"
  have p: "p_retry ?p = Some ?retry" "pe_delay ?env = backoff_delay (\<lambda>_ _. Fin 1) (\<lambda>_. Fin 0)"
    by (simp_all add: with_retry_def)
  have q: "with_retry (with_max_elapsed_time 0 ?retry) policy_new =
      ?p\<lparr>p_retry := Some (with_max_elapsed_time 0 ?retry)\<rparr>"
    by (simp add: with_retry_def policy_new_def)
  have "fst (snd (fst (policy_execute ?env plain_tmo id id failing_op (?p, (0, 0))))) = 2"
    by (simp add: policy_execute_def policy_execute_inner_def execute_circuit_breaker_def
        execute_timeout_def execute_retry_def policy_retry_loop.simps failing_op_def with_retry_def
        policy_new_def retry_validate_def with_jitter_def with_max_elapsed_time_def
        with_constant_backoff_def with_max_attempts_def retry_policy_default_def f64_le_def
        should_retry_def service_unavailable_def plain_env_def counting_env_def Let_def)
  with policy_retry_ignores_elapsed_time [OF p, of plain_tmo id id failing_op 0 "(0, 0)"] q
  show ?thesis by simp
qed

end
