(* ===== verification/Dag.thy ===== *)
theory Dag
  imports Errors "HOL-Library.Multiset"
begin

text \<open>
  The graph part of \<^verbatim>\<open>core/rskit-dag/src/dag.rs\<close>: building a DAG node by node and edge by edge with
  cycle detection (\<open>add_node\<close>, \<open>add_edge\<close>, \<open>path_exists\<close>) and Kahn's topological sort. The
  execution engine is in \<open>Dag_Run\<close>. A node is identified by its string id; the node object \<open>'n\<close> is
  opaque here.
\<close>

section \<open>Data\<close>

datatype failure_policy = FailFast | ContinueAll | SkipDependents

datatype on_error = OnFail | OnSkip | OnContinue

fun default_on_error :: "failure_policy \<Rightarrow> on_error" where
  "default_on_error FailFast = OnFail"
| "default_on_error ContinueAll = OnContinue"
| "default_on_error SkipDependents = OnSkip"

record 'n dag =
  nodes :: "(string, 'n) hashmap"
  edges :: "(string, string list) hashmap"
  reverse_edges :: "(string, string list) hashmap"
  max_parallelism :: nat
  dag_failure_policy :: failure_policy
  node_on_error :: "(string, on_error) hashmap"

text \<open>\<open>avail\<close> is what \<^verbatim>\<open>std::thread::available_parallelism\<close> reports on the host.\<close>

definition default_parallelism :: "nat option \<Rightarrow> nat" where
  "default_parallelism avail = (case avail of None \<Rightarrow> 1 | Some n \<Rightarrow> n)"

definition dag_new :: "nat option \<Rightarrow> 'n dag" where
  "dag_new avail =
     \<lparr>nodes = [], edges = [], reverse_edges = [], max_parallelism = default_parallelism avail,
      dag_failure_policy = FailFast, node_on_error = []\<rparr>"

definition with_max_parallelism :: "nat \<Rightarrow> 'n dag \<Rightarrow> 'n dag" where
  "with_max_parallelism n d = d\<lparr>max_parallelism := max n 1\<rparr>"

definition with_failure_policy :: "failure_policy \<Rightarrow> 'n dag \<Rightarrow> 'n dag" where
  "with_failure_policy policy d = d\<lparr>dag_failure_policy := policy\<rparr>"

definition with_on_error :: "string \<Rightarrow> on_error \<Rightarrow> 'n dag \<Rightarrow> 'n dag" where
  "with_on_error node_id on_err d = d\<lparr>node_on_error := hm_insert node_id on_err (node_on_error d)\<rparr>"

definition effective_on_error :: "'n dag \<Rightarrow> string \<Rightarrow> on_error" where
  "effective_on_error d node_id =
     (case hm_get (node_on_error d) node_id of
        Some oe \<Rightarrow> oe
      | None \<Rightarrow> default_on_error (dag_failure_policy d))"

text \<open>The override keys are visited in map order; the first unknown one is reported.\<close>

definition validate_on_error_overrides :: "'n dag \<Rightarrow> unit app_result" where
  "validate_on_error_overrides d =
     (case find (\<lambda>(node_id, _). \<not> hm_contains (nodes d) node_id) (node_on_error d) of
        Some (node_id, _) \<Rightarrow>
          Inl (app_error_new InvalidInput
            (''DAG on-error override references unknown node '' @ quoted node_id))
      | None \<Rightarrow> Inr ())"

section \<open>Construction\<close>

definition add_node :: "string \<Rightarrow> 'n \<Rightarrow> 'n dag \<Rightarrow> 'n dag" where
  "add_node node_id node d =
     d\<lparr>nodes := hm_insert node_id node (nodes d),
       edges := hm_or_default node_id (edges d),
       reverse_edges := hm_or_default node_id (reverse_edges d)\<rparr>"

abbreviation children :: "'n dag \<Rightarrow> string \<Rightarrow> string list" where
  "children d v \<equiv> hm_get_list (edges d) v"

abbreviation parents :: "'n dag \<Rightarrow> string \<Rightarrow> string list" where
  "parents d v \<equiv> hm_get_list (reverse_edges d) v"

text \<open>
  The stack of \<^verbatim>\<open>path_exists\<close> is a list with its top first: \<^verbatim>\<open>stack.extend(children)\<close> leaves the
  last child on top.
\<close>

function path_loop ::
    "(string, string list) hashmap \<Rightarrow> string \<Rightarrow> string list \<Rightarrow> string set \<Rightarrow> bool" where
  "path_loop es target [] visited = False"
| "path_loop es target (node_id # stack) visited =
     (if node_id = target then True
      else if node_id \<in> visited then path_loop es target stack visited
      else path_loop es target (rev (hm_get_list es node_id) @ stack) (insert node_id visited))"
  by pat_completeness auto

text \<open>
  Each round either shortens the stack or visits a new key of the edge map; a node that is no key
  has no children.
\<close>

lemma visit_decreases:
  assumes "v \<notin> visited"
  shows "(card (hm_keys es - insert v visited) < card (hm_keys es - visited)) \<or>
         (card (hm_keys es - insert v visited) = card (hm_keys es - visited) \<and>
          hm_get_list es v = [])"
proof (cases "v \<in> hm_keys es")
  case True
  with assms have "hm_keys es - insert v visited \<subset> hm_keys es - visited" by auto
  then have "card (hm_keys es - insert v visited) < card (hm_keys es - visited)"
    by (intro psubset_card_mono) auto
  then show ?thesis ..
next
  case False
  then have "hm_keys es - insert v visited = hm_keys es - visited" by auto
  with False show ?thesis by simp
qed

termination path_loop
proof (relation "measures [\<lambda>(es, _, _, visited). card (hm_keys es - visited),
    \<lambda>(_, _, stack, _). length stack]", goal_cases)
  case (3 es target node_id stack visited)
  with visit_decreases [of node_id visited es] show ?case by auto
qed auto

definition path_exists :: "'n dag \<Rightarrow> string \<Rightarrow> string \<Rightarrow> bool" where
  "path_exists d from to = path_loop (edges d) to [from] {}"

definition add_edge :: "string \<Rightarrow> string \<Rightarrow> 'n dag \<Rightarrow> 'n dag app_result" where
  "add_edge from to d =
     (if \<not> hm_contains (nodes d) from then
        Inl (app_error_new InvalidInput (''DAG node '' @ quoted from @ '' not found''))
      else if \<not> hm_contains (nodes d) to then
        Inl (app_error_new InvalidInput (''DAG node '' @ quoted to @ '' not found''))
      else if path_exists d to from then
        Inl (app_error_new InvalidInput
          (''DAG edge '' @ quoted from @ '' -> '' @ quoted to @ '' would create a cycle''))
      else
        Inr (d\<lparr>edges := hm_insert from (children d from @ [to]) (edges d),
               reverse_edges := hm_insert to (parents d to @ [from]) (reverse_edges d)\<rparr>))"

section \<open>Topological sort\<close>

text \<open>
  In-degrees are machine integers: decrementing a zero is a panic, modelled by \<open>None\<close>. The queue
  starts with the zero entries of the in-degree map in its iteration order \<open>order\<close>.
\<close>

definition in_degree_init :: "'n dag \<Rightarrow> (string, nat) hashmap" where
  "in_degree_init d =
     fold (\<lambda>(node_id, deps) m. hm_insert node_id (length deps) m) (reverse_edges d)
       (fold (\<lambda>(i, _) m. if hm_contains m i then m else hm_insert i 0 m) (nodes d) [])"

fun relax ::
    "string list \<Rightarrow> (string, nat) hashmap \<Rightarrow> string list \<Rightarrow>
     ((string, nat) hashmap \<times> string list) option" where
  "relax [] m q = Some (m, q)"
| "relax (dep # deps) m q =
     (case hm_get m dep of
        None \<Rightarrow> relax deps m q
      | Some deg \<Rightarrow>
          if deg = 0 then None
          else relax deps (hm_insert dep (deg - 1) m) (if deg - 1 = 0 then q @ [dep] else q))"

lemma sum_hm_decrement:
  "hm_get m k = Some deg \<Longrightarrow> 0 < deg \<Longrightarrow>
     Suc (sum_list (map snd (hm_insert k (deg - 1) m))) = sum_list (map snd m)"
  by (induction m) (auto split: if_splits)

lemma relax_measure:
  "relax deps m q = Some (m', q') \<Longrightarrow>
     sum_list (map snd m') + length q' \<le> sum_list (map snd m) + length q"
proof (induction deps m q rule: relax.induct)
  case (2 dep deps m q)
  show ?case
  proof (cases "hm_get m dep")
    case None
    with 2 show ?thesis by simp
  next
    case (Some deg)
    with "2.prems" have "0 < deg" by (auto split: if_splits)
    with 2 Some sum_hm_decrement [OF Some] show ?thesis
      by (fastforce split: if_splits)
  qed
qed simp

function kahn ::
    "(string, string list) hashmap \<Rightarrow> (string, nat) hashmap \<Rightarrow> string list \<Rightarrow> string list \<Rightarrow>
     string list option" where
  "kahn es m [] out = Some out"
| "kahn es m (i # q) out =
     (case relax (hm_get_list es i) m q of
        None \<Rightarrow> None
      | Some (m', q') \<Rightarrow> kahn es m' q' (out @ [i]))"
  by pat_completeness auto
termination
  by (relation "measure (\<lambda>(_, m, q, _). sum_list (map snd m) + length q)")
     (auto dest: relax_measure)

definition topological_sort :: "string list \<Rightarrow> 'n dag \<Rightarrow> string list app_result option" where
  "topological_sort order d =
     (let m = in_degree_init d;
          queue = filter (\<lambda>i. hm_get m i = Some 0) order
      in case kahn (edges d) m queue [] of
           None \<Rightarrow> None
         | Some out \<Rightarrow>
             Some (if length out \<noteq> length (nodes d)
                   then Inl (app_error_new InvalidInput ''DAG contains a cycle'')
                   else Inr out))"

section \<open>Reachability\<close>

definition edge_rel :: "(string, string list) hashmap \<Rightarrow> (string \<times> string) set" where
  "edge_rel es = {(a, b). b \<in> set (hm_get_list es a)}"

abbreviation dag_rel :: "'n dag \<Rightarrow> (string \<times> string) set" where
  "dag_rel d \<equiv> edge_rel (edges d)"

lemma edge_rel_iff [simp]: "(a, b) \<in> edge_rel es \<longleftrightarrow> b \<in> set (hm_get_list es a)"
  by (simp add: edge_rel_def)

lemma finite_edge_rel [simp, intro]: "finite (edge_rel es)"
proof -
  have "edge_rel es \<subseteq> (\<Union>a\<in>hm_keys es. {a} \<times> set (hm_get_list es a))"
  proof
    fix e assume e: "e \<in> edge_rel es"
    obtain a b where [simp]: "e = (a, b)" by (cases e)
    from e have "a \<in> hm_keys es" by (cases "a \<in> hm_keys es") auto
    with e show "e \<in> (\<Union>a\<in>hm_keys es. {a} \<times> set (hm_get_list es a))" by auto
  qed
  then show ?thesis by (rule finite_subset) auto
qed

lemma path_loop_sound:
  "path_loop es target stack visited \<Longrightarrow> \<exists>s\<in>set stack. (s, target) \<in> (edge_rel es)\<^sup>*"
proof (induction es target stack visited rule: path_loop.induct)
  case (2 es target node_id stack visited)
  show ?case
  proof (cases "node_id = target \<or> node_id \<in> visited")
    case True
    with 2 show ?thesis by (auto split: if_splits)
  next
    case False
    with 2 obtain s where "s \<in> set (hm_get_list es node_id) \<union> set stack" "(s, target) \<in> (edge_rel es)\<^sup>*"
      by auto
    then show ?thesis
      by (auto intro: converse_rtrancl_into_rtrancl [of node_id s])
  qed
qed simp

text \<open>When the search fails, what it visited is closed under edges and misses the target.\<close>

lemma path_loop_complete:
  assumes "\<not> path_loop es target stack visited" and "target \<notin> visited"
    and "\<And>u v. u \<in> visited \<Longrightarrow> (u, v) \<in> edge_rel es \<Longrightarrow> v \<in> visited \<union> set stack"
  shows "\<exists>V. visited \<union> set stack \<subseteq> V \<and> target \<notin> V \<and> (\<forall>u\<in>V. \<forall>v. (u, v) \<in> edge_rel es \<longrightarrow> v \<in> V)"
  using assms
proof (induction es target stack visited rule: path_loop.induct)
  case (1 es target visited)
  then show ?case by (intro exI [of _ visited]) auto
next
  case (2 es target node_id stack visited)
  from "2.prems"(1) have ne: "node_id \<noteq> target" by auto
  show ?case
  proof (cases "node_id \<in> visited")
    case True
    have "\<exists>V. visited \<union> set stack \<subseteq> V \<and> target \<notin> V \<and>
        (\<forall>u\<in>V. \<forall>v. (u, v) \<in> edge_rel es \<longrightarrow> v \<in> V)"
    proof (rule "2.IH"(1) [OF ne True _ "2.prems"(2)])
      show "\<not> path_loop es target stack visited" using "2.prems"(1) ne True by simp
      show "v \<in> visited \<union> set stack" if "u \<in> visited" and "(u, v) \<in> edge_rel es" for u v
        using "2.prems"(3) [OF that] True by auto
    qed
    then obtain V where "visited \<union> set stack \<subseteq> V" "target \<notin> V"
        "\<forall>u\<in>V. \<forall>v. (u, v) \<in> edge_rel es \<longrightarrow> v \<in> V"
      by blast
    moreover from this(1) True have "visited \<union> set (node_id # stack) \<subseteq> V" by auto
    ultimately show ?thesis by blast
  next
    case False
    have "\<exists>V. insert node_id visited \<union> set (rev (hm_get_list es node_id) @ stack) \<subseteq> V \<and> target \<notin> V \<and>
        (\<forall>u\<in>V. \<forall>v. (u, v) \<in> edge_rel es \<longrightarrow> v \<in> V)"
    proof (rule "2.IH"(2) [OF ne False])
      show "\<not> path_loop es target (rev (hm_get_list es node_id) @ stack) (insert node_id visited)"
        using "2.prems"(1) ne False by simp
      show "target \<notin> insert node_id visited" using "2.prems"(2) ne by auto
      show "v \<in> insert node_id visited \<union> set (rev (hm_get_list es node_id) @ stack)"
        if "u \<in> insert node_id visited" and "(u, v) \<in> edge_rel es" for u v
        using that "2.prems"(3) [of u v] by auto
    qed
    then obtain V where "insert node_id visited \<union> set (rev (hm_get_list es node_id) @ stack) \<subseteq> V"
        "target \<notin> V" "\<forall>u\<in>V. \<forall>v. (u, v) \<in> edge_rel es \<longrightarrow> v \<in> V"
      by blast
    moreover from this(1) have "visited \<union> set (node_id # stack) \<subseteq> V" by auto
    ultimately show ?thesis by blast
  qed
qed

lemma path_exists_iff_rtrancl: "path_exists d from to \<longleftrightarrow> (from, to) \<in> (dag_rel d)\<^sup>*"
proof
  assume "path_exists d from to"
  then show "(from, to) \<in> (dag_rel d)\<^sup>*"
    using path_loop_sound [of "edges d" to "[from]" "{}"] by (simp add: path_exists_def)
next
  assume r: "(from, to) \<in> (dag_rel d)\<^sup>*"
  show "path_exists d from to"
  proof (rule ccontr)
    assume "\<not> path_exists d from to"
    then obtain V where "from \<in> V" "to \<notin> V" "\<forall>u\<in>V. \<forall>v. (u, v) \<in> dag_rel d \<longrightarrow> v \<in> V"
      using path_loop_complete [of "edges d" to "[from]" "{}"] by (auto simp: path_exists_def)
    with closed_contains_reachable [OF r] show False by blast
  qed
qed

section \<open>Well-formed graphs\<close>

definition dag_wf :: "'n dag \<Rightarrow> bool" where
  "dag_wf d \<longleftrightarrow>
     hm_wf (nodes d) \<and> hm_wf (edges d) \<and> hm_wf (reverse_edges d) \<and>
     hm_keys (edges d) = hm_keys (nodes d) \<and> hm_keys (reverse_edges d) = hm_keys (nodes d) \<and>
     (\<forall>a b. b \<in> set (children d a) \<longrightarrow> b \<in> hm_keys (nodes d)) \<and>
     (\<forall>a b. count_list (children d a) b = count_list (parents d b) a) \<and>
     acyclic (dag_rel d)"

lemma dag_wf_parents_iff: "dag_wf d \<Longrightarrow> a \<in> set (parents d b) \<longleftrightarrow> b \<in> set (children d a)"
  unfolding dag_wf_def by (metis count_list_0_iff)

lemma dag_wf_new: "dag_wf (dag_new avail)"
  by (auto simp: dag_wf_def dag_new_def acyclic_def edge_rel_def)

lemma dag_wf_add_node: "dag_wf d \<Longrightarrow> dag_wf (add_node i n d)"
  by (auto simp: dag_wf_def add_node_def edge_rel_def)

lemma dag_wf_settings:
  "dag_wf (with_max_parallelism n d) = dag_wf d"
  "dag_wf (with_failure_policy p d) = dag_wf d"
  "dag_wf (with_on_error i oe d) = dag_wf d"
  by (simp_all add: dag_wf_def with_max_parallelism_def with_failure_policy_def with_on_error_def)

lemma add_edge_InrD:
  assumes "add_edge from to d = Inr d'"
  shows "from \<in> hm_keys (nodes d)" "to \<in> hm_keys (nodes d)" "(to, from) \<notin> (dag_rel d)\<^sup>*"
    "d' = d\<lparr>edges := hm_insert from (children d from @ [to]) (edges d),
             reverse_edges := hm_insert to (parents d to @ [from]) (reverse_edges d)\<rparr>"
  using assms by (auto simp: add_edge_def path_exists_iff_rtrancl split: if_splits)

lemma dag_rel_add_edge: "add_edge from to d = Inr d' \<Longrightarrow> dag_rel d' = insert (from, to) (dag_rel d)"
  by (auto dest!: add_edge_InrD simp: edge_rel_def split: if_splits)

lemma dag_wf_add_edge:
  assumes "dag_wf d" and "add_edge from to d = Inr d'"
  shows "dag_wf d'"
proof -
  note e = add_edge_InrD [OF assms(2)]
  have "acyclic (dag_rel d')"
    using assms e(3) by (simp add: dag_rel_add_edge acyclic_insert dag_wf_def)
  then show ?thesis
    using assms(1) e(1,2) unfolding dag_wf_def e(4) by (auto simp: insert_absorb)
qed

section \<open>Correctness of the topological sort\<close>

lemma in_degree_zeroes:
  "hm_get (fold (\<lambda>(i, _) m. if i \<in> hm_keys m then m else hm_insert i 0 m) xs m) v =
     (if v \<in> hm_keys m then hm_get m v else if v \<in> hm_keys xs then Some (0 :: nat) else None)"
proof (induction xs arbitrary: m)
  case (Cons x xs)
  then show ?case by (cases x) (auto simp: hm_get_None_iff)
qed (simp add: hm_get_None_iff)

lemma in_degree_lengths:
  "distinct (map fst xs) \<Longrightarrow>
     hm_get (fold (\<lambda>(i, deps) m. hm_insert i (length deps) m) xs m) v =
       (case hm_get xs v of Some deps \<Rightarrow> Some (length deps) | None \<Rightarrow> hm_get m v)"
proof (induction xs arbitrary: m)
  case (Cons x xs)
  obtain i deps where x: "x = (i, deps)" by (cases x)
  have "hm_get xs i = None" using Cons.prems x by (simp add: map_of_eq_None_iff)
  with Cons x show ?case by (cases "v = i") (auto split: option.split)
qed simp

lemma hm_get_in_degree_init:
  assumes "dag_wf d"
  shows "hm_get (in_degree_init d) v =
           (if v \<in> hm_keys (nodes d) then Some (length (parents d v)) else None)"
proof -
  have dist: "distinct (map fst (reverse_edges d))"
    and keys: "hm_keys (reverse_edges d) = hm_keys (nodes d)"
    using assms by (auto simp: dag_wf_def hm_wf_def)
  show ?thesis
  proof (cases "v \<in> hm_keys (nodes d)")
    case True
    with keys obtain deps where "hm_get (reverse_edges d) v = Some deps"
      by (metis hm_get_None_iff option.exhaust)
    with True dist show ?thesis
      by (simp add: in_degree_init_def in_degree_lengths hm_get_list_def)
  next
    case False
    with keys have "hm_get (reverse_edges d) v = None" by (simp add: hm_get_None_iff)
    with False dist show ?thesis
      by (simp add: in_degree_init_def in_degree_lengths in_degree_zeroes)
  qed
qed

lemma filter_insert_count:
  "x \<notin> S \<Longrightarrow>
     length (filter (\<lambda>p. p \<notin> S) xs) = length (filter (\<lambda>p. p \<notin> insert x S) xs) + count_list xs x"
  by (induction xs) auto

text \<open>
  One round of the loop: if every degree is \<open>R v\<close> plus the occurrences of \<open>v\<close> still to be
  processed, relaxing reaches the degrees \<open>R\<close> and enqueues each node that got to zero once.
\<close>

lemma relax_correct:
  assumes "\<And>v. v \<in> N \<Longrightarrow> hm_get m v = Some (R v + count_list deps v)" and "set deps \<subseteq> N"
  shows "\<exists>m' new. relax deps m q = Some (m', q @ new) \<and> (\<forall>v\<in>N. hm_get m' v = Some (R v)) \<and>
           distinct new \<and> set new = {v \<in> set deps. R v = 0}"
  using assms
proof (induction deps arbitrary: m q)
  case (Cons dep deps)
  let ?deg = "R dep + count_list (dep # deps) dep"
  let ?m = "hm_insert dep (?deg - 1) m"
  let ?hit = "if ?deg - 1 = 0 then [dep] else []"
  have "hm_get ?m v = Some (R v + count_list deps v)" if "v \<in> N" for v
    using that Cons.prems(1) [OF that] by auto
  moreover have "set deps \<subseteq> N" using Cons.prems(2) by auto
  ultimately have "\<exists>m' new. relax deps ?m (q @ ?hit) = Some (m', (q @ ?hit) @ new) \<and>
      (\<forall>v\<in>N. hm_get m' v = Some (R v)) \<and> distinct new \<and> set new = {v \<in> set deps. R v = 0}"
    by (rule Cons.IH)
  then obtain m' new where
    new: "relax deps ?m (q @ ?hit) = Some (m', (q @ ?hit) @ new)"
      "\<forall>v\<in>N. hm_get m' v = Some (R v)" "distinct new" "set new = {v \<in> set deps. R v = 0}"
    by blast
  have "relax (dep # deps) m q = Some (m', q @ (?hit @ new))"
    using new(1) Cons.prems by (cases "R dep + count_list deps dep = 0") auto
  moreover have "distinct (?hit @ new)" and "set (?hit @ new) = {v \<in> set (dep # deps). R v = 0}"
    using new(3,4) by (auto simp: count_list_0_iff)
  ultimately show ?case using new(2) by blast
qed simp

definition kahn_inv :: "'n dag \<Rightarrow> (string, nat) hashmap \<Rightarrow> string list \<Rightarrow> string list \<Rightarrow> bool" where
  "kahn_inv d m q out \<longleftrightarrow>
     distinct (out @ q) \<and> set (out @ q) \<subseteq> hm_keys (nodes d) \<and>
     (\<forall>v\<in>hm_keys (nodes d).
        hm_get m v = Some (length (filter (\<lambda>p. p \<notin> set out) (parents d v))) \<and>
        (v \<in> set (out @ q) \<longleftrightarrow> set (parents d v) \<subseteq> set out)) \<and>
     (\<forall>i<length out. set (parents d (out ! i)) \<subseteq> set (take i out))"

lemma kahn_inv_init:
  assumes "dag_wf d" and "set order = hm_keys (nodes d)" and "distinct order"
  shows "kahn_inv d (in_degree_init d)
           (filter (\<lambda>i. hm_get (in_degree_init d) i = Some 0) order) []"
  using assms by (auto simp: kahn_inv_def hm_get_in_degree_init)

lemma kahn_inv_round:
  assumes wf: "dag_wf d" and inv: "kahn_inv d m (i # q) out"
  shows "\<exists>m' q'. relax (children d i) m q = Some (m', q') \<and> kahn_inv d m' q' (out @ [i])"
proof -
  let ?N = "hm_keys (nodes d)"
  let ?R = "\<lambda>v. length (filter (\<lambda>p. p \<notin> insert i (set out)) (parents d v))"
  have i: "i \<in> ?N" "i \<notin> set out" and dist: "distinct (out @ i # q)"
    using inv by (auto simp: kahn_inv_def)
  have "hm_get m v = Some (?R v + count_list (children d i) v)" if "v \<in> ?N" for v
    using that inv wf filter_insert_count [OF i(2), of "parents d v"]
    by (auto simp: kahn_inv_def dag_wf_def)
  moreover have "set (children d i) \<subseteq> ?N" using wf by (auto simp: dag_wf_def)
  ultimately obtain m' new where new: "relax (children d i) m q = Some (m', q @ new)"
      "\<forall>v\<in>?N. hm_get m' v = Some (?R v)" "distinct new"
      "set new = {v \<in> set (children d i). ?R v = 0}"
    using relax_correct [of ?N m ?R "children d i" q] by blast
  have R0: "?R v = 0 \<longleftrightarrow> set (parents d v) \<subseteq> insert i (set out)" for v
    by (auto simp: filter_empty_conv)
  have pc: "v \<in> set (children d i) \<longleftrightarrow> i \<in> set (parents d v)" for v
    using dag_wf_parents_iff [OF wf] by blast
  have old: "v \<in> set (out @ i # q) \<longleftrightarrow> set (parents d v) \<subseteq> set out" if "v \<in> ?N" for v
    using inv that by (auto simp: kahn_inv_def)
  have sub: "set (children d i) \<subseteq> ?N" using wf by (auto simp: dag_wf_def)
  have disj: "set new \<inter> set (out @ i # q) = {}"
    using new(4) old sub pc i(2) by blast
  have mem: "v \<in> set (out @ [i] @ q @ new) \<longleftrightarrow> set (parents d v) \<subseteq> set (out @ [i])" if "v \<in> ?N" for v
    using old [OF that] new(4) R0 pc by auto
  have ord: "set (parents d ((out @ [i]) ! k)) \<subseteq> set (take k (out @ [i]))" if "k < length (out @ [i])" for k
    using that inv old [OF i(1)] by (cases "k < length out") (auto simp: kahn_inv_def nth_append less_Suc_eq)
  have "kahn_inv d m' (q @ new) (out @ [i])"
    unfolding kahn_inv_def using dist new(2,3) disj sub new(4) inv mem ord
    by (auto simp: kahn_inv_def)
  with new(1) show ?thesis by blast
qed

lemma kahn_correct:
  assumes "dag_wf d" and "kahn_inv d m q out"
  shows "\<exists>m' out'. kahn (edges d) m q out = Some out' \<and> kahn_inv d m' [] out'"
  using assms(2)
proof (induction "edges d" m q out rule: kahn.induct)
  case (1 m out)
  then show ?case by auto
next
  case (2 m i q out)
  from kahn_inv_round [OF assms(1) "2.prems"] obtain m' q' where
    "relax (children d i) m q = Some (m', q')" "kahn_inv d m' q' (out @ [i])" by blast
  with "2.hyps" show ?case by auto
qed

text \<open>When the queue is empty, acyclicity leaves no node behind.\<close>

lemma kahn_inv_done:
  assumes wf: "dag_wf d" and inv: "kahn_inv d m [] out"
  shows "set out = hm_keys (nodes d)"
proof (rule ccontr)
  assume "set out \<noteq> hm_keys (nodes d)"
  then obtain x where "x \<in> hm_keys (nodes d) - set out" using inv by (auto simp: kahn_inv_def)
  then obtain z where z: "z \<in> hm_keys (nodes d) - set out"
      "\<And>y. (y, z) \<in> dag_rel d \<Longrightarrow> y \<notin> hm_keys (nodes d) - set out"
    using acyclic_minimal [of "dag_rel d" x "hm_keys (nodes d) - set out"] wf
    by (auto simp: dag_wf_def)
  have "y \<in> set out" if "y \<in> set (parents d z)" for y
  proof -
    from that dag_wf_parents_iff [OF wf] have "(y, z) \<in> dag_rel d" by simp
    moreover from this have "y \<in> hm_keys (nodes d)"
      using wf by (cases "y \<in> hm_keys (edges d)") (auto simp: dag_wf_def)
    ultimately show ?thesis using z(2) by blast
  qed
  with inv z(1) show False by (auto simp: kahn_inv_def)
qed

lemma kahn_inv_length:
  assumes "dag_wf d" and "kahn_inv d m [] out"
  shows "length out = length (nodes d)"
proof -
  have "length out = card (hm_keys (nodes d))"
    using assms kahn_inv_done [OF assms] by (metis append_Nil2 distinct_card kahn_inv_def)
  also have "\<dots> = length (nodes d)"
    using assms(1) by (simp add: dag_wf_def hm_wf_def hm_keys_def distinct_card flip: set_map)
  finally show ?thesis .
qed

section \<open>Properties of the graph\<close>

text \<open>The diamond \<open>a \<rightarrow> b, c \<rightarrow> d\<close>, for the witnesses.\<close>

definition sample_dag :: "unit dag" where
  "sample_dag =
     fold (\<lambda>(u, v) g. case add_edge u v g of Inl _ \<Rightarrow> g | Inr g' \<Rightarrow> g')
       [(''a'', ''b''), (''a'', ''c''), (''b'', ''d''), (''c'', ''d'')]
       (fold (\<lambda>i. add_node i ()) [''a'', ''b'', ''c'', ''d''] (dag_new (Some 4)))"

lemma sample_dag_nodes: "hm_keys (nodes sample_dag) = {''a'', ''b'', ''c'', ''d''}"
  by code_simp

lemma sample_dag_wf: "dag_wf sample_dag"
proof -
  have "dag_wf (fold (\<lambda>(u, v) g. case add_edge u v g of Inl _ \<Rightarrow> g | Inr g' \<Rightarrow> g') es g)"
    if "dag_wf g" for es and g :: "unit dag"
    using that
    by (induction es arbitrary: g) (auto simp: dag_wf_add_edge split: sum.split)
  moreover have "dag_wf (fold (\<lambda>i. add_node i ()) is g)" if "dag_wf g" for "is" g
    using that by (induction "is" arbitrary: g) (auto simp: dag_wf_add_node)
  ultimately show ?thesis
    unfolding sample_dag_def using dag_wf_new by blast
qed

text \<open>
  The iterative depth-first search \<^verbatim>\<open>path_exists\<close> decides reachability along the edges: it
  answers true exactly when there is a path, of length zero included, whatever the graph, cyclic
  and dangling edges included, and it always ends.
\<close>

lemma path_exists_decides_reachability: "path_exists d from to \<longleftrightarrow> (from, to) \<in> (dag_rel d)\<^sup>*"
  by (rule path_exists_iff_rtrancl)

text \<open>
  C4. On a well-formed graph \<^verbatim>\<open>add_edge\<close> accepts an edge exactly when both ends are nodes and the
  edge closes no cycle; the graph it returns is well formed again (the two adjacency maps mirror each
  other, no dangling end, no cycle) and has exactly one more edge. Every refusal is an
  \<^verbatim>\<open>InvalidInput\<close> error.
\<close>

theorem add_edge_keeps_dag:
  assumes "dag_wf d"
  shows "(is_ok (add_edge from to d) \<longleftrightarrow>
            from \<in> hm_keys (nodes d) \<and> to \<in> hm_keys (nodes d) \<and> acyclic (insert (from, to) (dag_rel d))) \<and>
         (\<forall>d'. add_edge from to d = Inr d' \<longrightarrow>
            dag_wf d' \<and> dag_rel d' = insert (from, to) (dag_rel d) \<and> nodes d' = nodes d) \<and>
         (\<forall>e. add_edge from to d = Inl e \<longrightarrow> err_code e = InvalidInput)"
proof -
  have "acyclic (dag_rel d)" using assms by (simp add: dag_wf_def)
  then have "is_ok (add_edge from to d) \<longleftrightarrow>
      from \<in> hm_keys (nodes d) \<and> to \<in> hm_keys (nodes d) \<and> acyclic (insert (from, to) (dag_rel d))"
    by (auto simp: add_edge_def path_exists_iff_rtrancl acyclic_insert)
  moreover have "nodes d' = nodes d" if "add_edge from to d = Inr d'" for d'
    using add_edge_InrD(4) [OF that] by simp
  moreover have "err_code e = InvalidInput" if "add_edge from to d = Inl e" for e
    using that by (auto simp: add_edge_def app_error_new_def split: if_splits)
  ultimately show ?thesis
    using dag_wf_add_edge [OF assms] dag_rel_add_edge by blast
qed

theorem add_edge_keeps_dag_witness:
  "\<not> is_ok (add_edge ''d'' ''a'' sample_dag) \<and> \<not> acyclic (insert (''d'', ''a'') (dag_rel sample_dag))"
proof -
  have "\<not> is_ok (add_edge ''d'' ''a'' sample_dag)" by code_simp
  then show ?thesis
    using add_edge_keeps_dag [OF sample_dag_wf, of "''d''" "''a''"] sample_dag_nodes by simp
qed

text \<open>
  C5. \<^verbatim>\<open>topological_sort\<close> on a graph built by the public operations never underflows an in-degree
  and never reports a cycle: whatever the iteration order of the map, it returns every node exactly
  once, each after all the nodes with an edge to it.
\<close>

theorem topological_sort_correct:
  assumes "dag_wf d" and "distinct order" and "set order = hm_keys (nodes d)"
  shows "\<exists>out. topological_sort order d = Some (Inr out) \<and> distinct out \<and>
           set out = hm_keys (nodes d) \<and>
           (\<forall>i<length out. \<forall>u. (u, out ! i) \<in> dag_rel d \<longrightarrow> u \<in> set (take i out))"
proof -
  obtain m out where out:
    "kahn (edges d) (in_degree_init d)
       (filter (\<lambda>i. hm_get (in_degree_init d) i = Some 0) order) [] = Some out"
    "kahn_inv d m [] out"
    using kahn_correct [OF assms(1) kahn_inv_init [OF assms(1,3,2)]] by blast
  have "topological_sort order d = Some (Inr out)"
    using out(1) kahn_inv_length [OF assms(1) out(2)] by (simp add: topological_sort_def Let_def)
  moreover have "u \<in> set (take i out)" if "i < length out" "(u, out ! i) \<in> dag_rel d" for i u
    using that out(2) dag_wf_parents_iff [OF assms(1)] unfolding kahn_inv_def by fastforce
  ultimately show ?thesis
    using kahn_inv_done [OF assms(1) out(2)] out(2) by (auto simp: kahn_inv_def)
qed

theorem topological_sort_correct_witness:
  "\<exists>out. topological_sort [''d'', ''b'', ''a'', ''c''] sample_dag = Some (Inr out) \<and>
     (\<forall>i<length out. \<forall>u. (u, out ! i) \<in> dag_rel sample_dag \<longrightarrow> u \<in> set (take i out))"
  using topological_sort_correct [OF sample_dag_wf, of "[''d'', ''b'', ''a'', ''c'']"]
    sample_dag_nodes by auto

end
