(* ===== verification/Dag_Run.thy ===== *)
theory Dag_Run
  imports Dag
begin

text \<open>
  The execution engine of \<^verbatim>\<open>core/rskit-dag/src/dag.rs\<close> and the result types of
  \<^verbatim>\<open>core/rskit-dag/src/result.rs\<close>. The scheduler state is the record \<open>execution_run\<close>; one round of the
  scheduler (\<open>record_execution\<close>, with \<open>schedule_dependents\<close>, \<open>collect_inputs\<close>, \<open>spawn_node\<close> and
  \<open>mark_skipped_dependents\<close>) is a function on it. What the runtime does between two rounds (granting
  semaphore permits, running nodes, dropping aborted tasks) is a sequence of events, so that a run
  is a list of events in any order the runtime may choose.
\<close>

section \<open>Results\<close>

datatype node_status = Completed | Failed | Skipped | Canceled | TimedOut

record node_result =
  nr_name :: string
  nr_status :: node_status
  nr_duration_ms :: nat
  nr_output :: "json option"
  nr_error :: "string option"

record dag_result =
  dr_nodes :: "(string, node_result) hashmap"
  dr_duration_ms :: nat

definition dr_status :: "dag_result \<Rightarrow> string \<Rightarrow> node_status option" where
  "dr_status r node_id = map_option nr_status (hm_get (dr_nodes r) node_id)"

definition dr_outputs :: "dag_result \<Rightarrow> (string, json) hashmap" where
  "dr_outputs r =
     List.map_filter (\<lambda>(i, result). map_option (\<lambda>out. (i, out)) (nr_output result))
       (filter (\<lambda>(_, result). nr_status result = Completed) (dr_nodes r))"

definition is_success :: "dag_result \<Rightarrow> bool" where
  "is_success r = (\<forall>(_, result) \<in> set (dr_nodes r). nr_status result = Completed)"

fun status_from_code :: "error_code \<Rightarrow> node_status" where
  "status_from_code Timeout = TimedOut"
| "status_from_code Cancelled = Canceled"
| "status_from_code _ = Failed"

definition status_from_error :: "app_error \<Rightarrow> node_status" where
  "status_from_error e = status_from_code (err_code e)"

text \<open>Durations are in nanoseconds; the count of milliseconds saturates at \<^verbatim>\<open>u64::MAX\<close>.\<close>

definition duration_millis :: "nat \<Rightarrow> nat" where
  "duration_millis ns = min (ns div 1000000) (2 ^ 64 - 1)"

section \<open>Scheduler state\<close>

type_synonym inputs = "(string, json) hashmap"

text \<open>
  The life of a spawned task: it waits for a permit, runs the node, and then holds what the join
  will return. \<open>t_aborted\<close> is set by \<^verbatim>\<open>JoinSet::abort_all\<close> on the tasks alive at that moment.
\<close>

datatype task_phase =
    Waiting
  | Running
  | Finished "json app_result" nat
  | Dropped
  | Panicked string

record task =
  t_id :: string
  t_inputs :: inputs
  t_phase :: task_phase
  t_aborted :: bool

record execution_run =
  initial_inputs :: inputs
  outputs :: "(string, json) hashmap"
  cancelled :: bool
  join_set :: "task list"
  remaining_in_degree :: "(string, nat) hashmap"
  pending :: "string list"
  completed :: "string list"
  failed :: "string list"
  skipped :: "string list"
  node_results :: "(string, node_result) hashmap"
  first_error :: "app_error option"
  aborted :: bool

text \<open>\<^verbatim>\<open>HashSet::insert\<close> and \<^verbatim>\<open>HashSet::remove\<close>.\<close>

abbreviation hs_insert :: "string \<Rightarrow> string list \<Rightarrow> string list" where
  "hs_insert \<equiv> List.insert"

abbreviation hs_remove :: "string \<Rightarrow> string list \<Rightarrow> string list" where
  "hs_remove \<equiv> removeAll"

section \<open>Operations of the scheduler\<close>

definition spawn_node :: "'n dag \<Rightarrow> string \<Rightarrow> inputs \<Rightarrow> execution_run \<Rightarrow> execution_run app_result" where
  "spawn_node d node_id ins run =
     (if \<not> hm_contains (nodes d) node_id then
        Inl (app_error_new Internal (''DAG node '' @ quoted node_id @ '' not found in node map''))
      else
        Inr (run\<lparr>pending := hs_insert node_id (pending run),
                 join_set := join_set run @
                   [\<lparr>t_id = node_id, t_inputs = ins, t_phase = Waiting, t_aborted = False\<rparr>]\<rparr>))"

definition collect_inputs ::
    "'n dag \<Rightarrow> string \<Rightarrow> (string, json) hashmap \<Rightarrow> string list \<Rightarrow> inputs \<Rightarrow> inputs" where
  "collect_inputs d node_id outs fails initial =
     (let reverse = parents d node_id in
      if reverse = [] then initial
      else fold (\<lambda>(k, v). hm_insert k v)
             (List.map_filter (\<lambda>dependency. map_option (\<lambda>v. (dependency, v)) (hm_get outs dependency))
               (filter (\<lambda>dependency. dependency \<notin> set fails) reverse))
             [])"

fun schedule_loop :: "'n dag \<Rightarrow> string list \<Rightarrow> execution_run \<Rightarrow> execution_run app_result" where
  "schedule_loop d [] run = Inr run"
| "schedule_loop d (dep # deps) run =
     (if dep \<in> set (completed run) \<or> dep \<in> set (pending run) \<or> dep \<in> set (skipped run) then
        schedule_loop d deps run
      else
        case hm_get (remaining_in_degree run) dep of
          None \<Rightarrow> schedule_loop d deps run
        | Some 0 \<Rightarrow>
            Inl (app_error_new Internal (''DAG in-degree underflow for node '' @ quoted dep))
        | Some (Suc next_deg) \<Rightarrow>
            let run1 = run\<lparr>remaining_in_degree :=
                             hm_insert dep next_deg (remaining_in_degree run)\<rparr> in
            if next_deg = 0 then
              try_result
                (spawn_node d dep
                  (collect_inputs d dep (outputs run1) (failed run1) (initial_inputs run1)) run1)
                (\<lambda>run2. schedule_loop d deps run2)
            else schedule_loop d deps run1)"

definition schedule_dependents :: "'n dag \<Rightarrow> string \<Rightarrow> execution_run \<Rightarrow> execution_run app_result" where
  "schedule_dependents d finished_id run = schedule_loop d (children d finished_id) run"

text \<open>The stack has its top first, as in \<open>path_loop\<close>.\<close>

function mark_loop ::
    "(string, string list) hashmap \<Rightarrow> string list \<Rightarrow> string list \<Rightarrow> string list \<Rightarrow> string list" where
  "mark_loop es pend [] skip = skip"
| "mark_loop es pend (node_id # stack) skip =
     (if node_id \<in> set pend \<or> node_id \<in> set skip then mark_loop es pend stack skip
      else mark_loop es pend (rev (hm_get_list es node_id) @ stack) (hs_insert node_id skip))"
  by pat_completeness auto
termination
proof (relation "measures [\<lambda>(es, _, _, skip). card (hm_keys es - set skip),
    \<lambda>(_, _, stack, _). length stack]", goal_cases)
  case (3 es pend node_id stack skip)
  then have "node_id \<notin> set skip" by simp
  from visit_decreases [OF this, of es] show ?case by auto
qed auto

definition mark_skipped_dependents ::
    "(string, string list) hashmap \<Rightarrow> string \<Rightarrow> string list \<Rightarrow> string list \<Rightarrow> string list" where
  "mark_skipped_dependents es failed_id skip pend = mark_loop es pend (rev (hm_get_list es failed_id)) skip"

definition record_execution ::
    "'n dag \<Rightarrow> string \<Rightarrow> json app_result \<Rightarrow> nat \<Rightarrow> execution_run \<Rightarrow> execution_run app_result" where
  "record_execution d node_id result dur run0 =
     (let run = run0\<lparr>pending := hs_remove node_id (pending run0)\<rparr>;
          ms = duration_millis dur
      in case result of
        Inr v \<Rightarrow>
          schedule_dependents d node_id
            (run\<lparr>node_results := hm_insert node_id
                   \<lparr>nr_name = node_id, nr_status = Completed, nr_duration_ms = ms, nr_output = Some v,
                    nr_error = None\<rparr> (node_results run),
                 outputs := hm_insert node_id v (outputs run),
                 completed := hs_insert node_id (completed run)\<rparr>)
      | Inl e \<Rightarrow>
          let run1 = run\<lparr>node_results := hm_insert node_id
                     \<lparr>nr_name = node_id, nr_status = status_from_error e, nr_duration_ms = ms, nr_output = None,
                      nr_error = Some (app_error_display e)\<rparr> (node_results run),
                   failed := hs_insert node_id (failed run),
                   completed := hs_insert node_id (completed run)\<rparr>
          in case effective_on_error d node_id of
               OnFail \<Rightarrow>
                 Inr (run1\<lparr>first_error :=
                             (case first_error run1 of None \<Rightarrow> Some e | Some e0 \<Rightarrow> Some e0),
                           aborted := True,
                           cancelled := True,
                           join_set := map (\<lambda>t. t\<lparr>t_aborted := True\<rparr>) (join_set run1)\<rparr>)
             | OnContinue \<Rightarrow> schedule_dependents d node_id run1
             | OnSkip \<Rightarrow>
                 Inr (run1\<lparr>skipped :=
                   mark_skipped_dependents (edges d) node_id (skipped run1) (pending run1)\<rparr>))"

text \<open>The nodes without a result are cancelled when the run was aborted and skipped otherwise.\<close>

definition build_node :: "execution_run \<Rightarrow> string \<Rightarrow> node_result" where
  "build_node run i =
     (case hm_get (node_results run) i of
        Some result \<Rightarrow> result
      | None \<Rightarrow>
          \<lparr>nr_name = i,
           nr_status = (if aborted run \<and> i \<notin> set (skipped run) then Canceled else Skipped),
           nr_duration_ms = 0, nr_output = None, nr_error = None\<rparr>)"

definition build_result :: "'n dag \<Rightarrow> nat \<Rightarrow> execution_run \<Rightarrow> dag_result" where
  "build_result d elapsed run =
     \<lparr>dr_nodes = map (\<lambda>(i, _). (i, build_node run i)) (nodes d),
      dr_duration_ms = duration_millis elapsed\<rparr>"

section \<open>A whole run\<close>

fun spawn_roots :: "'n dag \<Rightarrow> string list \<Rightarrow> execution_run \<Rightarrow> execution_run app_result" where
  "spawn_roots d [] run = Inr run"
| "spawn_roots d (i # is) run =
     try_result (spawn_node d i (initial_inputs run) run) (\<lambda>run'. spawn_roots d is run')"

definition initial_run :: "'n dag \<Rightarrow> bool \<Rightarrow> inputs \<Rightarrow> execution_run" where
  "initial_run d parent_cancelled ins =
     \<lparr>initial_inputs = ins, outputs = [], cancelled = parent_cancelled, join_set = [],
      remaining_in_degree = map (\<lambda>(i, _). (i, length (parents d i))) (nodes d),
      pending = [], completed = [], failed = [], skipped = [], node_results = [],
      first_error = None, aborted = False\<rparr>"

text \<open>
  \<^verbatim>\<open>run_engine\<close> up to its join loop. \<open>order\<close> and \<open>root_order\<close> are the iteration orders of the in-degree
  maps of \<^verbatim>\<open>topological_sort\<close> and of the run.
\<close>

definition run_engine_start ::
    "string list \<Rightarrow> string list \<Rightarrow> 'n dag \<Rightarrow> bool \<Rightarrow> inputs \<Rightarrow> execution_run app_result option" where
  "run_engine_start order root_order d parent_cancelled ins =
     (case topological_sort order d of
        None \<Rightarrow> None
      | Some r \<Rightarrow> Some
          (try_result r (\<lambda>_.
           try_result (validate_on_error_overrides d) (\<lambda>_.
             let run = initial_run d parent_cancelled ins
             in spawn_roots d
                  (filter (\<lambda>i. hm_get (remaining_in_degree run) i = Some 0) root_order) run))))"

text \<open>
  Events of the runtime and of the join loop. A task is named by its position in the join set.
  A permit is granted while fewer than \<^verbatim>\<open>max_parallelism\<close> tasks run. An aborted task may still finish
  or be dropped; a task that was not aborted is never dropped. \<open>Join\<close> is one round of the loop in
  \<^verbatim>\<open>run_engine\<close>, which returns early with the error of the round. The outcome of a node is chosen by
  the environment.
\<close>

datatype event =
    Acquire nat
  | NodeReturns nat "json app_result" nat
  | NodePanics nat string
  | DropTask nat
  | Join nat
  | CallerCancels

abbreviation set_phase :: "nat \<Rightarrow> task_phase \<Rightarrow> execution_run \<Rightarrow> execution_run" where
  "set_phase i p run \<equiv> run\<lparr>join_set := (join_set run)[i := (join_set run ! i)\<lparr>t_phase := p\<rparr>]\<rparr>"

definition running_count :: "execution_run \<Rightarrow> nat" where
  "running_count run = length (filter (\<lambda>t. t_phase t = Running) (join_set run))"

fun fire :: "'n dag \<Rightarrow> event \<Rightarrow> execution_run \<Rightarrow> execution_run app_result option" where
  "fire d (Acquire i) run =
     (if i < length (join_set run) \<and> t_phase (join_set run ! i) = Waiting \<and>
         running_count run < max_parallelism d
      then Some (Inr (set_phase i Running run)) else None)"
| "fire d (NodeReturns i result dur) run =
     (if i < length (join_set run) \<and> t_phase (join_set run ! i) = Running
      then Some (Inr (set_phase i (Finished result dur) run)) else None)"
| "fire d (NodePanics i msg) run =
     (if i < length (join_set run) \<and> t_phase (join_set run ! i) = Running
      then Some (Inr (set_phase i (Panicked msg) run)) else None)"
| "fire d (DropTask i) run =
     (if i < length (join_set run) \<and> t_aborted (join_set run ! i) \<and>
         (t_phase (join_set run ! i) = Waiting \<or> t_phase (join_set run ! i) = Running)
      then Some (Inr (set_phase i Dropped run)) else None)"
| "fire d (Join i) run =
     (if i < length (join_set run) then
        let t = join_set run ! i;
            run' = run\<lparr>join_set := take i (join_set run) @ drop (Suc i) (join_set run)\<rparr>
        in case t_phase t of
             Finished result dur \<Rightarrow> Some (record_execution d (t_id t) result dur run')
           | Dropped \<Rightarrow> Some (Inr run')
           | Panicked msg \<Rightarrow> Some (Inl (app_error_new Internal (''DAG task panicked: '' @ msg)))
           | Waiting \<Rightarrow> None
           | Running \<Rightarrow> None
      else None)"
| "fire d CallerCancels run =
     (if cancelled run then None else Some (Inr (run\<lparr>cancelled := True\<rparr>)))"

fun fire_all :: "'n dag \<Rightarrow> event list \<Rightarrow> execution_run \<Rightarrow> execution_run app_result option" where
  "fire_all d [] run = Some (Inr run)"
| "fire_all d (ev # evs) run =
     (case fire d ev run of
        None \<Rightarrow> None
      | Some (Inl e) \<Rightarrow> (if evs = [] then Some (Inl e) else None)
      | Some (Inr run') \<Rightarrow> fire_all d evs run')"

text \<open>
  The public entry points on a run whose events are \<open>evs\<close>: the loop ends when the join set is empty.
\<close>

definition run_engine ::
    "string list \<Rightarrow> string list \<Rightarrow> 'n dag \<Rightarrow> bool \<Rightarrow> inputs \<Rightarrow> event list \<Rightarrow>
     execution_run app_result option" where
  "run_engine order root_order d parent_cancelled ins evs =
     (case run_engine_start order root_order d parent_cancelled ins of
        None \<Rightarrow> None
      | Some (Inl e) \<Rightarrow> (if evs = [] then Some (Inl e) else None)
      | Some (Inr run) \<Rightarrow>
          (case fire_all d evs run of
             Some (Inr run') \<Rightarrow> (if join_set run' = [] then Some (Inr run') else None)
           | r \<Rightarrow> r))"

definition execute_with_inputs ::
    "string list \<Rightarrow> string list \<Rightarrow> 'n dag \<Rightarrow> inputs \<Rightarrow> bool \<Rightarrow> event list \<Rightarrow>
     (string, json) hashmap app_result option" where
  "execute_with_inputs order root_order d ins parent_cancelled evs =
     map_option (\<lambda>r. try_result r (\<lambda>run.
         case first_error run of
           Some e \<Rightarrow> if aborted run then Inl e else Inr (outputs run)
         | None \<Rightarrow> Inr (outputs run)))
       (run_engine order root_order d parent_cancelled ins evs)"

definition execute ::
    "string list \<Rightarrow> string list \<Rightarrow> 'n dag \<Rightarrow> bool \<Rightarrow> event list \<Rightarrow> (string, json) hashmap app_result option" where
  "execute order root_order d parent_cancelled evs =
     execute_with_inputs order root_order d [] parent_cancelled evs"

definition run_with_inputs ::
    "string list \<Rightarrow> string list \<Rightarrow> 'n dag \<Rightarrow> inputs \<Rightarrow> bool \<Rightarrow> event list \<Rightarrow> nat \<Rightarrow>
     dag_result app_result option" where
  "run_with_inputs order root_order d ins parent_cancelled evs elapsed =
     map_option (\<lambda>r. try_result r (\<lambda>run. Inr (build_result d elapsed run)))
       (run_engine order root_order d parent_cancelled ins evs)"

definition dag_run ::
    "string list \<Rightarrow> string list \<Rightarrow> 'n dag \<Rightarrow> bool \<Rightarrow> event list \<Rightarrow> nat \<Rightarrow> dag_result app_result option" where
  "dag_run order root_order d parent_cancelled evs elapsed =
     run_with_inputs order root_order d [] parent_cancelled evs elapsed"

section \<open>Typed nodes and the tool adapter\<close>

text \<open>
  \<^verbatim>\<open>TypedDagNode::execute\<close>: the three stages, with the typed operation and the encoder of its output
  (\<^verbatim>\<open>serde_json::to_value\<close>, failing with a message) as parameters.
\<close>

record ('i, 'o) typed_dag_node =
  tn_id :: string
  tn_map_inputs :: "inputs \<Rightarrow> 'i app_result"
  tn_execute :: "'i \<Rightarrow> bool \<Rightarrow> 'o app_result"

definition typed_node_execute ::
    "('o \<Rightarrow> string + json) \<Rightarrow> ('i, 'o) typed_dag_node \<Rightarrow> inputs \<Rightarrow> bool \<Rightarrow> json app_result" where
  "typed_node_execute to_value n ins cancel =
     try_result (tn_map_inputs n ins) (\<lambda>i.
     try_result (tn_execute n i cancel) (\<lambda>out.
       case to_value out of
         Inl err \<Rightarrow> Inl (app_error_new Internal (''failed to encode typed DAG node output: '' @ err))
       | Inr v \<Rightarrow> Inr v))"

record ('i, 'o) tool_config =
  tc_name :: string
  tc_input_fn :: "'i \<Rightarrow> inputs"
  tc_output_fn :: "(string, json) hashmap \<Rightarrow> 'o app_result"

record ('n, 'i, 'o) dag_tool =
  dt_dag :: "'n dag"
  dt_config :: "('i, 'o) tool_config"

definition as_tool :: "'n dag \<Rightarrow> ('i, 'o) tool_config \<Rightarrow> ('n, 'i, 'o) dag_tool" where
  "as_tool d config = \<lparr>dt_dag = d, dt_config = config\<rparr>"

definition dag_tool_execute ::
    "string list \<Rightarrow> string list \<Rightarrow> ('n, 'i, 'o) dag_tool \<Rightarrow> 'i \<Rightarrow> event list \<Rightarrow> 'o app_result option" where
  "dag_tool_execute order root_order tool i evs =
     map_option (\<lambda>r. try_result r (tc_output_fn (dt_config tool)))
       (execute_with_inputs order root_order (dt_dag tool) (tc_input_fn (dt_config tool) i) False evs)"

section \<open>What the two loops do\<close>

abbreviation busy :: "execution_run \<Rightarrow> string set" where
  "busy run \<equiv> set (pending run) \<union> set (completed run) \<union> set (skipped run)"

definition fresh_task :: "'n dag \<Rightarrow> execution_run \<Rightarrow> string \<Rightarrow> task" where
  "fresh_task d run i =
     \<lparr>t_id = i, t_inputs = collect_inputs d i (outputs run) (failed run) (initial_inputs run),
      t_phase = Waiting, t_aborted = False\<rparr>"

lemma fresh_task_simps [simp]:
  "t_id (fresh_task d run i) = i" "t_phase (fresh_task d run i) = Waiting"
  "\<not> t_aborted (fresh_task d run i)"
  by (simp_all add: fresh_task_def)

lemma fresh_task_cong:
  "outputs run = outputs run' \<Longrightarrow> failed run = failed run' \<Longrightarrow> initial_inputs run = initial_inputs run' \<Longrightarrow>
     fresh_task d run = fresh_task d run'"
  by (simp add: fresh_task_def fun_eq_iff)

text \<open>
  Scheduling the dependents \<open>deps\<close> of a finished node when every open node \<open>v\<close> still waits for
  \<open>R v\<close> parents besides its occurrences in \<open>deps\<close>: the loop never underflows, spawns each node that
  waits for nothing else exactly once, and leaves \<open>R\<close> behind.
\<close>

lemma schedule_loop_correct:
  assumes "\<forall>v\<in>hm_keys (nodes d) - busy run.
      hm_get (remaining_in_degree run) v = Some (R v + count_list deps v) \<and> 0 < R v + count_list deps v"
    and "set deps \<subseteq> hm_keys (nodes d)"
  shows "\<exists>ids rem' pend'.
      schedule_loop d deps run =
        Inr (run\<lparr>remaining_in_degree := rem', pending := pend',
                 join_set := join_set run @ map (fresh_task d run) ids\<rparr>) \<and>
      set pend' = set (pending run) \<union> set ids \<and> distinct ids \<and>
      set ids = {v \<in> set deps. v \<notin> busy run \<and> R v = 0} \<and>
      (\<forall>v\<in>hm_keys (nodes d) - (busy run \<union> set ids). hm_get rem' v = Some (R v) \<and> 0 < R v)"
  using assms
proof (induction deps arbitrary: run)
  case Nil
  then show ?case
    by (intro exI [of _ "[]"] exI [of _ "remaining_in_degree run"] exI [of _ "pending run"]) simp
next
  case (Cons dep deps)
  let ?N = "hm_keys (nodes d)"
  have sub: "set deps \<subseteq> ?N" and dep: "dep \<in> ?N" using Cons.prems(2) by auto
  let ?goal = "\<lambda>r ids rem' pend'.
      schedule_loop d deps r =
        Inr (r\<lparr>remaining_in_degree := rem', pending := pend',
                 join_set := join_set r @ map (fresh_task d r) ids\<rparr>) \<and>
      set pend' = set (pending r) \<union> set ids \<and> distinct ids \<and>
      set ids = {v \<in> set deps. v \<notin> busy r \<and> R v = 0} \<and>
      (\<forall>v\<in>?N - (busy r \<union> set ids). hm_get rem' v = Some (R v) \<and> 0 < R v)"
  consider (busy) "dep \<in> busy run"
    | (ready) "dep \<notin> busy run" "R dep + count_list deps dep = 0"
    | (waits) k where "dep \<notin> busy run" "R dep + count_list deps dep = Suc k"
    by (cases "R dep + count_list deps dep") auto
  then show ?case
  proof cases
    case busy
    have 1: "schedule_loop d (dep # deps) run = schedule_loop d deps run"
      using busy by auto
    have 2: "{v \<in> set (dep # deps). v \<notin> busy run \<and> R v = 0} =
        {v \<in> set deps. v \<notin> busy run \<and> R v = 0}"
      using busy by auto
    have "\<exists>ids rem' pend'. ?goal run ids rem' pend'"
      using Cons.prems(1) busy by (intro Cons.IH sub) auto
    then show ?thesis unfolding 1 2 .
  next
    case ready
    let ?r1 = "run\<lparr>remaining_in_degree := hm_insert dep 0 (remaining_in_degree run)\<rparr>"
    let ?r2 = "?r1\<lparr>pending := hs_insert dep (pending run),
        join_set := join_set run @ [fresh_task d run dep]\<rparr>"
    have deg: "hm_get (remaining_in_degree run) dep = Some (Suc 0)"
      using Cons.prems(1) ready dep by auto
    have "\<exists>ids rem' pend'. ?goal ?r2 ids rem' pend'"
      using Cons.prems(1) by (intro Cons.IH sub) auto
    then obtain ids rem' pend' where r2: "?goal ?r2 ids rem' pend'" by blast
    have "spawn_node d dep (collect_inputs d dep (outputs run) (failed run) (initial_inputs run)) ?r1 = Inr ?r2"
      using dep by (simp add: spawn_node_def fresh_task_def)
    then have "schedule_loop d (dep # deps) run = schedule_loop d deps ?r2"
      using ready(1) deg by simp
    moreover have "fresh_task d ?r2 = fresh_task d run" by (rule fresh_task_cong) simp_all
    ultimately have "schedule_loop d (dep # deps) run =
        Inr (run\<lparr>remaining_in_degree := rem', pending := pend',
                 join_set := join_set run @ map (fresh_task d run) (dep # ids)\<rparr>)"
      using r2 by simp
    moreover have "set pend' = set (pending run) \<union> set (dep # ids)" using r2 by simp
    moreover have "distinct (dep # ids)" using r2 by simp
    moreover have "set (dep # ids) = {v \<in> set (dep # deps). v \<notin> busy run \<and> R v = 0}"
      using r2 ready by auto
    moreover have "\<forall>v\<in>?N - (busy run \<union> set (dep # ids)). hm_get rem' v = Some (R v) \<and> 0 < R v"
    proof -
      have "busy ?r2 \<union> set ids = busy run \<union> set (dep # ids)" by auto
      moreover have "\<forall>v\<in>?N - (busy ?r2 \<union> set ids). hm_get rem' v = Some (R v) \<and> 0 < R v"
        using r2 by blast
      ultimately show ?thesis by (simp only:)
    qed
    ultimately show ?thesis by blast
  next
    case waits
    let ?r1 = "run\<lparr>remaining_in_degree := hm_insert dep (Suc k) (remaining_in_degree run)\<rparr>"
    have deg: "hm_get (remaining_in_degree run) dep = Some (Suc (Suc k))"
      using Cons.prems(1) waits dep by auto
    have "\<exists>ids rem' pend'. ?goal ?r1 ids rem' pend'"
      using Cons.prems(1) waits by (intro Cons.IH sub) auto
    then obtain ids rem' pend' where r1: "?goal ?r1 ids rem' pend'" by blast
    have 1: "schedule_loop d (dep # deps) run = schedule_loop d deps ?r1"
      using waits(1) deg by simp
    have 2: "fresh_task d ?r1 = fresh_task d run" by (rule fresh_task_cong) simp_all
    have "dep \<in> set deps" if "R dep = 0"
      using that waits(2) by (metis add_0 count_list_0_iff nat.distinct(1))
    then have 3: "{v \<in> set (dep # deps). v \<notin> busy run \<and> R v = 0} =
        {v \<in> set deps. v \<notin> busy run \<and> R v = 0}"
      by auto
    have "schedule_loop d (dep # deps) run =
        Inr (run\<lparr>remaining_in_degree := rem', pending := pend',
                 join_set := join_set run @ map (fresh_task d run) ids\<rparr>)"
      unfolding 1 using r1 unfolding 2 by simp
    moreover have "set pend' = set (pending run) \<union> set ids" using r1 by simp
    moreover have "distinct ids" using r1 by blast
    moreover have "set ids = {v \<in> set (dep # deps). v \<notin> busy run \<and> R v = 0}"
      unfolding 3 using r1 by simp
    moreover have "\<forall>v\<in>?N - (busy run \<union> set ids). hm_get rem' v = Some (R v) \<and> 0 < R v"
    proof -
      have "busy ?r1 \<union> set ids = busy run \<union> set ids" by simp
      moreover have "\<forall>v\<in>?N - (busy ?r1 \<union> set ids). hm_get rem' v = Some (R v) \<and> 0 < R v"
        using r1 by blast
      ultimately show ?thesis by (simp only:)
    qed
    ultimately show ?thesis by blast
  qed
qed

lemma rtrancl_image_children:
  "(edge_rel es)\<^sup>* `` insert n S = insert n ((edge_rel es)\<^sup>* `` (set (hm_get_list es n) \<union> S))"
proof -
  have "(n, x) \<in> (edge_rel es)\<^sup>* \<longleftrightarrow> x = n \<or> (\<exists>c \<in> set (hm_get_list es n). (c, x) \<in> (edge_rel es)\<^sup>*)" for x
    by (metis converse_rtranclE converse_rtrancl_into_rtrancl edge_rel_iff rtrancl.rtrancl_refl)
  then show ?thesis by blast
qed

text \<open>Skipping reaches exactly the descendants, when none of them is pending.\<close>

lemma mark_loop_correct:
  assumes "(edge_rel es)\<^sup>* `` set stack \<inter> set pend = {}"
    and "\<And>u v. u \<in> set skip \<Longrightarrow> (u, v) \<in> edge_rel es \<Longrightarrow> v \<in> set skip \<union> set stack"
  shows "set (mark_loop es pend stack skip) = set skip \<union> (edge_rel es)\<^sup>* `` set stack"
  using assms
proof (induction es pend stack skip rule: mark_loop.induct)
  case (2 es pend node_id stack skip)
  have "node_id \<notin> set pend" using "2.prems"(1) by auto
  show ?case
  proof (cases "node_id \<in> set skip")
    case True
    let ?V = "set skip \<union> (edge_rel es)\<^sup>* `` set stack"
    have "set (mark_loop es pend stack skip) = ?V"
    proof (rule "2.IH"(1))
      show "(edge_rel es)\<^sup>* `` set stack \<inter> set pend = {}" using "2.prems"(1) by auto
      show "v \<in> set skip \<union> set stack" if "u \<in> set skip" "(u, v) \<in> edge_rel es" for u v
        using "2.prems"(2) [OF that] True by auto
    qed (use True in simp)
    moreover have "v \<in> ?V" if "(node_id, v) \<in> (edge_rel es)\<^sup>*" for v
    proof (rule closed_contains_reachable [OF that])
      show "node_id \<in> ?V" using True by simp
      show "w \<in> ?V" if "u \<in> ?V" "(u, w) \<in> edge_rel es" for u w
      proof (cases "u \<in> set skip")
        case True
        with "2.prems"(2) that(2) \<open>node_id \<in> set skip\<close> show ?thesis by fastforce
      next
        case False
        with that show ?thesis by (meson ImageE ImageI UnE UnI2 rtrancl_into_rtrancl)
      qed
    qed
    ultimately show ?thesis using True by auto
  next
    case False
    let ?stack = "rev (hm_get_list es node_id) @ stack"
    have step: "(edge_rel es)\<^sup>* `` set ?stack \<union> {node_id} = (edge_rel es)\<^sup>* `` set (node_id # stack)"
      by (simp add: rtrancl_image_children)
    have "set (mark_loop es pend ?stack (hs_insert node_id skip)) =
        set (hs_insert node_id skip) \<union> (edge_rel es)\<^sup>* `` set ?stack"
    proof (rule "2.IH"(2))
      show "(edge_rel es)\<^sup>* `` set ?stack \<inter> set pend = {}" using "2.prems"(1) step by blast
      show "v \<in> set (hs_insert node_id skip) \<union> set ?stack"
        if "u \<in> set (hs_insert node_id skip)" "(u, v) \<in> edge_rel es" for u v
        using that "2.prems"(2) [of u v] by auto
    qed (use False \<open>node_id \<notin> set pend\<close> in simp)
    then show ?thesis using False \<open>node_id \<notin> set pend\<close> step by auto
  qed
qed auto

section \<open>The scheduling invariant\<close>

text \<open>
  A finished node releases its dependents unless it failed under \<^verbatim>\<open>Fail\<close> or \<^verbatim>\<open>Skip\<close>. The skipped nodes are
  the proper descendants of the nodes that failed under \<^verbatim>\<open>Skip\<close>. A node is spawned exactly when all
  its parents are released, and the in-degree of every other node counts the parents still open.
\<close>

definition released :: "'n dag \<Rightarrow> execution_run \<Rightarrow> string set" where
  "released d run =
     {v \<in> set (completed run). v \<notin> set (failed run) \<or> effective_on_error d v = OnContinue}"

definition skip_set :: "'n dag \<Rightarrow> execution_run \<Rightarrow> string set" where
  "skip_set d run =
     {v. \<exists>f \<in> set (failed run). effective_on_error d f = OnSkip \<and> (f, v) \<in> (dag_rel d)\<^sup>+}"

definition open_parents :: "'n dag \<Rightarrow> execution_run \<Rightarrow> string \<Rightarrow> nat" where
  "open_parents d run v = length (filter (\<lambda>p. p \<notin> released d run) (parents d v))"

definition sched_inv :: "'n dag \<Rightarrow> execution_run \<Rightarrow> bool" where
  "sched_inv d run \<longleftrightarrow>
     set (pending run) \<union> set (completed run) \<subseteq> hm_keys (nodes d) \<and>
     set (pending run) \<inter> set (completed run) = {} \<and>
     set (failed run) \<subseteq> set (completed run) \<and>
     set (skipped run) = skip_set d run \<and>
     (\<forall>v \<in> set (pending run) \<union> set (completed run). set (parents d v) \<subseteq> released d run) \<and>
     (\<forall>v \<in> hm_keys (nodes d) - busy run.
        hm_get (remaining_in_degree run) v = Some (open_parents d run v) \<and> 0 < open_parents d run v)"

lemma open_parents_0_iff: "open_parents d run v = 0 \<longleftrightarrow> set (parents d v) \<subseteq> released d run"
  by (auto simp: open_parents_def filter_empty_conv)

lemma sched_invD:
  assumes "sched_inv d run"
  shows "set (pending run) \<union> set (completed run) \<subseteq> hm_keys (nodes d)"
    and "set (pending run) \<inter> set (completed run) = {}"
    and "set (failed run) \<subseteq> set (completed run)"
    and "set (skipped run) = skip_set d run"
    and "\<forall>v \<in> set (pending run) \<union> set (completed run). set (parents d v) \<subseteq> released d run"
    and "\<forall>v \<in> hm_keys (nodes d) - busy run.
        hm_get (remaining_in_degree run) v = Some (open_parents d run v) \<and> 0 < open_parents d run v"
  using assms unfolding sched_inv_def by blast+

lemma parents_released:
  assumes "dag_wf d" and "sched_inv d run" and "(y, v) \<in> dag_rel d"
    and "v \<in> set (pending run) \<union> set (completed run)"
  shows "y \<in> released d run"
proof -
  have "y \<in> set (parents d v)" using assms(1,3) by (simp add: dag_wf_parents_iff)
  with assms(2,4) show ?thesis unfolding sched_inv_def by blast
qed

text \<open>All ancestors of a spawned node are released, so no spawned node is ever skipped.\<close>

lemma ancestors_released:
  assumes "dag_wf d" and "sched_inv d run" and "(f, v) \<in> (dag_rel d)\<^sup>+"
    and "v \<in> set (pending run) \<union> set (completed run)"
  shows "f \<in> released d run"
  using assms(3,4)
proof (induction rule: converse_trancl_induct)
  case (base y)
  with parents_released [OF assms(1,2)] show ?case by blast
next
  case (step y z)
  then have "z \<in> set (completed run)" by (auto simp: released_def)
  with step(1) parents_released [OF assms(1,2)] show ?case by blast
qed

lemma skip_set_disjoint:
  assumes "dag_wf d" and "sched_inv d run"
  shows "skip_set d run \<inter> (set (pending run) \<union> set (completed run)) = {}"
  using ancestors_released [OF assms] by (fastforce simp: skip_set_def released_def)

lemma descendants_in_nodes:
  assumes "dag_wf d" shows "(a, b) \<in> (dag_rel d)\<^sup>+ \<Longrightarrow> b \<in> hm_keys (nodes d)"
  by (induction rule: trancl_induct) (use assms in \<open>auto simp: dag_wf_def\<close>)

lemma schedule_dependents_release:
  assumes wf: "dag_wf d" and inv: "sched_inv d run"
    and rel: "released d run1 = insert v (released d run)" "v \<notin> released d run"
    and same: "busy run1 = busy run" "remaining_in_degree run1 = remaining_in_degree run"
  shows "\<exists>ids rem' pend'.
      schedule_dependents d v run1 =
        Inr (run1\<lparr>remaining_in_degree := rem', pending := pend',
                  join_set := join_set run1 @ map (fresh_task d run1) ids\<rparr>) \<and>
      set pend' = set (pending run1) \<union> set ids \<and> distinct ids \<and>
      set ids = {u \<in> set (children d v). u \<notin> busy run1 \<and> open_parents d run1 u = 0} \<and>
      (\<forall>u\<in>hm_keys (nodes d) - (busy run1 \<union> set ids).
         hm_get rem' u = Some (open_parents d run1 u) \<and> 0 < open_parents d run1 u)"
  unfolding schedule_dependents_def
proof (rule schedule_loop_correct)
  have "open_parents d run u = open_parents d run1 u + count_list (children d v) u" for u
    unfolding open_parents_def rel(1)
    using filter_insert_count [OF rel(2), of "parents d u"] wf by (simp add: dag_wf_def)
  then show "\<forall>u\<in>hm_keys (nodes d) - busy run1.
      hm_get (remaining_in_degree run1) u = Some (open_parents d run1 u + count_list (children d v) u) \<and>
      0 < open_parents d run1 u + count_list (children d v) u"
    using inv same by (auto simp: sched_inv_def)
  show "set (children d v) \<subseteq> hm_keys (nodes d)" using wf by (auto simp: dag_wf_def)
qed

text \<open>
  The effect of a round on the fields of the scheduling invariant, when the node releases its
  dependents.
\<close>

lemma sched_inv_release:
  assumes wf: "dag_wf d" and inv: "sched_inv d run" and v: "v \<in> set (pending run)"
    and run1: "set (pending run1) = set (pending run) - {v}"
      "set (completed run1) = insert v (set (completed run))"
      "skipped run1 = skipped run" "remaining_in_degree run1 = remaining_in_degree run"
      "set (failed run1) \<subseteq> insert v (set (failed run))" "set (failed run) \<subseteq> set (failed run1)"
      "v \<in> set (failed run1) \<Longrightarrow> effective_on_error d v = OnContinue"
  shows "\<exists>ids rem' pend'.
      schedule_dependents d v run1 =
        Inr (run1\<lparr>remaining_in_degree := rem', pending := pend',
                  join_set := join_set run1 @ map (fresh_task d run1) ids\<rparr>) \<and>
      set pend' = set (pending run1) \<union> set ids \<and> distinct ids \<and>
      set ids \<inter> busy run1 = {} \<and> (\<forall>u\<in>set ids. set (parents d u) \<subseteq> released d run1) \<and>
      sched_inv d (run1\<lparr>remaining_in_degree := rem', pending := pend',
                  join_set := join_set run1 @ map (fresh_task d run1) ids\<rparr>)"
proof -
  note i = sched_invD [OF inv]
  have vc: "v \<notin> set (completed run)" "v \<notin> set (failed run)" using i(2,3) v by auto
  have rel: "released d run1 = insert v (released d run)" "v \<notin> released d run"
    using run1 vc by (auto simp: released_def)
  have busy: "busy run1 = busy run" using run1 v by auto
  obtain ids rem' pend' where s:
      "schedule_dependents d v run1 =
        Inr (run1\<lparr>remaining_in_degree := rem', pending := pend',
                  join_set := join_set run1 @ map (fresh_task d run1) ids\<rparr>)"
      "set pend' = set (pending run1) \<union> set ids" "distinct ids"
      "set ids = {u \<in> set (children d v). u \<notin> busy run1 \<and> open_parents d run1 u = 0}"
      "\<forall>u\<in>hm_keys (nodes d) - (busy run1 \<union> set ids).
         hm_get rem' u = Some (open_parents d run1 u) \<and> 0 < open_parents d run1 u"
    using schedule_dependents_release [OF wf inv rel busy run1(4)] by blast
  let ?run2 = "run1\<lparr>remaining_in_degree := rem', pending := pend',
                  join_set := join_set run1 @ map (fresh_task d run1) ids\<rparr>"
  have rel2: "released d ?run2 = released d run1" by (simp add: released_def)
  have op2: "open_parents d ?run2 = open_parents d run1"
    by (simp add: open_parents_def rel2 fun_eq_iff)
  have skip: "skip_set d ?run2 = skip_set d run"
    using run1(5-7) by (fastforce simp: skip_set_def)
  have ids: "\<forall>u\<in>set ids. set (parents d u) \<subseteq> released d run1" "set ids \<inter> busy run1 = {}"
    "set ids \<subseteq> hm_keys (nodes d)"
    using s(4) wf by (auto simp: open_parents_0_iff dag_wf_def)
  have "sched_inv d ?run2"
    unfolding sched_inv_def
  proof (intro conjI)
    show "\<forall>u\<in>hm_keys (nodes d) - busy ?run2.
        hm_get (remaining_in_degree ?run2) u = Some (open_parents d ?run2 u) \<and> 0 < open_parents d ?run2 u"
      using s(2,5) unfolding op2 by auto
    show "\<forall>u\<in>set (pending ?run2) \<union> set (completed ?run2). set (parents d u) \<subseteq> released d ?run2"
      using i(5) ids(1) run1(1,2) s(2) v unfolding rel2 rel(1) by auto
    show "set (pending ?run2) \<union> set (completed ?run2) \<subseteq> hm_keys (nodes d)"
      using i(1) ids(3) run1(1,2) s(2) v by auto
    show "set (pending ?run2) \<inter> set (completed ?run2) = {}"
      using i(2) ids(2) run1(1,2) s(2) by auto
    show "set (failed ?run2) \<subseteq> set (completed ?run2)"
      using i(3) run1(2,5) by auto
    show "set (skipped ?run2) = skip_set d ?run2"
      unfolding skip using i(4) run1(3) by simp
  qed
  with s(1-3) ids(1,2) show ?thesis by (intro exI conjI) assumption+
qed

lemma sched_inv_stop:
  assumes "sched_inv d run" and "v \<in> set (pending run)"
    and "set (pending run1) = set (pending run) - {v}"
      "set (completed run1) = insert v (set (completed run))"
      "set (failed run1) = insert v (set (failed run))"
      "remaining_in_degree run1 = remaining_in_degree run"
      "set (skipped run1) = skip_set d run1" "effective_on_error d v \<noteq> OnContinue"
  shows "sched_inv d run1"
proof -
  note i = sched_invD [OF assms(1)]
  have "v \<notin> set (completed run)" using i(2) assms(2) by auto
  then have rel: "released d run1 = released d run"
    using assms(4,5,8) i(3) by (auto simp: released_def)
  then have op: "open_parents d run1 = open_parents d run"
    by (simp add: open_parents_def fun_eq_iff)
  have "skip_set d run \<subseteq> skip_set d run1" using assms(5) by (auto simp: skip_set_def)
  then have busy: "busy run \<subseteq> busy run1" using i(4) assms(3,4,7) by auto
  show ?thesis
    unfolding sched_inv_def rel op
  proof (intro conjI)
    show "set (pending run1) \<union> set (completed run1) \<subseteq> hm_keys (nodes d)"
      using i(1) assms(2-4) by auto
    show "\<forall>u\<in>set (pending run1) \<union> set (completed run1). set (parents d u) \<subseteq> released d run"
      using i(5) assms(2-4) by auto
    show "\<forall>u\<in>hm_keys (nodes d) - busy run1.
        hm_get (remaining_in_degree run1) u = Some (open_parents d run u) \<and> 0 < open_parents d run u"
      using i(6) busy unfolding assms(6) by blast
  qed (use i(2,3) assms(3-5,7) in auto)
qed

section \<open>One round of the scheduler\<close>

definition stops :: "'n dag \<Rightarrow> string \<Rightarrow> json app_result \<Rightarrow> bool" where
  "stops d v result \<longleftrightarrow> \<not> is_ok result \<and> effective_on_error d v = OnFail"

definition outcome_of :: "string \<Rightarrow> json app_result \<Rightarrow> nat \<Rightarrow> node_result" where
  "outcome_of v result dur =
     \<lparr>nr_name = v,
      nr_status = (case result of Inr _ \<Rightarrow> Completed | Inl e \<Rightarrow> status_from_error e),
      nr_duration_ms = duration_millis dur,
      nr_output = (case result of Inr x \<Rightarrow> Some x | Inl _ \<Rightarrow> None),
      nr_error = (case result of Inr _ \<Rightarrow> None | Inl e \<Rightarrow> Some (app_error_display e))\<rparr>"

text \<open>What one call of \<^verbatim>\<open>record_execution\<close> does, apart from its effect on the in-degrees.\<close>

definition round_spec ::
    "'n dag \<Rightarrow> string \<Rightarrow> json app_result \<Rightarrow> nat \<Rightarrow> execution_run \<Rightarrow> execution_run \<Rightarrow> bool" where
  "round_spec d v result dur run run' \<longleftrightarrow>
     initial_inputs run' = initial_inputs run \<and>
     set (completed run') = insert v (set (completed run)) \<and>
     set (failed run') = (if is_ok result then set (failed run) else insert v (set (failed run))) \<and>
     outputs run' = (case result of Inr x \<Rightarrow> hm_insert v x (outputs run) | Inl _ \<Rightarrow> outputs run) \<and>
     node_results run' = hm_insert v (outcome_of v result dur) (node_results run) \<and>
     aborted run' = (aborted run \<or> stops d v result) \<and>
     first_error run' =
       (if stops d v result \<and> first_error run = None then Some (projl result) else first_error run) \<and>
     (\<exists>ids. distinct ids \<and> set ids \<inter> busy run = {} \<and>
        (\<forall>u\<in>set ids. set (parents d u) \<subseteq> released d run') \<and>
        set (pending run') = set (pending run) - {v} \<union> set ids \<and>
        join_set run' =
          (if stops d v result then map (\<lambda>t. t\<lparr>t_aborted := True\<rparr>) (join_set run) else join_set run)
            @ map (fresh_task d run') ids)"

lemma round_spec_ids:
  assumes "round_spec d v result dur run run'"
  obtains ids where "distinct ids" "set ids \<inter> busy run = {}"
    "set (pending run') = set (pending run) - {v} \<union> set ids"
    "join_set run' =
       (if stops d v result then map (\<lambda>t. t\<lparr>t_aborted := True\<rparr>) (join_set run) else join_set run)
         @ map (fresh_task d run') ids"
  using assms unfolding round_spec_def by (elim conjE exE) (rule that, assumption+)

lemma release_round:
  assumes wf: "dag_wf d" and inv: "sched_inv d run" and v: "v \<in> set (pending run)"
    and run1: "set (pending run1) = set (pending run) - {v}"
      "set (completed run1) = insert v (set (completed run))"
      "skipped run1 = skipped run" "remaining_in_degree run1 = remaining_in_degree run"
      "set (failed run1) = (if is_ok result then set (failed run) else insert v (set (failed run)))"
      "v \<in> set (failed run1) \<Longrightarrow> effective_on_error d v = OnContinue"
      "initial_inputs run1 = initial_inputs run"
      "outputs run1 = (case result of Inr x \<Rightarrow> hm_insert v x (outputs run) | Inl _ \<Rightarrow> outputs run)"
      "node_results run1 = hm_insert v (outcome_of v result dur) (node_results run)"
      "aborted run1 = aborted run" "first_error run1 = first_error run" "join_set run1 = join_set run"
      "\<not> stops d v result"
  shows "\<exists>run'. schedule_dependents d v run1 = Inr run' \<and> sched_inv d run' \<and>
           round_spec d v result dur run run'"
proof -
  have f: "set (failed run1) \<subseteq> insert v (set (failed run))" "set (failed run) \<subseteq> set (failed run1)"
    using run1(5) by auto
  obtain ids rem' pend' where s: "schedule_dependents d v run1 =
        Inr (run1\<lparr>remaining_in_degree := rem', pending := pend',
                  join_set := join_set run1 @ map (fresh_task d run1) ids\<rparr>)"
      "set pend' = set (pending run1) \<union> set ids" "distinct ids" "set ids \<inter> busy run1 = {}"
      "\<forall>u\<in>set ids. set (parents d u) \<subseteq> released d run1"
      "sched_inv d (run1\<lparr>remaining_in_degree := rem', pending := pend',
                  join_set := join_set run1 @ map (fresh_task d run1) ids\<rparr>)"
    using sched_inv_release [OF wf inv v run1(1-4) f run1(6)] by blast
  let ?run' = "run1\<lparr>remaining_in_degree := rem', pending := pend',
                  join_set := join_set run1 @ map (fresh_task d run1) ids\<rparr>"
  have "busy run1 = busy run" using run1(1-3) v by auto
  moreover have "released d ?run' = released d run1" by (simp add: released_def)
  moreover have "fresh_task d ?run' = fresh_task d run1" by (rule fresh_task_cong) simp_all
  ultimately have "round_spec d v result dur run ?run'"
    unfolding round_spec_def using s(2-5) run1 by auto
  with s(1,6) show ?thesis by blast
qed

lemma stop_round:
  assumes wf: "dag_wf d" and inv: "sched_inv d run" and v: "v \<in> set (pending run)"
    and e: "effective_on_error d v \<noteq> OnContinue"
    and rec: "record_execution d v (Inl err) dur run = Inr run1"
    and run1: "set (pending run1) = set (pending run) - {v}"
      "set (completed run1) = insert v (set (completed run))"
      "remaining_in_degree run1 = remaining_in_degree run"
      "set (failed run1) = insert v (set (failed run))"
      "set (skipped run1) = skip_set d run1"
      "initial_inputs run1 = initial_inputs run" "outputs run1 = outputs run"
      "node_results run1 = hm_insert v (outcome_of v (Inl err) dur) (node_results run)"
      "aborted run1 = (aborted run \<or> effective_on_error d v = OnFail)"
      "first_error run1 = (if effective_on_error d v = OnFail \<and> first_error run = None then Some err
                           else first_error run)"
      "join_set run1 = (if effective_on_error d v = OnFail
         then map (\<lambda>t. t\<lparr>t_aborted := True\<rparr>) (join_set run) else join_set run)"
  shows "\<exists>run'. record_execution d v (Inl err) dur run = Inr run' \<and> sched_inv d run' \<and>
           round_spec d v (Inl err) dur run run'"
proof (intro exI conjI)
  show "sched_inv d run1"
    using sched_inv_stop [OF inv v run1(1,2,4,3,5) e] .
  show "round_spec d v (Inl err) dur run run1"
    unfolding round_spec_def using run1 by (auto simp: stops_def intro: exI [of _ "[]"])
qed (rule rec)

lemma mark_skipped_correct:
  assumes wf: "dag_wf d" and inv: "sched_inv d run" and v: "v \<in> set (pending run)"
    and pend: "set pend = set (pending run) - {v}"
  shows "set (mark_skipped_dependents (edges d) v (skipped run) pend) =
           skip_set d run \<union> {u. (v, u) \<in> (dag_rel d)\<^sup>+}"
proof -
  have img: "(dag_rel d)\<^sup>* `` set (rev (children d v)) = {u. (v, u) \<in> (dag_rel d)\<^sup>+}"
    by (auto simp: trancl_unfold_left relcomp_unfold)
  have "u \<notin> set pend" if "(v, u) \<in> (dag_rel d)\<^sup>+" for u
  proof
    assume "u \<in> set pend"
    with ancestors_released [OF wf inv that] pend have "v \<in> released d run" by auto
    with sched_invD(2) [OF inv] v show False by (auto simp: released_def)
  qed
  then have "set (mark_loop (edges d) pend (rev (children d v)) (skipped run)) =
      set (skipped run) \<union> (dag_rel d)\<^sup>* `` set (rev (children d v))"
  proof (intro mark_loop_correct)
    show "w \<in> set (skipped run) \<union> set (rev (children d v))"
      if "u \<in> set (skipped run)" "(u, w) \<in> dag_rel d" for u w
      using that sched_invD(4) [OF inv] unfolding skip_set_def by (blast intro: trancl_into_trancl)
  qed (unfold img, blast)
  then show ?thesis
    unfolding mark_skipped_dependents_def img sched_invD(4) [OF inv] .
qed

text \<open>No round fails, and each keeps the invariant.\<close>

lemma record_execution_correct:
  assumes wf: "dag_wf d" and inv: "sched_inv d run" and v: "v \<in> set (pending run)"
  shows "\<exists>run'. record_execution d v result dur run = Inr run' \<and> sched_inv d run' \<and>
           round_spec d v result dur run run'"
proof (cases result)
  case (Inr x)
  have "v \<notin> set (failed run)" using sched_invD(2,3) [OF inv] v by auto
  with Inr show ?thesis
    unfolding record_execution_def Let_def sum.case
    by (auto intro!: release_round [OF wf inv v] simp: outcome_of_def stops_def)
next
  case (Inl err)
  show ?thesis
  proof (cases "effective_on_error d v")
    case OnContinue
    with Inl show ?thesis
      unfolding record_execution_def Let_def
      by (auto intro!: release_round [OF wf inv v] simp: outcome_of_def stops_def)
  next
    case OnFail
    then have e: "effective_on_error d v \<noteq> OnContinue" by simp
    show ?thesis
      unfolding Inl
      by (rule stop_round [OF wf inv v e], simp add: record_execution_def Let_def OnFail)
         (use sched_invD(4) [OF inv] OnFail in
           \<open>auto simp: outcome_of_def skip_set_def split: option.split\<close>)
  next
    case OnSkip
    then have e: "effective_on_error d v \<noteq> OnContinue" by simp
    show ?thesis
      unfolding Inl
      by (rule stop_round [OF wf inv v e], simp add: record_execution_def Let_def OnSkip)
         (use OnSkip in
           \<open>auto simp: outcome_of_def skip_set_def mark_skipped_correct [OF wf inv v]\<close>)
  qed
qed

section \<open>Tasks and results\<close>

text \<open>A node gets the initial inputs when it is a root, else the outputs of its successful parents.\<close>

definition inputs_ok :: "'n dag \<Rightarrow> execution_run \<Rightarrow> task \<Rightarrow> bool" where
  "inputs_ok d run t \<longleftrightarrow>
     (if parents d (t_id t) = [] then t_inputs t = initial_inputs run
      else \<forall>k. hm_get (t_inputs t) k =
        (if k \<in> set (parents d (t_id t)) - set (failed run) then hm_get (outputs run) k else None))"

lemma inputs_ok_join_set [simp]: "inputs_ok d (run\<lparr>join_set := js\<rparr>) t = inputs_ok d run t"
  by (simp add: inputs_ok_def)

definition task_inv :: "'n dag \<Rightarrow> execution_run \<Rightarrow> bool" where
  "task_inv d run \<longleftrightarrow>
     distinct (map t_id (join_set run)) \<and>
     t_id ` set (join_set run) \<subseteq> set (pending run) \<and>
     (\<not> aborted run \<longrightarrow> set (pending run) \<subseteq> t_id ` set (join_set run)) \<and>
     (\<forall>t\<in>set (join_set run). (t_aborted t \<longrightarrow> aborted run) \<and> (t_phase t = Dropped \<longrightarrow> t_aborted t) \<and>
        inputs_ok d run t) \<and>
     running_count run \<le> max_parallelism d"

definition result_ok :: "execution_run \<Rightarrow> string \<Rightarrow> bool" where
  "result_ok run v \<longleftrightarrow>
     (case hm_get (node_results run) v of
        None \<Rightarrow> v \<notin> set (completed run)
      | Some r \<Rightarrow> v \<in> set (completed run) \<and> nr_name r = v \<and>
          (if v \<in> set (failed run)
           then nr_status r \<in> {Failed, TimedOut, Canceled} \<and> nr_output r = None \<and> nr_error r \<noteq> None
           else nr_status r = Completed \<and> nr_output r = hm_get (outputs run) v \<and> nr_error r = None))"

definition result_inv :: "'n dag \<Rightarrow> execution_run \<Rightarrow> bool" where
  "result_inv d run \<longleftrightarrow>
     (aborted run \<longleftrightarrow> first_error run \<noteq> None) \<and>
     (aborted run \<longleftrightarrow> (\<exists>f\<in>set (failed run). effective_on_error d f = OnFail)) \<and>
     hm_keys (outputs run) = set (completed run) - set (failed run) \<and>
     (\<forall>v. result_ok run v)"

lemma status_from_error_range: "status_from_error e \<in> {Failed, TimedOut, Canceled}"
  unfolding status_from_error_def by (cases "err_code e") simp_all

lemma result_ok_round:
  assumes "\<forall>u. result_ok run u" and "v \<notin> set (failed run)"
    and r: "round_spec d v result dur run run'"
  shows "result_ok run' u"
proof (cases "u = v")
  case True
  have n: "hm_get (node_results run') v = Some (outcome_of v result dur)"
    and c: "v \<in> set (completed run')" using r by (simp_all add: round_spec_def)
  show ?thesis
  proof (cases result)
    case (Inr x)
    then have "v \<notin> set (failed run')" "hm_get (outputs run') v = Some x"
      using r assms(2) by (simp_all add: round_spec_def)
    with n c True Inr show ?thesis by (simp add: result_ok_def outcome_of_def)
  next
    case (Inl e)
    then have "v \<in> set (failed run')" using r by (simp add: round_spec_def)
    with n c True Inl status_from_error_range [of e] show ?thesis
      by (simp add: result_ok_def outcome_of_def)
  qed
next
  case False
  then have "hm_get (node_results run') u = hm_get (node_results run) u"
    "u \<in> set (completed run') \<longleftrightarrow> u \<in> set (completed run)"
    "u \<in> set (failed run') \<longleftrightarrow> u \<in> set (failed run)"
    "hm_get (outputs run') u = hm_get (outputs run) u"
    using r by (auto simp: round_spec_def split: sum.split)
  moreover have "result_ok run u" using assms(1) by blast
  ultimately show ?thesis 
    unfolding result_ok_def by (cases "hm_get (node_results run) u") (auto split: if_splits)
qed

lemma result_inv_round:
  assumes inv: "result_inv d run" and new: "v \<notin> set (completed run)" and sub: "set (failed run) \<subseteq> set (completed run)"
    and r: "round_spec d v result dur run run'"
  shows "result_inv d run'"
proof -
  have "\<forall>u. result_ok run' u"
    using result_ok_round [OF _ _ r] inv new sub by (auto simp: result_inv_def)
  moreover have "aborted run' \<longleftrightarrow> first_error run' \<noteq> None"
    using inv r by (auto simp: result_inv_def round_spec_def)
  moreover have "aborted run' \<longleftrightarrow> (\<exists>f\<in>set (failed run'). effective_on_error d f = OnFail)"
    using inv r by (auto simp: result_inv_def round_spec_def stops_def)
  moreover have "hm_keys (outputs run') = set (completed run') - set (failed run')"
    using inv r new sub by (auto simp: result_inv_def round_spec_def split: sum.splits)
  ultimately show ?thesis by (simp add: result_inv_def)
qed

lemma hm_get_fold_insert:
  "hm_get (fold (\<lambda>(k, v). hm_insert k v) kvs m) k =
     (case hm_get (rev kvs) k of Some v \<Rightarrow> Some v | None \<Rightarrow> hm_get m k)"
proof (induction kvs arbitrary: m)
  case (Cons kv kvs)
  obtain k' v where kv: "kv = (k', v)" by (cases kv)
  have "hm_get (rev (kv # kvs)) k = (case hm_get (rev kvs) k of Some v \<Rightarrow> Some v | None \<Rightarrow> hm_get [kv] k)"
    by (auto simp: map_add_def split: option.split)
  with Cons kv show ?case by (auto split: option.split)
qed simp

lemma hm_get_selected:
  "hm_get (rev (List.map_filter (\<lambda>x. map_option (\<lambda>v. (x, v)) (f x)) xs)) k =
     (if k \<in> set xs then f k else None)"
  by (induction xs) (auto simp: map_filter_simps map_add_def split: option.split if_splits)

lemma hm_get_collect_inputs:
  assumes "parents d i \<noteq> []"
  shows "hm_get (collect_inputs d i outs fails initial) k =
           (if k \<in> set (parents d i) - set fails then hm_get outs k else None)"
  using assms
  by (auto simp: collect_inputs_def Let_def hm_get_fold_insert hm_get_selected split: option.split)

lemma inputs_ok_fresh: "inputs_ok d run (fresh_task d run i)"
proof (cases "parents d i = []")
  case True
  then show ?thesis by (simp add: inputs_ok_def fresh_task_def collect_inputs_def)
next
  case False
  then show ?thesis by (simp add: inputs_ok_def fresh_task_def hm_get_collect_inputs)
qed

text \<open>The inputs of a task stay right while other nodes finish: its parents are completed already.\<close>

lemma inputs_ok_round:
  assumes wf: "dag_wf d" and inv: "sched_inv d run" and v: "v \<in> set (pending run)"
    and t: "inputs_ok d run t" "t_id t \<in> set (pending run)"
    and r: "round_spec d v result dur run run'"
    and same: "t_id t' = t_id t" "t_inputs t' = t_inputs t"
  shows "inputs_ok d run' t'"
proof -
  have "v \<notin> set (parents d (t_id t))"
    using sched_invD(2,5) [OF inv] v t(2) by (auto simp: released_def)
  then show ?thesis
    using t(1) r same unfolding inputs_ok_def round_spec_def
    by (cases result) (auto split: if_splits)
qed

lemma running_count_simps [simp]:
  "length (filter (\<lambda>t. t_phase t = Running) (map (fresh_task d run) ids)) = 0"
  "length (filter (\<lambda>t. t_phase t = Running) (map (\<lambda>t. t\<lparr>t_aborted := b\<rparr>) ts)) =
     length (filter (\<lambda>t. t_phase t = Running) ts)"
  by (induction ids) (simp_all, induction ts, simp_all)

lemma task_inv_round:
  assumes wf: "dag_wf d" and inv: "sched_inv d run" and tinv: "task_inv d run0"
    and run: "run = run0\<lparr>join_set := take i (join_set run0) @ drop (Suc i) (join_set run0)\<rparr>"
      "i < length (join_set run0)"
    and v: "v = t_id (join_set run0 ! i)"
    and r: "round_spec d v result dur run run'"
  shows "task_inv d run'"
proof -
  let ?js = "join_set run"
  have split: "join_set run0 = take i (join_set run0) @ join_set run0 ! i # drop (Suc i) (join_set run0)"
    using run(2) by (rule id_take_nth_drop)
  obtain ids where ids: "distinct ids" "set ids \<inter> busy run = {}"
      "set (pending run') = set (pending run) - {v} \<union> set ids"
      "join_set run' = (if stops d v result then map (\<lambda>t. t\<lparr>t_aborted := True\<rparr>) ?js else ?js)
            @ map (fresh_task d run') ids"
    by (rule round_spec_ids [OF r])
  have "distinct (map t_id (take i (join_set run0) @ join_set run0 ! i # drop (Suc i) (join_set run0)))"
    using tinv split by (simp add: task_inv_def)
  then have js: "distinct (map t_id ?js)" "v \<notin> t_id ` set ?js"
    using run(1) v by auto
  have "set (join_set run0) = insert (join_set run0 ! i) (set ?js)"
    using run(1) by (subst split) simp
  then have sub: "t_id ` set ?js \<subseteq> set (pending run)" "v \<in> set (pending run)"
      "\<not> aborted run \<longrightarrow> set (pending run) \<subseteq> insert v (t_id ` set ?js)"
      "\<forall>t\<in>set ?js. (t_aborted t \<longrightarrow> aborted run) \<and> (t_phase t = Dropped \<longrightarrow> t_aborted t)"
      "\<forall>t\<in>set ?js. inputs_ok d run t"
    using tinv run(1) v unfolding task_inv_def by simp_all
  have ids_js: "map t_id (join_set run') = map t_id ?js @ ids"
    using ids(4) by (simp add: comp_def)
  then have tids: "t_id ` set (join_set run') = t_id ` set ?js \<union> set ids"
    by (metis set_append set_map)
  have ab: "aborted run' = (aborted run \<or> stops d v result)" using r by (simp add: round_spec_def)
  have "running_count run' \<le> running_count run0"
  proof -
    have "length (filter (\<lambda>t. t_phase t = Running) ?js) \<le> running_count run0"
      unfolding running_count_def using run(1) by (subst split) simp
    then show ?thesis unfolding running_count_def ids(4) by (simp add: filter_map comp_def)
  qed
  then have "running_count run' \<le> max_parallelism d" using tinv by (simp add: task_inv_def)
  moreover have "distinct (map t_id (join_set run'))"
    unfolding ids_js using js(1) ids(1,2) sub(1) by auto
  moreover have "t_id ` set (join_set run') \<subseteq> set (pending run')"
    unfolding tids ids(3) using sub(1) js(2) by auto
  moreover have "\<not> aborted run' \<longrightarrow> set (pending run') \<subseteq> t_id ` set (join_set run')"
    unfolding tids ids(3) ab using sub(3) by auto
  moreover have "(t_aborted t \<longrightarrow> aborted run') \<and> (t_phase t = Dropped \<longrightarrow> t_aborted t)"
    if "t \<in> set (join_set run')" for t
    using that sub(4) unfolding ids(4) ab by (auto split: if_splits)
  moreover have "inputs_ok d run' t" if "t \<in> set (join_set run')" for t
  proof -
    from that ids(4) consider u where "u \<in> set ?js" "t_id t = t_id u" "t_inputs t = t_inputs u"
      | j where "t = fresh_task d run' j" by (auto split: if_splits)
    then show ?thesis
    proof cases
      case 1
      with sub(1,5) show ?thesis
        by (intro inputs_ok_round [OF wf inv sub(2) _ _ r]) auto
    qed (simp add: inputs_ok_fresh)
  qed
  ultimately show ?thesis unfolding task_inv_def by blast
qed

section \<open>Every interleaving\<close>

definition engine_inv :: "'n dag \<Rightarrow> execution_run \<Rightarrow> bool" where
  "engine_inv d run \<longleftrightarrow> dag_wf d \<and> sched_inv d run \<and> task_inv d run \<and> result_inv d run"

text \<open>Events that only touch the join set keep the other parts of the invariant.\<close>

lemma sched_inv_join_set [simp]: "sched_inv d (run\<lparr>join_set := js\<rparr>) = sched_inv d run"
  by (simp add: sched_inv_def released_def skip_set_def open_parents_def)

lemma sched_inv_cancelled [simp]: "sched_inv d (run\<lparr>cancelled := c\<rparr>) = sched_inv d run"
  by (simp add: sched_inv_def released_def skip_set_def open_parents_def)

lemma result_ok_irrelevant:
  "result_ok (run\<lparr>join_set := js\<rparr>) v = result_ok run v"
  "result_ok (run\<lparr>cancelled := c\<rparr>) v = result_ok run v"
  by (auto simp: result_ok_def split: option.split)

lemma result_inv_join_set [simp]: "result_inv d (run\<lparr>join_set := js\<rparr>) = result_inv d run"
  by (simp add: result_inv_def result_ok_irrelevant)

lemma result_inv_cancelled [simp]: "result_inv d (run\<lparr>cancelled := c\<rparr>) = result_inv d run"
  by (simp add: result_inv_def result_ok_irrelevant)

lemma task_inv_cancelled [simp]: "task_inv d (run\<lparr>cancelled := c\<rparr>) = task_inv d run"
  by (simp add: task_inv_def inputs_ok_def running_count_def)

lemma running_count_update:
  assumes "i < length (join_set run)"
  shows "running_count (set_phase i p run) + (if t_phase (join_set run ! i) = Running then 1 else 0) =
           running_count run + (if p = Running then 1 else 0)"
proof -
  let ?js = "join_set run"
  have split: "?js = take i ?js @ ?js ! i # drop (Suc i) ?js"
    using assms by (rule id_take_nth_drop)
  have "?js[i := t] = take i ?js @ t # drop (Suc i) ?js" for t
    using assms by (simp add: upd_conv_take_nth_drop)
  then show ?thesis
    unfolding running_count_def by (subst (4) split) (simp add: assms)
qed

lemma task_inv_set_phase:
  assumes inv: "task_inv d run" and i: "i < length (join_set run)"
    and p: "p = Dropped \<Longrightarrow> t_aborted (join_set run ! i)"
      "p = Running \<Longrightarrow> running_count run < max_parallelism d"
  shows "task_inv d (set_phase i p run)"
proof -
  let ?run = "set_phase i p run"
  have ids: "map t_id (join_set ?run) = map t_id (join_set run)"
    using i by (simp add: map_update list_update_same_conv)
  then have "t_id ` set (join_set ?run) = t_id ` set (join_set run)" by (metis set_map)
  moreover have "running_count ?run \<le> max_parallelism d"
    using running_count_update [OF i, of p] inv p(2) by (auto simp: task_inv_def split: if_splits)
  moreover have "(t_aborted t \<longrightarrow> aborted run) \<and> (t_phase t = Dropped \<longrightarrow> t_aborted t) \<and> inputs_ok d run t"
    if "t \<in> set (join_set ?run)" for t
  proof -
    from that consider "t \<in> set (join_set run)" | "t = (join_set run ! i)\<lparr>t_phase := p\<rparr>"
      using set_update_subset_insert by fastforce
    then show ?thesis
      using inv p(1) i by cases (auto simp: task_inv_def inputs_ok_def)
  qed
  ultimately show ?thesis
    using inv ids unfolding task_inv_def by simp
qed

lemma task_pending: "task_inv d run \<Longrightarrow> i < length (join_set run) \<Longrightarrow> t_id (join_set run ! i) \<in> set (pending run)"
  unfolding task_inv_def by (meson image_subset_iff nth_mem)

lemma fire_join_dropped:
  assumes inv: "task_inv d run" and i: "i < length (join_set run)"
    and "t_phase (join_set run ! i) = Dropped"
  shows "task_inv d (run\<lparr>join_set := take i (join_set run) @ drop (Suc i) (join_set run)\<rparr>)"
proof -
  let ?js = "join_set run" and ?js' = "take i (join_set run) @ drop (Suc i) (join_set run)"
  have split: "?js = take i ?js @ ?js ! i # drop (Suc i) ?js" using i by (rule id_take_nth_drop)
  have "aborted run" using inv assms(3) i by (auto simp: task_inv_def)
  moreover have sub: "set ?js' \<subseteq> set ?js" by (auto dest: in_set_takeD in_set_dropD)
  moreover have "distinct (map t_id (take i ?js @ ?js ! i # drop (Suc i) ?js))"
    using inv split by (simp add: task_inv_def)
  then have "distinct (map t_id ?js')" by auto
  moreover have "length (filter (\<lambda>t. t_phase t = Running) ?js') \<le> running_count run"
    unfolding running_count_def by (subst (3) split) simp
  moreover have "t_id ` set ?js' \<subseteq> set (pending run)"
    using inv sub unfolding task_inv_def by (meson image_mono subset_trans)
  ultimately show ?thesis
    using inv unfolding task_inv_def by (auto simp: running_count_def dest!: subsetD [OF sub])
qed

lemma fire_inv:
  assumes inv: "engine_inv d run" and "fire d ev run = Some (Inr run')"
  shows "engine_inv d run'"
proof (cases ev)
  case (Join i)
  let ?run = "run\<lparr>join_set := take i (join_set run) @ drop (Suc i) (join_set run)\<rparr>"
  from assms(2) Join have i: "i < length (join_set run)" by (auto split: if_splits)
  show ?thesis
  proof (cases "t_phase (join_set run ! i)")
    case (Finished result dur)
    let ?v = "t_id (join_set run ! i)"
    have v: "?v \<in> set (pending ?run)" using inv i by (auto simp: engine_inv_def intro: task_pending)
    have s: "dag_wf d" "sched_inv d ?run" using inv by (simp_all add: engine_inv_def)
    from record_execution_correct [OF s v, of result dur] assms(2) Join Finished i
    have r: "sched_inv d run'" "round_spec d ?v result dur ?run run'" by (auto simp: Let_def)
    have "task_inv d run'"
      using inv by (intro task_inv_round [OF s _ refl i refl r(2)]) (simp add: engine_inv_def)
    moreover have "result_inv d run'"
      using inv v sched_invD(2,3) [OF s(2)]
      by (intro result_inv_round [OF _ _ _ r(2)]) (auto simp: engine_inv_def)
    ultimately show ?thesis using s(1) r(1) by (simp add: engine_inv_def)
  next
    case Dropped
    with inv assms(2) Join i fire_join_dropped [of d run i] show ?thesis
      by (auto simp: engine_inv_def Let_def)
  qed (use assms(2) Join i in \<open>auto simp: Let_def\<close>)
qed (use assms in \<open>auto simp: engine_inv_def intro: task_inv_set_phase split: if_splits\<close>)

text \<open>A round fails only when it joins a task that panicked.\<close>

lemma fire_error:
  assumes inv: "engine_inv d run" and "fire d ev run = Some (Inl e)"
  shows "\<exists>i msg. ev = Join i \<and> i < length (join_set run) \<and> t_phase (join_set run ! i) = Panicked msg \<and>
           e = app_error_new Internal (''DAG task panicked: '' @ msg)"
proof (cases ev)
  case (Join i)
  let ?run = "run\<lparr>join_set := take i (join_set run) @ drop (Suc i) (join_set run)\<rparr>"
  from assms(2) Join have i: "i < length (join_set run)" by (auto split: if_splits)
  show ?thesis
  proof (cases "t_phase (join_set run ! i)")
    case (Finished result dur)
    have "t_id (join_set run ! i) \<in> set (pending ?run)"
      using inv i by (auto simp: engine_inv_def intro: task_pending)
    with record_execution_correct [of d ?run _ result dur] inv assms(2) Join Finished i
    show ?thesis by (fastforce simp: engine_inv_def Let_def)
  qed (use assms(2) Join i in \<open>auto simp: Let_def\<close>)
qed (use assms(2) in \<open>auto split: if_splits\<close>)

lemma fire_all_error:
  "engine_inv d run \<Longrightarrow> fire_all d evs run = Some (Inl e) \<Longrightarrow>
     \<exists>msg. e = app_error_new Internal (''DAG task panicked: '' @ msg)"
proof (induction evs arbitrary: run)
  case (Cons ev evs)
  then consider "fire d ev run = Some (Inl e)"
    | run' where "fire d ev run = Some (Inr run')" "fire_all d evs run' = Some (Inl e)"
    by (auto split: option.splits sum.splits if_splits)
  then show ?case
  proof cases
    case 1
    from fire_error [OF Cons.prems(1) this] show ?thesis by blast
  next
    case 2
    with Cons.IH fire_inv [OF Cons.prems(1)] show ?thesis by blast
  qed
qed simp

section \<open>The start of a run\<close>

lemma spawn_roots_correct:
  assumes "set ids \<subseteq> hm_keys (nodes d)"
  shows "\<exists>pend. spawn_roots d ids run =
      Inr (run\<lparr>pending := pend, join_set := join_set run @
             map (\<lambda>i. \<lparr>t_id = i, t_inputs = initial_inputs run, t_phase = Waiting, t_aborted = False\<rparr>) ids\<rparr>) \<and>
      set pend = set (pending run) \<union> set ids"
  using assms
proof (induction ids arbitrary: run)
  case Nil
  then show ?case by (auto intro: exI [of _ "pending run"])
next
  case (Cons i ids)
  let ?run = "run\<lparr>pending := hs_insert i (pending run), join_set := join_set run @
      [\<lparr>t_id = i, t_inputs = initial_inputs run, t_phase = Waiting, t_aborted = False\<rparr>]\<rparr>"
  from Cons.IH [of ?run] Cons.prems show ?case by (auto simp: spawn_node_def)
qed

lemma hm_get_initial_degree:
  "hm_get (remaining_in_degree (initial_run d pc ins)) v =
     (if v \<in> hm_keys (nodes d) then Some (length (parents d v)) else None)"
proof -
  have "hm_get (map (\<lambda>(i, _). (i, f i)) xs) v = (if v \<in> hm_keys xs then Some (f v) else None)"
    for f :: "string \<Rightarrow> nat" and xs :: "(string, 'a) hashmap"
    by (induction xs) auto
  then show ?thesis by (simp add: initial_run_def)
qed

lemma start_inv:
  assumes wf: "dag_wf d" and ord: "distinct root_order" "set root_order = hm_keys (nodes d)"
    and spawn: "spawn_roots d
      (filter (\<lambda>i. hm_get (remaining_in_degree (initial_run d pc ins)) i = Some 0) root_order)
      (initial_run d pc ins) = Inr run"
  shows "engine_inv d run"
proof -
  let ?r0 = "initial_run d pc ins"
  let ?roots = "filter (\<lambda>i. hm_get (remaining_in_degree ?r0) i = Some 0) root_order"
  have roots: "set ?roots = {v \<in> hm_keys (nodes d). parents d v = []}" "distinct ?roots"
    using ord by (auto simp: hm_get_initial_degree split: if_splits)
  obtain pend where run: "run = ?r0\<lparr>pending := pend, join_set := join_set ?r0 @
             map (\<lambda>i. \<lparr>t_id = i, t_inputs = initial_inputs ?r0, t_phase = Waiting, t_aborted = False\<rparr>) ?roots\<rparr>"
      "set pend = set (pending ?r0) \<union> set ?roots"
    using spawn_roots_correct [of ?roots d ?r0] spawn roots(1) by auto
  have flds: "completed run = []" "failed run = []" "skipped run = []" "outputs run = []"
      "node_results run = []" "first_error run = None" "\<not> aborted run" "set (pending run) = set ?roots"
      "remaining_in_degree run = remaining_in_degree ?r0" "initial_inputs run = initial_inputs ?r0"
      "join_set run = map (\<lambda>i. \<lparr>t_id = i, t_inputs = initial_inputs ?r0, t_phase = Waiting, t_aborted = False\<rparr>) ?roots"
    using run by (simp_all add: initial_run_def)
  have rel: "released d run = {}" "skip_set d run = {}"
    "open_parents d run = (\<lambda>v. length (parents d v))"
    using flds by (simp_all add: released_def skip_set_def open_parents_def fun_eq_iff)
  have "sched_inv d run"
    unfolding sched_inv_def rel using roots(1) flds(1-3,8) by (auto simp: flds(9) hm_get_initial_degree)
  moreover have "task_inv d run"
    unfolding task_inv_def running_count_def inputs_ok_def flds(11)
    using roots flds(7,8,10) by (auto simp: comp_def image_image)
  moreover have "result_inv d run"
    unfolding result_inv_def result_ok_def using flds by simp
  ultimately show ?thesis using wf by (simp add: engine_inv_def)
qed

definition started :: "'n dag \<Rightarrow> execution_run \<Rightarrow> bool" where
  "started d run \<longleftrightarrow> dag_wf d \<and>
     (\<exists>order root_order pc ins. distinct root_order \<and> set root_order = hm_keys (nodes d) \<and>
        run_engine_start order root_order d pc ins = Some (Inr run))"

lemma run_engine_start_inv:
  assumes "started d run" shows "engine_inv d run"
  using assms unfolding started_def run_engine_start_def
  by (auto simp: try_result_Inr_iff Let_def split: option.splits intro: start_inv)

definition engine_step :: "'n dag \<Rightarrow> execution_run \<Rightarrow> execution_run \<Rightarrow> bool" where
  "engine_step d run run' \<longleftrightarrow> (\<exists>ev. fire d ev run = Some (Inr run'))"

interpretation engine: invariant_system "started d" "engine_step d" "engine_inv d" for d
  by unfold_locales (auto simp: engine_step_def intro: run_engine_start_inv fire_inv)

lemma fire_all_steps: "fire_all d evs run = Some (Inr run') \<Longrightarrow> (engine_step d)\<^sup>*\<^sup>* run run'"
proof (induction evs arbitrary: run)
  case (Cons ev evs)
  then obtain r where "fire d ev run = Some (Inr r)" "fire_all d evs r = Some (Inr run')"
    by (auto split: option.splits sum.splits if_splits)
  with Cons.IH show ?case
    by (meson converse_rtranclp_into_rtranclp engine_step_def)
qed simp

lemmas run_inv = engine.inv_steps [OF fire_all_steps run_engine_start_inv]

section \<open>Termination\<close>

fun phase_weight :: "task_phase \<Rightarrow> nat" where
  "phase_weight Waiting = 3"
| "phase_weight Running = 2"
| "phase_weight _ = 1"

definition run_weight :: "'n dag \<Rightarrow> execution_run \<Rightarrow> nat" where
  "run_weight d run =
     3 * card (hm_keys (nodes d) - (set (pending run) \<union> set (completed run))) +
     sum_list (map (phase_weight \<circ> t_phase) (join_set run)) + (if cancelled run then 0 else 1)"

lemma weight_set_phase:
  assumes "i < length (join_set run)" and "phase_weight p < phase_weight (t_phase (join_set run ! i))"
  shows "run_weight d (set_phase i p run) < run_weight d run"
proof -
  let ?js = "join_set run"
  have split: "?js = take i ?js @ ?js ! i # drop (Suc i) ?js"
    using assms(1) by (rule id_take_nth_drop)
  have "sum_list (map (phase_weight \<circ> t_phase) (?js[i := (?js ! i)\<lparr>t_phase := p\<rparr>]))
      < sum_list (map (phase_weight \<circ> t_phase) ?js)"
    unfolding upd_conv_take_nth_drop [OF assms(1)] using assms(2) by (subst (4) split) simp
  then show ?thesis by (simp add: run_weight_def)
qed

lemma weight_join:
  assumes "i < length (join_set run)"
  shows "run_weight d (run\<lparr>join_set := take i (join_set run) @ drop (Suc i) (join_set run)\<rparr>) < run_weight d run"
proof -
  let ?js = "join_set run"
  have split: "?js = take i ?js @ ?js ! i # drop (Suc i) ?js"
    using assms by (rule id_take_nth_drop)
  have "0 < phase_weight p" for p by (cases p) simp_all
  then have "sum_list (map (phase_weight \<circ> t_phase) (take i ?js @ drop (Suc i) ?js))
      < sum_list (map (phase_weight \<circ> t_phase) ?js)"
    by (subst (3) split) simp
  then show ?thesis by (simp add: run_weight_def)
qed

lemma weight_round:
  assumes inv: "sched_inv d run" "sched_inv d run'" and v: "v \<in> set (pending run)"
    and r: "round_spec d v result dur run run'" and c: "cancelled run \<longrightarrow> cancelled run'"
  shows "run_weight d run' \<le> run_weight d run"
proof -
  let ?N = "hm_keys (nodes d)" and ?w = "\<lambda>js. sum_list (map (phase_weight \<circ> t_phase) js)"
  obtain ids where ids: "distinct ids" "set ids \<inter> busy run = {}"
      "set (pending run') = set (pending run) - {v} \<union> set ids"
      "join_set run' = (if stops d v result then map (\<lambda>t. t\<lparr>t_aborted := True\<rparr>) (join_set run)
         else join_set run) @ map (fresh_task d run') ids"
    by (rule round_spec_ids [OF r])
  have comp: "set (completed run') = insert v (set (completed run))" using r by (simp add: round_spec_def)
  let ?S = "?N - (set (pending run) \<union> set (completed run))"
  have sub: "set ids \<subseteq> ?S" using sched_invD(1) [OF inv(2)] ids(2,3) by auto
  have "?N - (set (pending run') \<union> set (completed run')) = ?S - set ids"
    using ids(3) comp v by auto
  moreover have "card (?S - set ids) = card ?S - length ids"
    using sub by (simp add: card_Diff_subset distinct_card [OF ids(1)])
  moreover have "length ids \<le> card ?S"
    using card_mono [OF _ sub] by (simp add: distinct_card [OF ids(1)])
  moreover have "?w (join_set run') = ?w (join_set run) + 3 * length ids"
    unfolding ids(4) by (simp add: comp_def sum_list_triv)
  ultimately show ?thesis
    using c unfolding run_weight_def by (simp add: diff_mult_distrib2)
qed

lemma cancelled_mono:
  "schedule_loop d deps run = Inr run' \<Longrightarrow> cancelled run' = cancelled run"
proof (induction deps arbitrary: run)
  case (Cons dep deps)
  from Cons.prems show ?case
    by (auto dest!: Cons.IH simp: spawn_node_def Let_def split: if_splits option.splits nat.splits)
qed simp

lemma record_execution_cancelled:
  assumes "record_execution d v result dur run = Inr run'" and "cancelled run"
  shows "cancelled run'"
  using assms
  by (auto simp: record_execution_def Let_def schedule_dependents_def
      dest!: cancelled_mono split: sum.splits on_error.splits)

lemma fire_weight:
  assumes inv: "engine_inv d run" and f: "fire d ev run = Some (Inr run')"
  shows "run_weight d run' < run_weight d run"
proof (cases ev)
  case (Join i)
  let ?run = "run\<lparr>join_set := take i (join_set run) @ drop (Suc i) (join_set run)\<rparr>"
  from f Join have i: "i < length (join_set run)" by (auto split: if_splits)
  show ?thesis
  proof (cases "t_phase (join_set run ! i)")
    case (Finished result dur)
    let ?v = "t_id (join_set run ! i)"
    have v: "?v \<in> set (pending ?run)" using inv i by (auto simp: engine_inv_def intro: task_pending)
    have s: "dag_wf d" "sched_inv d ?run" using inv by (simp_all add: engine_inv_def)
    have rec: "record_execution d ?v result dur ?run = Inr run'"
      using f Join Finished i by (simp add: Let_def)
    with record_execution_correct [OF s v, of result dur]
    have r: "sched_inv d run'" "round_spec d ?v result dur ?run run'" by auto
    have "run_weight d run' \<le> run_weight d ?run"
      using record_execution_cancelled [OF rec] by (intro weight_round [OF s(2) r(1) v r(2)]) blast
    with weight_join [OF i, of d] show ?thesis by simp
  next
    case Dropped
    with weight_join [OF i, of d] f Join i show ?thesis by (auto simp: Let_def)
  qed (use f Join i in \<open>auto simp: Let_def\<close>)
next
  case CallerCancels
  with f show ?thesis by (auto simp: run_weight_def split: if_splits)
qed (use f in \<open>auto intro!: weight_set_phase split: if_splits\<close>)

lemma fire_all_weight:
  "engine_inv d run \<Longrightarrow> fire_all d evs run = Some r \<Longrightarrow> length evs \<le> Suc (run_weight d run)"
proof (induction evs arbitrary: run)
  case (Cons ev evs)
  show ?case
  proof (cases "fire d ev run")
    case (Some r')
    show ?thesis
    proof (cases r')
      case (Inr run')
      with Cons Some fire_inv [of d run ev run'] fire_weight [of d run ev run'] show ?thesis by fastforce
    next
      case (Inl e)
      with Cons.prems Some show ?thesis by (auto split: if_splits)
    qed
  qed (use Cons.prems in simp)
qed simp

lemma start_weight:
  assumes "started d run" shows "run_weight d run \<le> Suc (3 * length (nodes d))"
proof -
  have inv: "engine_inv d run" using assms by (rule run_engine_start_inv)
  obtain order root_order pc ins where "run_engine_start order root_order d pc ins = Some (Inr run)"
      "set root_order = hm_keys (nodes d)"
    using assms by (auto simp: started_def)
  then obtain ids where spawn: "spawn_roots d ids (initial_run d pc ins) = Inr run"
      and ids: "set ids \<subseteq> hm_keys (nodes d)"
    by (auto simp: run_engine_start_def try_result_Inr_iff Let_def split: option.splits)
  then have w: "\<forall>t\<in>set (join_set run). t_phase t = Waiting" and c: "completed run = []"
    using spawn_roots_correct [OF ids, of "initial_run d pc ins"] by (auto simp: initial_run_def)
  let ?N = "hm_keys (nodes d)"
  have "sum_list (map (phase_weight \<circ> t_phase) (join_set run)) = 3 * length (join_set run)"
    using w by (induction "join_set run" arbitrary: run) (auto simp: sum_list_triv cong: map_cong)
  also have "length (join_set run) = card (t_id ` set (join_set run))"
    using inv by (metis distinct_card engine_inv_def length_map list.set_map task_inv_def)
  also have "\<dots> \<le> card (set (pending run))"
    using inv by (intro card_mono) (auto simp: engine_inv_def task_inv_def)
  finally have "sum_list (map (phase_weight \<circ> t_phase) (join_set run)) \<le> 3 * card (set (pending run))"
    by (simp add: comp_def)
  moreover have "card (?N - set (pending run)) + card (set (pending run)) = card ?N"
    using sched_invD(1) [of d run] inv
    by (simp add: engine_inv_def card_Diff_subset card_mono finite_subset)
  moreover have "card ?N \<le> length (nodes d)" unfolding hm_keys_def
    by (metis card_length length_map list.set_map)
  ultimately show ?thesis by (simp add: run_weight_def c)
qed

section \<open>The end of a run\<close>

lemma quiescent_complete:
  assumes inv: "engine_inv d run" and quiet: "join_set run = []" "\<not> aborted run"
  shows "hm_keys (nodes d) = set (completed run) \<union> skip_set d run"
proof (rule ccontr)
  let ?N = "hm_keys (nodes d)"
  have wf: "dag_wf d" and sched: "sched_inv d run" using inv by (simp_all add: engine_inv_def)
  note i = sched_invD [OF sched]
  have pend: "set (pending run) = {}" using inv quiet by (simp add: engine_inv_def task_inv_def)
  have "skip_set d run \<subseteq> ?N" using descendants_in_nodes [OF wf] by (auto simp: skip_set_def)
  moreover assume "?N \<noteq> set (completed run) \<union> skip_set d run"
  ultimately obtain x where "x \<in> ?N - busy run" using i(1,4) pend by auto
  then obtain z where z: "z \<in> ?N - busy run" "\<And>y. (y, z) \<in> dag_rel d \<Longrightarrow> y \<notin> ?N - busy run"
    using acyclic_minimal [of "dag_rel d" x "?N - busy run"] wf by (auto simp: dag_wf_def)
  have "y \<in> released d run" if "y \<in> set (parents d z)" for y
  proof (rule ccontr)
    assume nr: "y \<notin> released d run"
    have e: "(y, z) \<in> dag_rel d" using that wf by (simp add: dag_wf_parents_iff)
    then have "y \<in> hm_keys (edges d)" by (cases "y \<in> hm_keys (edges d)") auto
    then have "y \<in> ?N" using wf by (simp add: dag_wf_def)
    with z(2) [OF e] pend i(4) consider "y \<in> set (completed run)" | "y \<in> skip_set d run" by auto
    then show False
    proof cases
      case 1
      with nr have f: "y \<in> set (failed run)" "effective_on_error d y \<noteq> OnContinue"
        by (auto simp: released_def)
      moreover have "effective_on_error d y \<noteq> OnFail"
        using inv quiet(2) f(1) by (auto simp: engine_inv_def result_inv_def)
      ultimately have "effective_on_error d y = OnSkip" by (cases "effective_on_error d y") auto
      with f(1) e have "z \<in> skip_set d run" unfolding skip_set_def by blast
      with z(1) i(4) show False by auto
    next
      case 2
      with e have "z \<in> skip_set d run" unfolding skip_set_def by (blast intro: trancl_into_trancl)
      with z(1) i(4) show False by auto
    qed
  qed
  then have "open_parents d run z = 0" by (auto simp: open_parents_0_iff)
  moreover have "0 < open_parents d run z" using i(6) z(1) by blast
  ultimately show False by simp
qed

lemma dr_status_build:
  "dr_status (build_result d elapsed run) v =
     (if v \<in> hm_keys (nodes d) then Some (nr_status (build_node run v)) else None)"
proof -
  have "map_option nr_status (hm_get (map (\<lambda>(i, _). (i, build_node run i)) xs) v) =
      (if v \<in> hm_keys xs then Some (nr_status (build_node run v)) else None)"
    for xs :: "(string, 'a) hashmap"
    by (induction xs) auto
  then show ?thesis by (simp add: dr_status_def build_result_def)
qed

lemma status_of_completed:
  assumes "result_inv d run"
  shows "v \<in> set (completed run) \<Longrightarrow> v \<in> set (failed run) \<Longrightarrow>
           nr_status (build_node run v) \<in> {Failed, TimedOut, Canceled}"
    and "v \<in> set (completed run) \<Longrightarrow> v \<notin> set (failed run) \<Longrightarrow> nr_status (build_node run v) = Completed"
    and "v \<notin> set (completed run) \<Longrightarrow> \<not> aborted run \<Longrightarrow> nr_status (build_node run v) = Skipped"
proof -
  have "result_ok run v" using assms by (simp add: result_inv_def)
  then show "v \<in> set (completed run) \<Longrightarrow> v \<in> set (failed run) \<Longrightarrow>
           nr_status (build_node run v) \<in> {Failed, TimedOut, Canceled}"
    "v \<in> set (completed run) \<Longrightarrow> v \<notin> set (failed run) \<Longrightarrow> nr_status (build_node run v) = Completed"
    "v \<notin> set (completed run) \<Longrightarrow> \<not> aborted run \<Longrightarrow> nr_status (build_node run v) = Skipped"
    by (auto simp: result_ok_def build_node_def split: option.splits)
qed

lemma some_event_enabled:
  assumes "join_set run \<noteq> []" and "1 \<le> max_parallelism d"
  shows "\<exists>ev r. ev \<noteq> CallerCancels \<and> fire d ev run = Some r"
proof (cases "\<exists>i<length (join_set run). t_phase (join_set run ! i) \<noteq> Waiting")
  case True
  then obtain i where i: "i < length (join_set run)" "t_phase (join_set run ! i) \<noteq> Waiting" by blast
  show ?thesis
  proof (cases "t_phase (join_set run ! i) = Running")
    case True
    with i have "fire d (NodeReturns i (Inr JNull) 0) run \<noteq> None" by simp
    then show ?thesis by (metis event.distinct(17) option.exhaust)
  next
    case False
    with i have "fire d (Join i) run \<noteq> None" by (cases "t_phase (join_set run ! i)") (simp_all add: Let_def)
    then show ?thesis by (metis event.distinct(29) option.exhaust)
  qed
next
  case False
  then have "\<forall>t\<in>set (join_set run). t_phase t = Waiting" by (metis in_set_conv_nth)
  then have "running_count run = 0" by (simp add: running_count_def filter_empty_conv)
  with assms False have "fire d (Acquire 0) run \<noteq> None" by simp
  then show ?thesis by (metis event.distinct(9) option.exhaust)
qed

section \<open>Properties of the engine\<close>

text \<open>The diamond of \<open>Dag\<close> just after its root was spawned, for the witnesses.\<close>

definition sample_run :: execution_run where
  "sample_run = (initial_run sample_dag False [])
     \<lparr>pending := [''a''],
      join_set := [\<lparr>t_id = ''a'', t_inputs = [], t_phase = Waiting, t_aborted = False\<rparr>]\<rparr>"

lemma sample_dag_eq:
  "sample_dag = \<lparr>nodes = [(''a'', ()), (''b'', ()), (''c'', ()), (''d'', ())],
     edges = [(''a'', [''b'', ''c'']), (''b'', [''d'']), (''c'', [''d'']), (''d'', [])],
     reverse_edges = [(''a'', []), (''b'', [''a'']), (''c'', [''a'']), (''d'', [''b'', ''c''])],
     max_parallelism = 4, dag_failure_policy = FailFast, node_on_error = []\<rparr>"
  by code_simp

lemma sample_run_started: "started sample_dag sample_run"
proof -
  have "run_engine_start [''d'', ''b'', ''a'', ''c''] [''d'', ''b'', ''a'', ''c''] sample_dag False [] =
      Some (Inr sample_run)"
    by code_simp
  moreover have "set [''d'', ''b'', ''a'', ''c''] = hm_keys (nodes sample_dag)"
    using sample_dag_nodes by auto
  ultimately show ?thesis
    unfolding started_def using sample_dag_wf
    by (intro conjI exI [of _ "[''d'', ''b'', ''a'', ''c'']"] exI [of _ False] exI [of _ "[]"]) simp_all
qed

lemmas sample_run_simps =
  running_count_def sample_run_def initial_run_def record_execution_def schedule_dependents_def
  Let_def spawn_node_def sample_dag_eq hm_get_list_def effective_on_error_def

text \<open>
  C6. In every interleaving of the runtime, a node is in the join set only when all nodes it depends
  on have finished and released it; it was handed exactly the outputs of the dependencies that
  succeeded (the initial inputs for a root); it is not running twice and has not run before; and no
  more than \<^verbatim>\<open>max_parallelism\<close> nodes execute at once.
\<close>

theorem nodes_run_after_dependencies:
  assumes "started d run0" and "fire_all d evs run0 = Some (Inr run)"
  shows "(\<forall>t \<in> set (join_set run).
            set (parents d (t_id t)) \<subseteq> released d run \<and> inputs_ok d run t \<and>
            t_id t \<notin> set (completed run) \<union> set (skipped run)) \<and>
         distinct (map t_id (join_set run)) \<and> running_count run \<le> max_parallelism d"
proof -
  have inv: "engine_inv d run" using run_inv [OF assms(2,1)] .
  then have wf: "dag_wf d" and s: "sched_inv d run" and t: "task_inv d run"
    by (simp_all add: engine_inv_def)
  have "t_id x \<in> set (pending run)" if "x \<in> set (join_set run)" for x
    using t that unfolding task_inv_def by blast
  with t sched_invD(2,4,5) [OF s] skip_set_disjoint [OF wf s] show ?thesis
    unfolding task_inv_def by blast
qed

theorem nodes_run_after_dependencies_witness:
  "\<exists>run. fire_all sample_dag [Acquire 0, NodeReturns 0 (Inr JNull) 5, Join 0] sample_run = Some (Inr run) \<and>
     map t_id (join_set run) = [''b'', ''c''] \<and>
     (\<forall>t \<in> set (join_set run). set (parents sample_dag (t_id t)) \<subseteq> released sample_dag run)"
proof -
  obtain run where run:
      "fire_all sample_dag [Acquire 0, NodeReturns 0 (Inr JNull) 5, Join 0] sample_run = Some (Inr run)"
      "map t_id (join_set run) = [''b'', ''c'']"
    by (simp add: sample_run_simps)
  with nodes_run_after_dependencies [OF sample_run_started run(1)] show ?thesis
    by (intro exI [of _ run]) simp
qed

text \<open>
  C7. The engine terminates: a run of \<open>n\<close> nodes consists of at most \<open>3 n + 2\<close> events, and as long as a
  task is left in the join set some event other than a cancellation by the caller can happen, so the
  join loop never waits for ever on its own bookkeeping. Rounds of the scheduler never fail: the only
  error is a node that panicked.
\<close>

theorem engine_terminates:
  assumes "started d run0" and "1 \<le> max_parallelism d" and "fire_all d evs run0 = Some r"
  shows "length evs \<le> 3 * length (nodes d) + 2 \<and>
         (case r of
            Inr run \<Rightarrow> join_set run = [] \<or> (\<exists>ev r'. ev \<noteq> CallerCancels \<and> fire d ev run = Some r')
          | Inl e \<Rightarrow> \<exists>msg. e = app_error_new Internal (''DAG task panicked: '' @ msg))"
proof
  have inv: "engine_inv d run0" using assms(1) by (rule run_engine_start_inv)
  show "length evs \<le> 3 * length (nodes d) + 2"
    using fire_all_weight [OF inv assms(3)] start_weight [OF assms(1)] by simp
  show "case r of
            Inr run \<Rightarrow> join_set run = [] \<or> (\<exists>ev r'. ev \<noteq> CallerCancels \<and> fire d ev run = Some r')
          | Inl e \<Rightarrow> \<exists>msg. e = app_error_new Internal (''DAG task panicked: '' @ msg)"
  proof (cases r)
    case (Inl e)
    with fire_all_error [OF inv] assms(3) show ?thesis by simp
  next
    case (Inr run)
    with some_event_enabled [OF _ assms(2)] show ?thesis by auto
  qed
qed

theorem engine_terminates_witness:
  "\<exists>r. fire_all sample_dag [Acquire 0, NodePanics 0 ''boom'', Join 0] sample_run = Some (Inl r) \<and>
     (\<exists>msg. r = app_error_new Internal (''DAG task panicked: '' @ msg))"
proof -
  have f: "fire_all sample_dag [Acquire 0, NodePanics 0 ''boom'', Join 0] sample_run =
      Some (Inl (app_error_new Internal (''DAG task panicked: '' @ ''boom'')))"
    by (simp add: sample_run_simps)
  have "1 \<le> max_parallelism sample_dag" by (simp add: sample_dag_eq)
  from engine_terminates [OF sample_run_started this f] f show ?thesis by simp
qed

text \<open>
  C8. When a run that was not aborted has ended, its \<^verbatim>\<open>DagResult\<close> has an entry for exactly the nodes of
  the graph, a node is reported skipped exactly when it is downstream of a node that failed under the
  \<^verbatim>\<open>Skip\<close> policy, and every other node has run to the end.
\<close>

theorem result_classifies_every_node:
  fixes d :: "'n dag" and elapsed :: nat and run :: execution_run
  assumes "started d run0" and "fire_all d evs run0 = Some (Inr run)"
    and "join_set run = []" and "\<not> aborted run"
  defines "r \<equiv> build_result d elapsed run"
  shows "hm_keys (dr_nodes r) = hm_keys (nodes d) \<and>
         (\<forall>v \<in> hm_keys (nodes d).
            (dr_status r v = Some Skipped \<longleftrightarrow>
               (\<exists>f. dr_status r f \<in> {Some Failed, Some TimedOut, Some Canceled} \<and>
                    effective_on_error d f = OnSkip \<and> (f, v) \<in> (dag_rel d)\<^sup>+)) \<and>
            (dr_status r v \<noteq> Some Skipped \<longrightarrow> v \<in> set (completed run)))"
proof
  have inv: "engine_inv d run" using run_inv [OF assms(2,1)] .
  then have wf: "dag_wf d" and s: "sched_inv d run" and res: "result_inv d run"
    by (simp_all add: engine_inv_def)
  show "hm_keys (dr_nodes r) = hm_keys (nodes d)"
    by (auto simp: r_def build_result_def hm_keys_def image_image split_beta)
  have N: "hm_keys (nodes d) = set (completed run) \<union> skip_set d run"
    using quiescent_complete [OF inv assms(3,4)] .
  have disj: "v \<notin> set (completed run)" if "v \<in> skip_set d run" for v
    using skip_set_disjoint [OF wf s] that by blast
  have fail: "f \<in> set (failed run) \<longleftrightarrow> dr_status r f \<in> {Some Failed, Some TimedOut, Some Canceled}" for f
    using status_of_completed [OF res, of f] assms(4) N sched_invD(3) [OF s]
    unfolding r_def dr_status_build by fastforce
  have skip: "dr_status r v = Some Skipped \<longleftrightarrow> v \<in> skip_set d run" if "v \<in> hm_keys (nodes d)" for v
    using status_of_completed [OF res, of v] assms(4) N disj that
    unfolding r_def dr_status_build by fastforce
  show "\<forall>v \<in> hm_keys (nodes d).
            (dr_status r v = Some Skipped \<longleftrightarrow>
               (\<exists>f. dr_status r f \<in> {Some Failed, Some TimedOut, Some Canceled} \<and>
                    effective_on_error d f = OnSkip \<and> (f, v) \<in> (dag_rel d)\<^sup>+)) \<and>
            (dr_status r v \<noteq> Some Skipped \<longrightarrow> v \<in> set (completed run))"
    using skip N fail by (auto simp: skip_set_def)
qed

text \<open>
  A graph with two independent roots, \<open>x\<close> and \<open>y\<close>, and a node \<open>z\<close> after \<open>y\<close>.
\<close>

definition fork_dag :: "failure_policy \<Rightarrow> unit dag" where
  "fork_dag policy =
     with_failure_policy policy
       \<lparr>nodes = [(''x'', ()), (''y'', ()), (''z'', ())],
        edges = [(''x'', []), (''y'', [''z'']), (''z'', [])],
        reverse_edges = [(''x'', []), (''y'', []), (''z'', [''y''])],
        max_parallelism = 2, dag_failure_policy = FailFast, node_on_error = []\<rparr>"

definition fork_run :: "failure_policy \<Rightarrow> execution_run" where
  "fork_run policy = (initial_run (fork_dag policy) False [])
     \<lparr>pending := [''y'', ''x''],
      join_set := [\<lparr>t_id = ''x'', t_inputs = [], t_phase = Waiting, t_aborted = False\<rparr>,
                   \<lparr>t_id = ''y'', t_inputs = [], t_phase = Waiting, t_aborted = False\<rparr>]\<rparr>"

lemma fork_dag_wf: "dag_wf (fork_dag policy)"
proof -
  let ?step = "\<lambda>g. case add_edge ''y'' ''z'' g of Inl _ \<Rightarrow> g | Inr g' \<Rightarrow> g'"
  let ?g = "with_max_parallelism 2 (add_node ''z'' () (add_node ''y'' () (add_node ''x'' () (dag_new None))))"
  have "fork_dag policy = with_failure_policy policy (?step ?g)"
    unfolding fork_dag_def by code_simp
  moreover have "dag_wf (?step ?g)"
    using dag_wf_add_edge [of ?g]
    by (auto simp: dag_wf_settings dag_wf_add_node dag_wf_new split: sum.split)
  ultimately show ?thesis by (simp add: dag_wf_settings)
qed

lemma fork_run_started: "started (fork_dag policy) (fork_run policy)"
proof -
  have "run_engine_start [''x'', ''y'', ''z''] [''x'', ''y'', ''z''] (fork_dag policy) False [] =
      Some (Inr (fork_run policy))"
    by (cases policy; hypsubst) code_simp+
  moreover have "set [''x'', ''y'', ''z''] = hm_keys (nodes (fork_dag policy))"
    by (auto simp: fork_dag_def with_failure_policy_def)
  ultimately show ?thesis
    unfolding started_def using fork_dag_wf
    by (intro conjI exI [of _ "[''x'', ''y'', ''z'']"] exI [of _ False] exI [of _ "[]"]) simp_all
qed

lemmas fork_run_simps =
  running_count_def fork_run_def initial_run_def record_execution_def schedule_dependents_def
  Let_def spawn_node_def fork_dag_def with_failure_policy_def hm_get_list_def effective_on_error_def
  mark_skipped_dependents_def

theorem result_classifies_every_node_witness:
  "\<exists>run. fire_all (fork_dag SkipDependents)
       [Acquire 0, Acquire 1, NodeReturns 1 (Inl (timeout_error ''y'')) 7, NodeReturns 0 (Inr JNull) 5,
        Join 1, Join 0] (fork_run SkipDependents) = Some (Inr run) \<and>
     dr_status (build_result (fork_dag SkipDependents) 9 run) ''z'' = Some Skipped \<and>
     (\<exists>f. dr_status (build_result (fork_dag SkipDependents) 9 run) f
            \<in> {Some Failed, Some TimedOut, Some Canceled} \<and> (f, ''z'') \<in> (dag_rel (fork_dag SkipDependents))\<^sup>+)"
proof -
  let ?d = "fork_dag SkipDependents"
  obtain run where run:
      "fire_all ?d
       [Acquire 0, Acquire 1, NodeReturns 1 (Inl (timeout_error ''y'')) 7, NodeReturns 0 (Inr JNull) 5,
        Join 1, Join 0] (fork_run SkipDependents) = Some (Inr run)"
      "join_set run = []" "\<not> aborted run" "dr_status (build_result ?d 9 run) ''z'' = Some Skipped"
    by (simp add: fork_run_simps dr_status_def build_result_def build_node_def)
  moreover have "''z'' \<in> hm_keys (nodes ?d)" by (simp add: fork_dag_def with_failure_policy_def)
  ultimately show ?thesis
    using result_classifies_every_node [OF fork_run_started run(1-3), of 9] by blast
qed

text \<open>
  A fail-fast abort does not stop the scheduler: when a task had already finished successfully
  before \<^verbatim>\<open>abort_all\<close>, its join still comes back \<^verbatim>\<open>Ok\<close> and \<^verbatim>\<open>record_execution\<close> spawns every dependent it
  completes, as a fresh task that the abort does not cover.
\<close>

lemma aborted_run_spawns_nodes:
  assumes "started d run0" and "fire_all d evs run0 = Some (Inr run)" and "aborted run"
    and i: "i < length (join_set run)" "t_phase (join_set run ! i) = Finished (Inr out) dur"
    and u: "u \<in> set (children d (t_id (join_set run ! i)))" "u \<notin> set (skipped run)"
      "set (parents d u) \<subseteq> insert (t_id (join_set run ! i)) (released d run)"
  shows "\<exists>run' t. fire d (Join i) run = Some (Inr run') \<and> aborted run' \<and>
           t \<in> set (join_set run') \<and> t_id t = u \<and> t_phase t = Waiting \<and> \<not> t_aborted t"
proof -
  let ?v = "t_id (join_set run ! i)"
  let ?run = "run\<lparr>join_set := take i (join_set run) @ drop (Suc i) (join_set run)\<rparr>"
  have inv: "engine_inv d run" using run_inv [OF assms(2,1)] .
  then have wf: "dag_wf d" and s: "sched_inv d ?run" and s0: "sched_inv d run"
    by (simp_all add: engine_inv_def)
  have v: "?v \<in> set (pending ?run)" using inv i by (auto simp: engine_inv_def intro: task_pending)
  obtain run' where run': "record_execution d ?v (Inr out) dur ?run = Inr run'" "sched_inv d run'"
      "round_spec d ?v (Inr out) dur ?run run'"
    using record_execution_correct [OF wf s v] by blast
  note r = run'(3) [unfolded round_spec_def]
  have e: "(?v, u) \<in> dag_rel d" using u(1) by simp
  have nv: "?v \<notin> set (completed run)" using sched_invD(2) [OF s0] v by auto
  have un: "u \<notin> set (pending run)" "u \<notin> set (completed run)"
    using parents_released [OF wf s0 e] nv by (auto simp: released_def)
  have flds: "set (completed run') = insert ?v (set (completed run))" "set (failed run') = set (failed run)"
    using r by auto
  have "released d run' = insert ?v (released d run)"
    using flds nv sched_invD(3) [OF s0] by (auto simp: released_def)
  then have "open_parents d run' u = 0" using u(3) by (simp add: open_parents_0_iff)
  moreover have uN: "u \<in> hm_keys (nodes d)" using wf u(1) by (auto simp: dag_wf_def)
  ultimately have "u \<in> busy run'" 
    using sched_invD(6) [OF run'(2)] by (metis DiffI less_irrefl)
  moreover have "u \<notin> set (skipped run')"
    using u(2) sched_invD(4) [OF run'(2)] sched_invD(4) [OF s0] flds(2) by (simp add: skip_set_def)
  moreover have "u \<noteq> ?v" using e wf unfolding dag_wf_def acyclic_def by blast
  ultimately have "u \<in> set (pending run')" using flds(1) un(2) by auto
  then have "fresh_task d run' u \<in> set (join_set run')" using r un(1) by auto
  moreover have "fire d (Join i) run = Some (Inr run')" using i run'(1) by (simp add: Let_def)
  moreover have "aborted run'" using r assms(3) by simp
  ultimately show ?thesis by (intro exI [of _ run'] exI [of _ "fresh_task d run' u"]) simp
qed

lemma aborted_run_spawns_nodes_witness:
  "\<exists>run run' t.
     fire_all (fork_dag FailFast)
       [Acquire 0, Acquire 1, NodeReturns 0 (Inl (timeout_error ''x'')) 7, NodeReturns 1 (Inr JNull) 5,
        Join 0] (fork_run FailFast) = Some (Inr run) \<and> aborted run \<and>
     fire (fork_dag FailFast) (Join 0) run = Some (Inr run') \<and>
     t \<in> set (join_set run') \<and> t_id t = ''z'' \<and> t_phase t = Waiting \<and> \<not> t_aborted t"
proof -
  let ?d = "fork_dag FailFast"
  obtain run where run:
      "fire_all ?d
       [Acquire 0, Acquire 1, NodeReturns 0 (Inl (timeout_error ''x'')) 7, NodeReturns 1 (Inr JNull) 5,
        Join 0] (fork_run FailFast) = Some (Inr run)"
      "aborted run" "0 < length (join_set run)" "t_phase (join_set run ! 0) = Finished (Inr JNull) 5"
      "''z'' \<in> set (children ?d (t_id (join_set run ! 0)))" "''z'' \<notin> set (skipped run)"
      "set (parents ?d ''z'') \<subseteq> insert (t_id (join_set run ! 0)) (released ?d run)"
    by (simp add: fork_run_simps)
  from aborted_run_spawns_nodes [OF fork_run_started run] run(1,2) show ?thesis by blast
qed

end
