(* ===== verification/Registry.thy ===== *)
theory Registry
  imports Errors Backoff "HOL-Library.Multiset"
begin

text \<open>
  The component lifecycle of \<^verbatim>\<open>core/rskit-component/src\<close>: health reports, lifecycle states, lazy
  components, and the registry that starts components in registration order, rolls back on failure and
  stops in reverse order. A component is its position in the registry; what its \<^verbatim>\<open>start\<close> and \<^verbatim>\<open>stop\<close> do
  under the configured timeout is decided by an environment that sees the calls made so far. The
  history of these calls is part of the state.
\<close>

section \<open>Health, states and configuration\<close>

datatype health_status = Healthy | Degraded | Unhealthy

fun health_status_display :: "health_status \<Rightarrow> string" where
  "health_status_display Healthy = ''healthy''"
| "health_status_display Degraded = ''degraded''"
| "health_status_display Unhealthy = ''unhealthy''"

record health =
  h_name :: string
  h_status :: health_status
  h_message :: "string option"

definition healthy :: "string \<Rightarrow> health" where
  "healthy name = \<lparr>h_name = name, h_status = Healthy, h_message = None\<rparr>"

definition degraded :: "string \<Rightarrow> string \<Rightarrow> health" where
  "degraded name msg = \<lparr>h_name = name, h_status = Degraded, h_message = Some msg\<rparr>"

definition unhealthy :: "string \<Rightarrow> string \<Rightarrow> health" where
  "unhealthy name msg = \<lparr>h_name = name, h_status = Unhealthy, h_message = Some msg\<rparr>"

definition is_healthy :: "health \<Rightarrow> bool" where
  "is_healthy h = (h_status h = Healthy)"

datatype comp_state = Created | Starting | Running | Stopping | Stopped | Failed

fun comp_state_display :: "comp_state \<Rightarrow> string" where
  "comp_state_display Created = ''created''"
| "comp_state_display Starting = ''starting''"
| "comp_state_display Running = ''running''"
| "comp_state_display Stopping = ''stopping''"
| "comp_state_display Stopped = ''stopped''"
| "comp_state_display Failed = ''failed''"

fun can_start :: "comp_state \<Rightarrow> bool" where
  "can_start Created = True"
| "can_start Stopped = True"
| "can_start Failed = True"
| "can_start _ = False"

fun should_stop :: "comp_state \<Rightarrow> bool" where
  "should_stop Running = True"
| "should_stop _ = False"

record registry_config =
  concurrency :: nat
  start_timeout :: nat
  stop_timeout :: nat

definition registry_config_default :: registry_config where
  "registry_config_default =
     \<lparr>concurrency = 1, start_timeout = 30 * 1000000000, stop_timeout = 30 * 1000000000\<rparr>"

record stop_result =
  sr_name :: string
  sr_error :: "app_error option"

section \<open>Components\<close>

record 'w component =
  c_start :: "'w \<Rightarrow> 'w \<times> unit app_result"
  c_stop :: "'w \<Rightarrow> 'w \<times> unit app_result"
  c_health :: "'w \<Rightarrow> health"

text \<open>A lazy component holds what its factory built, once it was started.\<close>

record 'w lazy_component =
  lc_name :: string
  lc_factory :: "'w \<Rightarrow> 'w \<times> 'w component"
  lc_inner :: "'w component option"

definition lazy_component_new :: "string \<Rightarrow> ('w \<Rightarrow> 'w \<times> 'w component) \<Rightarrow> 'w lazy_component" where
  "lazy_component_new name factory = \<lparr>lc_name = name, lc_factory = factory, lc_inner = None\<rparr>"

definition lazy_start :: "'w lazy_component \<times> 'w \<Rightarrow> ('w lazy_component \<times> 'w) \<times> unit app_result" where
  "lazy_start st =
     (case st of (lc, w) \<Rightarrow>
       case lc_inner lc of
         Some c \<Rightarrow> (case c_start c w of (w', r) \<Rightarrow> ((lc, w'), r))
       | None \<Rightarrow>
           (case lc_factory lc w of (w1, c) \<Rightarrow>
             case c_start c w1 of (w', r) \<Rightarrow> ((lc\<lparr>lc_inner := Some c\<rparr>, w'), r)))"

definition lazy_stop :: "'w lazy_component \<times> 'w \<Rightarrow> ('w lazy_component \<times> 'w) \<times> unit app_result" where
  "lazy_stop st =
     (case st of (lc, w) \<Rightarrow>
       case lc_inner lc of
         Some c \<Rightarrow> (case c_stop c w of (w', r) \<Rightarrow> ((lc, w'), r))
       | None \<Rightarrow> ((lc, w), Inr ()))"

definition lazy_health :: "'w lazy_component \<times> 'w \<Rightarrow> health" where
  "lazy_health st =
     (case lc_inner (fst st) of Some c \<Rightarrow> c_health c (snd st) | None \<Rightarrow> healthy (lc_name (fst st)))"

section \<open>The registry\<close>

record entry =
  e_name :: string
  e_state :: comp_state

datatype lifecycle_call = StartCall nat | StopCall nat

datatype call_outcome = CallOk | CallErr app_error | CallTimedOut

text \<open>What a call does after a history of calls, under its timeout.\<close>

type_synonym lifecycle_env = "lifecycle_call list \<Rightarrow> lifecycle_call \<Rightarrow> call_outcome"

type_synonym reg = "entry list \<times> lifecycle_call list"

record snapshot =
  s_index :: nat
  s_name :: string
  s_state :: comp_state

definition register :: "string \<Rightarrow> entry list \<Rightarrow> entry list" where
  "register name es = es @ [\<lparr>e_name = name, e_state = Created\<rparr>]"

definition snapshots :: "entry list \<Rightarrow> snapshot list" where
  "snapshots es =
     map (\<lambda>i. \<lparr>s_index = i, s_name = e_name (es ! i), s_state = e_state (es ! i)\<rparr>) [0..<length es]"

definition set_state :: "nat \<Rightarrow> comp_state \<Rightarrow> entry list \<Rightarrow> entry list" where
  "set_state i s es = (if i < length es then es[i := (es ! i)\<lparr>e_state := s\<rparr>] else es)"

definition registry_state :: "string \<Rightarrow> entry list \<Rightarrow> comp_state option" where
  "registry_state name es = map_option e_state (find (\<lambda>e. e_name e = name) es)"

definition stop_timed_out :: "string \<Rightarrow> app_error" where
  "stop_timed_out name = app_error_new Timeout (''component '' @ quoted name @ '' stop timed out'')"

definition start_timed_out :: "string \<Rightarrow> app_error" where
  "start_timed_out name = app_error_new Timeout (''component '' @ quoted name @ '' start timed out'')"

text \<open>One component of the stop loops, which \<^verbatim>\<open>stop_all_detailed\<close> and \<^verbatim>\<open>rollback_started\<close> share.\<close>

definition stop_one :: "lifecycle_env \<Rightarrow> snapshot \<Rightarrow> reg \<Rightarrow> reg \<times> stop_result" where
  "stop_one env s st =
     (case st of (es, h) \<Rightarrow>
       let i = s_index s; es1 = set_state i Stopping es; h1 = h @ [StopCall i]
       in case env h (StopCall i) of
            CallOk \<Rightarrow> ((set_state i Stopped es1, h1), \<lparr>sr_name = s_name s, sr_error = None\<rparr>)
          | CallErr e \<Rightarrow> ((set_state i Failed es1, h1), \<lparr>sr_name = s_name s, sr_error = Some e\<rparr>)
          | CallTimedOut \<Rightarrow>
              ((set_state i Failed es1, h1),
               \<lparr>sr_name = s_name s, sr_error = Some (stop_timed_out (s_name s))\<rparr>))"

fun stop_loop :: "lifecycle_env \<Rightarrow> snapshot list \<Rightarrow> reg \<Rightarrow> reg \<times> stop_result list" where
  "stop_loop env [] st = (st, [])"
| "stop_loop env (s # ss) st =
     (case stop_one env s st of (st1, r) \<Rightarrow>
       case stop_loop env ss st1 of (st2, rs) \<Rightarrow> (st2, r # rs))"

definition stop_all_detailed :: "lifecycle_env \<Rightarrow> reg \<Rightarrow> reg \<times> stop_result list" where
  "stop_all_detailed env st =
     stop_loop env (filter (\<lambda>s. should_stop (s_state s)) (rev (snapshots (fst st)))) st"

definition failures_of :: "stop_result list \<Rightarrow> string list" where
  "failures_of rs =
     List.map_filter (\<lambda>r. map_option (\<lambda>e. sr_name r @ '': '' @ app_error_display e) (sr_error r)) rs"

definition stop_all :: "lifecycle_env \<Rightarrow> reg \<Rightarrow> reg \<times> unit app_result" where
  "stop_all env st =
     (case stop_all_detailed env st of (st', results) \<Rightarrow>
       (st', if failures_of results = [] then Inr ()
             else Inl (app_error_new Internal
               (''failed to stop components: '' @ join ''; '' (failures_of results)))))"

definition rollback_started :: "lifecycle_env \<Rightarrow> string list \<Rightarrow> reg \<Rightarrow> reg \<times> stop_result list" where
  "rollback_started env names st =
     stop_loop env
       (filter (\<lambda>s. s_name s \<in> set names \<and> should_stop (s_state s)) (rev (snapshots (fst st)))) st"

text \<open>The error of a failed start, with the failures of the rollback as context.\<close>

definition with_rollback :: "app_error \<Rightarrow> stop_result list \<Rightarrow> app_error" where
  "with_rollback e results =
     (if failures_of results = [] then e
      else context_msg (''rollback failures: '' @ join ''; '' (failures_of results)) e)"

fun start_loop :: "lifecycle_env \<Rightarrow> snapshot list \<Rightarrow> string list \<Rightarrow> reg \<Rightarrow> reg \<times> unit app_result" where
  "start_loop env [] started st = (st, Inr ())"
| "start_loop env (s # ss) started (es, h) =
     (if can_start (s_state s) then
        let i = s_index s; es1 = set_state i Starting es; h1 = h @ [StartCall i]
        in case env h (StartCall i) of
             CallOk \<Rightarrow> start_loop env ss (started @ [s_name s]) (set_state i Running es1, h1)
           | CallErr e \<Rightarrow>
               (case rollback_started env started (set_state i Failed es1, h1) of
                  (st', results) \<Rightarrow> (st', Inl (with_rollback e results)))
           | CallTimedOut \<Rightarrow>
               (case rollback_started env started (set_state i Failed es1, h1 @ [StopCall i]) of
                  (st', results) \<Rightarrow>
                    (st', Inl (with_rollback (start_timed_out (s_name s)) results)))
      else if s_state s = Running then start_loop env ss started (es, h)
      else
        ((es, h), Inl (app_error_new Conflict
          (''component '' @ quoted (s_name s) @ '' cannot start from state '' @
           comp_state_display (s_state s)))))"

definition start_all :: "lifecycle_env \<Rightarrow> reg \<Rightarrow> reg \<times> unit app_result" where
  "start_all env st = start_loop env (snapshots (fst st)) [] st"

text \<open>
  Concurrent start. Every startable component gets a task; the environment decides in which order the
  tasks end and how: cancelled before or during the dispatch, started, failed, timed out, or
  panicked. A task ends by updating its entry; the join loop keeps the first error.
\<close>

datatype task_end =
    CancelledBefore
  | CancelledDuring
  | StartedOk
  | StartFailed app_error
  | StartTimedOut
  | TaskPanicked string

definition task_update :: "snapshot \<Rightarrow> task_end \<Rightarrow> reg \<Rightarrow> reg" where
  "task_update s t st =
     (case st of (es, h) \<Rightarrow>
       let i = s_index s; h1 = h @ [StartCall i] in
       case t of
         CancelledBefore \<Rightarrow> (set_state i (s_state s) es, h)
       | CancelledDuring \<Rightarrow> (set_state i (s_state s) es, h1)
       | StartedOk \<Rightarrow> (set_state i Running es, h1)
       | StartFailed _ \<Rightarrow> (set_state i Failed es, h1)
       | StartTimedOut \<Rightarrow> (set_state i Failed es, h1)
       | TaskPanicked _ \<Rightarrow> (set_state i Failed es, h1))"

fun task_error :: "snapshot \<Rightarrow> task_end \<Rightarrow> app_error option" where
  "task_error s (StartFailed e) = Some e"
| "task_error s StartTimedOut = Some (start_timed_out (s_name s))"
| "task_error s (TaskPanicked msg) = Some (internal_error msg)"
| "task_error s _ = None"

fun join_tasks ::
    "(snapshot \<times> task_end) list \<Rightarrow> app_error option \<Rightarrow> reg \<Rightarrow> reg \<times> app_error option" where
  "join_tasks [] first_error st = (st, first_error)"
| "join_tasks ((s, t) # ends) first_error st =
     join_tasks ends (case first_error of Some e \<Rightarrow> Some e | None \<Rightarrow> task_error s t) (task_update s t st)"

definition mark_starting :: "snapshot list \<Rightarrow> entry list \<Rightarrow> entry list" where
  "mark_starting ss es = fold (\<lambda>s. set_state (s_index s) Starting) ss es"

definition candidates :: "entry list \<Rightarrow> snapshot list" where
  "candidates es = filter (\<lambda>s. can_start (s_state s)) (snapshots es)"

text \<open>\<open>ends\<close> lists the tasks in the order in which they end; it is a permutation of the candidates.\<close>

definition start_all_concurrent ::
    "lifecycle_env \<Rightarrow> (snapshot \<times> task_end) list \<Rightarrow> reg \<Rightarrow> (reg \<times> unit app_result) option" where
  "start_all_concurrent env ends st =
     (let cands = candidates (fst st) in
      if mset (map fst ends) \<noteq> mset cands then None
      else Some
        (if cands = [] then (st, Inr ())
         else
           case join_tasks ends None (mark_starting cands (fst st), snd st) of
             (st1, None) \<Rightarrow> (st1, Inr ())
           | (st1, Some e) \<Rightarrow>
               (case rollback_started env (map s_name cands) st1 of
                  (st2, results) \<Rightarrow> (st2, Inl (with_rollback e results)))))"

definition health_all :: "('c \<Rightarrow> health) \<Rightarrow> 'c list \<Rightarrow> health list" where
  "health_all health_of cs = map health_of cs"

section \<open>Stopping\<close>

lemma set_state_simps [simp]:
  "length (set_state i s es) = length es"
  "j \<noteq> i \<Longrightarrow> set_state i s es ! j = es ! j"
  "i < length es \<Longrightarrow> set_state i s es ! i = (es ! i)\<lparr>e_state := s\<rparr>"
  "set_state i s (set_state i t es) = set_state i s es"
  by (auto simp: set_state_def)

lemma map_name_set_state [simp]: "map e_name (set_state i s es) = map e_name es"
  by (auto simp: set_state_def map_update list_update_same_conv)

abbreviation state_at :: "entry list \<Rightarrow> nat \<Rightarrow> comp_state" where
  "state_at es i \<equiv> e_state (es ! i)"

text \<open>
  A stop loop over snapshots calls \<open>stop\<close> once on each, in order; each ends stopped or failed, as its
  result says, and every other entry is untouched.
\<close>

lemma stop_loop_spec:
  assumes "distinct (map s_index ss)" and "\<forall>s\<in>set ss. s_index s < length es"
    and "stop_loop env ss (es, h) = ((es', h'), rs)"
  shows "h' = h @ map (StopCall \<circ> s_index) ss \<and> length es' = length es \<and> map e_name es' = map e_name es \<and>
         map sr_name rs = map s_name ss \<and>
         (\<forall>j. j \<notin> s_index ` set ss \<longrightarrow> es' ! j = es ! j) \<and>
         list_all2 (\<lambda>s r. state_at es' (s_index s) = (if sr_error r = None then Stopped else Failed)) ss rs"
  using assms
proof (induction ss arbitrary: es h rs)
  case (Cons s ss)
  let ?i = "s_index s"
  obtain es1 h1 r where one: "stop_one env s (es, h) = ((es1, h1), r)" by (metis surj_pair)
  obtain rs' where rest: "stop_loop env ss (es1, h1) = ((es', h'), rs')" "rs = r # rs'"
    using Cons.prems(3) one by (auto split: prod.splits)
  have i: "?i < length es" using Cons.prems(2) by simp
  have o: "h1 = h @ [StopCall ?i]" "length es1 = length es" "map e_name es1 = map e_name es"
      "sr_name r = s_name s" "\<forall>j. j \<noteq> ?i \<longrightarrow> es1 ! j = es ! j"
      "state_at es1 ?i = (if sr_error r = None then Stopped else Failed)"
    using one i by (auto simp: stop_one_def Let_def split: call_outcome.splits)
  have ih: "h' = h1 @ map (StopCall \<circ> s_index) ss" "length es' = length es1" "map e_name es' = map e_name es1"
      "map sr_name rs' = map s_name ss" "\<forall>j. j \<notin> s_index ` set ss \<longrightarrow> es' ! j = es1 ! j"
      "list_all2 (\<lambda>s r. state_at es' (s_index s) = (if sr_error r = None then Stopped else Failed)) ss rs'"
    using Cons.IH [OF _ _ rest(1)] Cons.prems(1,2) o(2) by auto
  have "es' ! ?i = es1 ! ?i" using ih(5) Cons.prems(1) by auto
  with ih o rest(2) show ?case by simp
qed simp

lemma snapshots_facts [simp]:
  "map s_index (snapshots es) = [0..<length es]"
  "s \<in> set (snapshots es) \<longleftrightarrow>
     (\<exists>i<length es. s = \<lparr>s_index = i, s_name = e_name (es ! i), s_state = state_at es i\<rparr>)"
  by (auto simp: snapshots_def comp_def)

lemma map_index_filter_snapshots:
  "map s_index (filter P (snapshots es)) =
     filter (\<lambda>i. P \<lparr>s_index = i, s_name = e_name (es ! i), s_state = state_at es i\<rparr>) [0..<length es]"
  by (simp add: snapshots_def filter_map comp_def)

lemma distinct_snapshot_indices: "distinct (map s_index (filter P (rev (snapshots es))))"
proof -
  have "distinct (map s_index (filter P (snapshots es)))"
    by (simp add: map_index_filter_snapshots)
  then show ?thesis by (metis distinct_rev rev_filter rev_map)
qed

lemma list_all2_outcomes:
  assumes "list_all2 (\<lambda>s r. f s = (if g r then A else B)) ss rs" and "A \<noteq> B"
  shows "\<forall>s\<in>set ss. f s \<in> {A, B}" and "(\<forall>s\<in>set ss. f s = A) \<longleftrightarrow> (\<forall>r\<in>set rs. g r)"
  using assms by (induction rule: list_all2_induct) (auto split: if_splits)

lemma stop_filtered_spec:
  assumes "stop_loop env (filter P (rev (snapshots es))) (es, h) = ((es', h'), rs)"
  defines "is \<equiv> filter (\<lambda>i. P \<lparr>s_index = i, s_name = e_name (es ! i), s_state = state_at es i\<rparr>) [0..<length es]"
  shows "h' = h @ map StopCall (rev is)" "length es' = length es" "map e_name es' = map e_name es"
    "\<And>j. j \<notin> set is \<Longrightarrow> es' ! j = es ! j"
    "\<And>j. j \<in> set is \<Longrightarrow> state_at es' j \<in> {Stopped, Failed}"
    "(\<forall>j\<in>set is. state_at es' j = Stopped) \<longleftrightarrow> failures_of rs = []"
proof -
  let ?ss = "filter P (rev (snapshots es))"
  have idx: "map s_index ?ss = rev is"
    unfolding is_def by (simp add: rev_filter [symmetric] rev_map [symmetric] map_index_filter_snapshots)
  then have mem: "s_index ` set ?ss = set is" by (metis set_map set_rev)
  have spec: "h' = h @ map (StopCall \<circ> s_index) ?ss \<and> length es' = length es \<and> map e_name es' = map e_name es \<and>
         map sr_name rs = map s_name ?ss \<and>
         (\<forall>j. j \<notin> s_index ` set ?ss \<longrightarrow> es' ! j = es ! j) \<and>
         list_all2 (\<lambda>s r. state_at es' (s_index s) = (if sr_error r = None then Stopped else Failed)) ?ss rs"
    using assms(1) by (intro stop_loop_spec [OF distinct_snapshot_indices]) auto
  then show "h' = h @ map StopCall (rev is)" "length es' = length es" "map e_name es' = map e_name es"
    using idx by (simp_all flip: map_map)
  show "es' ! j = es ! j" if "j \<notin> set is" for j using spec mem that by auto
  have all2: "list_all2 (\<lambda>s r. state_at es' (s_index s) = (if sr_error r = None then Stopped else Failed)) ?ss rs"
    using spec by blast
  have "\<forall>s\<in>set ?ss. state_at es' (s_index s) \<in> {Stopped, Failed}"
    using list_all2_outcomes(1) [OF all2] by blast
  then show "state_at es' j \<in> {Stopped, Failed}" if "j \<in> set is" for j
    using that unfolding mem [symmetric] by blast
  have fail: "failures_of rs = [] \<longleftrightarrow> (\<forall>r\<in>set rs. sr_error r = None)"
    by (induction rs) (auto simp: failures_of_def map_filter_simps split: option.split)
  have "(\<forall>s\<in>set ?ss. state_at es' (s_index s) = Stopped) \<longleftrightarrow> (\<forall>r\<in>set rs. sr_error r = None)"
    using list_all2_outcomes(2) [OF all2] by blast
  then show "(\<forall>j\<in>set is. state_at es' j = Stopped) \<longleftrightarrow> failures_of rs = []"
    unfolding fail mem [symmetric] by simp
qed

section \<open>Starting with rollback\<close>

text \<open>With distinct names, a rollback stops exactly the components started by this call, in reverse order.\<close>

lemma rollback_spec:
  assumes dist: "distinct (map e_name es)" and k: "k \<le> length es"
    and run: "\<forall>i\<in>set (filter P [0..<k]). state_at es i = Running"
    and roll: "rollback_started env (map (\<lambda>i. e_name (es ! i)) (filter P [0..<k])) (es, h) = ((es', h'), rs)"
  shows "h' = h @ map StopCall (rev (filter P [0..<k]))" "length es' = length es"
    "\<And>j. j \<notin> set (filter P [0..<k]) \<Longrightarrow> es' ! j = es ! j"
    "\<And>j. j \<in> set (filter P [0..<k]) \<Longrightarrow> state_at es' j \<in> {Stopped, Failed}"
proof -
  let ?names = "map (\<lambda>i. e_name (es ! i)) (filter P [0..<k])"
  have "(e_name (es ! i) \<in> set ?names \<and> should_stop (state_at es i)) \<longleftrightarrow> i < k \<and> P i" if "i < length es" for i
  proof -
    have "e_name (es ! i) = e_name (es ! j) \<longleftrightarrow> i = j" if "j < k" for j
      using dist \<open>i < length es\<close> that k by (simp add: distinct_conv_nth) (metis le_trans less_le_trans nth_map)
    then show ?thesis using run by auto
  qed
  then have "filter (\<lambda>i. e_name (es ! i) \<in> set ?names \<and> should_stop (state_at es i)) [0..<length es] =
      filter (\<lambda>i. i < k \<and> P i) [0..<length es]"
    by (intro filter_cong) auto
  also have "\<dots> = filter P [0..<k]"
  proof -
    have "[0..<length es] = [0..<k] @ [k..<length es]" using k by (metis le_add_diff_inverse upt_add_eq_append zero_le)
    then show ?thesis by (simp add: filter_empty_conv) (rule filter_cong, auto)
  qed
  finally have idx: "filter (\<lambda>i. e_name (es ! i) \<in> set ?names \<and> should_stop (state_at es i)) [0..<length es] =
      filter P [0..<k]" .
  have "stop_loop env (filter (\<lambda>s. s_name s \<in> set ?names \<and> should_stop (s_state s)) (rev (snapshots es))) (es, h) =
      ((es', h'), rs)"
    using roll by (simp add: rollback_started_def)
  note spec = stop_filtered_spec [OF this, unfolded snapshot.simps idx]
  show "h' = h @ map StopCall (rev (filter P [0..<k]))" "length es' = length es"
    by (rule spec)+
  show "\<And>j. j \<notin> set (filter P [0..<k]) \<Longrightarrow> es' ! j = es ! j"
    "\<And>j. j \<in> set (filter P [0..<k]) \<Longrightarrow> state_at es' j \<in> {Stopped, Failed}"
    by (erule spec)+
qed

definition settled :: "entry list \<Rightarrow> bool" where
  "settled es \<longleftrightarrow> (\<forall>e\<in>set es. can_start (e_state e) \<or> e_state e = Running)"

text \<open>
  The two ways a start can end, relative to the entries \<open>es0\<close> at its beginning and the history \<open>h0\<close>:
  all startable components were started in order, or the start of component \<open>j\<close> failed.
\<close>

abbreviation startable :: "entry list \<Rightarrow> nat \<Rightarrow> bool" where
  "startable es i \<equiv> can_start (state_at es i)"

definition all_started :: "entry list \<Rightarrow> lifecycle_call list \<Rightarrow> entry list \<Rightarrow> lifecycle_call list \<Rightarrow> bool" where
  "all_started es0 h0 es' h' \<longleftrightarrow>
     h' = h0 @ map StartCall (filter (startable es0) [0..<length es0]) \<and>
     length es' = length es0 \<and> (\<forall>i<length es0. state_at es' i = Running)"

definition rolled_back :: "entry list \<Rightarrow> lifecycle_call list \<Rightarrow> nat \<Rightarrow> entry list \<Rightarrow> lifecycle_call list \<Rightarrow> bool" where
  "rolled_back es0 h0 j es' h' \<longleftrightarrow>
     j < length es0 \<and> startable es0 j \<and> length es' = length es0 \<and>
     (\<exists>cleanup \<in> {[], [StopCall j]}.
        h' = h0 @ map StartCall (filter (startable es0) [0..<j] @ [j]) @ cleanup @
             map StopCall (rev (filter (startable es0) [0..<j]))) \<and>
     state_at es' j = Failed \<and>
     (\<forall>i<j. startable es0 i \<longrightarrow> state_at es' i \<in> {Stopped, Failed}) \<and>
     (\<forall>i<length es0. i \<noteq> j \<and> \<not> (i < j \<and> startable es0 i) \<longrightarrow> es' ! i = es0 ! i)"

text \<open>The entries after the first \<open>k\<close> components have been dealt with.\<close>

definition started_upto :: "entry list \<Rightarrow> nat \<Rightarrow> entry list \<Rightarrow> bool" where
  "started_upto es0 k es \<longleftrightarrow>
     length es = length es0 \<and> map e_name es = map e_name es0 \<and>
     (\<forall>i<length es0. es ! i = (if i < k \<and> startable es0 i then (es0 ! i)\<lparr>e_state := Running\<rparr> else es0 ! i))"

lemma started_upto_step:
  assumes "started_upto es0 k es" and "k < length es0" and "startable es0 k"
  shows "started_upto es0 (Suc k) (set_state k Running (set_state k Starting es))"
  using assms by (auto simp: started_upto_def set_state_def nth_list_update less_Suc_eq map_update list_update_same_conv)

lemma started_upto_skip:
  assumes "started_upto es0 k es" and "\<not> startable es0 k"
  shows "started_upto es0 (Suc k) es"
  using assms by (auto simp: started_upto_def less_Suc_eq)

lemma failed_start_rolls_back:
  assumes upto: "started_upto es0 k es" and k: "k < length es0" "startable es0 k"
    and dist: "distinct (map e_name es0)" and cl: "cleanup \<in> {[], [StopCall k]}"
    and roll: "rollback_started env (map (\<lambda>i. e_name (es0 ! i)) (filter (startable es0) [0..<k]))
      (set_state k Failed (set_state k Starting es),
       (h0 @ map StartCall (filter (startable es0) [0..<k])) @ [StartCall k] @ cleanup) = ((es', h'), rs)"
  shows "rolled_back es0 h0 k es' h'"
proof -
  let ?S = "filter (startable es0) [0..<k]" and ?esf = "set_state k Failed (set_state k Starting es)"
  have nm: "map e_name ?esf = map e_name es0" and len: "length ?esf = length es0"
    using upto by (simp_all add: started_upto_def)
  then have names: "map (\<lambda>i. e_name (es0 ! i)) ?S = map (\<lambda>i. e_name (?esf ! i)) ?S"
    using k(1) by (intro map_cong) (auto simp: list_eq_iff_nth_eq)
  have run: "\<forall>i\<in>set ?S. state_at ?esf i = Running"
    using upto k by (auto simp: started_upto_def)
  note roll' = rollback_spec [of ?esf k "startable es0", OF _ _ run roll [unfolded names]]
  have d: "distinct (map e_name ?esf)" "k \<le> length ?esf" using dist nm len k by simp_all
  have other: "es' ! i = es0 ! i" if "i < length es0" "i \<noteq> k" "\<not> (i < k \<and> startable es0 i)" for i
    using roll'(3) [OF d, of i] that upto by (auto simp: started_upto_def)
  have "state_at es' k = Failed" using roll'(3) [OF d, of k] k upto by (simp add: started_upto_def)
  moreover have "state_at es' i \<in> {Stopped, Failed}" if "i < k" "startable es0 i" for i
    using roll'(4) [OF d, of i] that by simp
  moreover have "h' = h0 @ map StartCall (?S @ [k]) @ cleanup @ map StopCall (rev ?S)"
    using roll'(1) [OF d] by simp
  ultimately show ?thesis
    unfolding rolled_back_def using k roll'(2) [OF d] len other cl by auto
qed

lemma snapshots_drop:
  assumes "k < length es0"
  shows "drop k (snapshots es0) =
    \<lparr>s_index = k, s_name = e_name (es0 ! k), s_state = state_at es0 k\<rparr> # drop (Suc k) (snapshots es0)"
  using assms by (simp add: snapshots_def drop_map upt_conv_Cons)

lemma start_loop_spec:
  assumes dist: "distinct (map e_name es0)" and set: "settled es0"
  shows "k \<le> length es0 \<Longrightarrow> started_upto es0 k es \<Longrightarrow>
    h = h0 @ map StartCall (filter (startable es0) [0..<k]) \<Longrightarrow>
    start_loop env (drop k (snapshots es0)) (map (\<lambda>i. e_name (es0 ! i)) (filter (startable es0) [0..<k]))
      (es, h) = ((es', h'), r) \<Longrightarrow>
    (case r of Inr _ \<Rightarrow> all_started es0 h0 es' h' | Inl _ \<Rightarrow> \<exists>j. rolled_back es0 h0 j es' h')"
proof (induction "length es0 - k" arbitrary: k es h)
  case 0
  then have "k = length es0" by simp
  moreover from this 0 have "r = Inr ()" "es' = es" "h' = h" by (auto simp: snapshots_def)
  moreover have "state_at es i = Running" if "i < length es0" for i
    using 0(3) that set nth_mem [OF that] \<open>k = length es0\<close>
    by (auto simp: started_upto_def settled_def)
  ultimately show ?case using 0 by (simp add: all_started_def started_upto_def)
next
  case (Suc m)
  then have k: "k < length es0" by simp
  let ?S = "filter (startable es0) [0..<k]" and ?es1 = "set_state k Starting es"
  let ?names = "map (\<lambda>i. e_name (es0 ! i)) ?S"
  have m: "m = length es0 - Suc k" using Suc.hyps(2) by simp
  note IH = Suc.hyps(1) [of "Suc k", OF m]
  show ?case
  proof (cases "startable es0 k")
    case True
    show ?thesis
    proof (cases "env h (StartCall k)")
      case CallOk
      then have "start_loop env (drop (Suc k) (snapshots es0)) (?names @ [e_name (es0 ! k)])
          (set_state k Running ?es1, h @ [StartCall k]) = ((es', h'), r)"
        using Suc.prems(4) True by (simp add: snapshots_drop [OF k] Let_def)
      with IH [of "set_state k Running ?es1" "h @ [StartCall k]"] started_upto_step [OF Suc.prems(2) k True]
        Suc.prems(3) k True
      show ?thesis by simp
    next
      case (CallErr e)
      then obtain rs where "rollback_started env ?names
          (set_state k Failed ?es1, (h0 @ map StartCall ?S) @ [StartCall k] @ []) = ((es', h'), rs)" "\<not> is_ok r"
        using Suc.prems(3,4) True by (auto simp: snapshots_drop [OF k] Let_def split: prod.splits)
      with failed_start_rolls_back [OF Suc.prems(2) k True dist, of "[]" env h0] show ?thesis
        by (auto simp: is_ok_def split: sum.splits)
    next
      case CallTimedOut
      then obtain rs where "rollback_started env ?names
          (set_state k Failed ?es1, (h0 @ map StartCall ?S) @ [StartCall k] @ [StopCall k]) = ((es', h'), rs)"
          "\<not> is_ok r"
        using Suc.prems(3,4) True by (auto simp: snapshots_drop [OF k] Let_def split: prod.splits)
      with failed_start_rolls_back [OF Suc.prems(2) k True dist, of "[StopCall k]" env h0] show ?thesis
        by (auto simp: is_ok_def split: sum.splits)
    qed
  next
    case False
    then have "state_at es0 k = Running" using set k nth_mem [OF k] by (auto simp: settled_def)
    then have "start_loop env (drop (Suc k) (snapshots es0)) ?names (es, h) = ((es', h'), r)"
      using Suc.prems(4) by (simp add: snapshots_drop [OF k])
    with IH [of es h] started_upto_skip [OF Suc.prems(2) False] Suc.prems(3) k False show ?thesis by simp
  qed
qed

lemma start_all_spec:
  assumes "distinct (map e_name es)" and "settled es" and "start_all env (es, h) = ((es', h'), r)"
  shows "case r of Inr _ \<Rightarrow> all_started es h es' h' | Inl _ \<Rightarrow> \<exists>j. rolled_back es h j es' h'"
  using start_loop_spec [OF assms(1,2), of 0 es h h env] assms(3)
  by (simp add: started_upto_def start_all_def)

lemma stop_all_spec:
  assumes "stop_all env (es, h) = ((es', h'), r)"
  defines "running \<equiv> filter (\<lambda>i. state_at es i = Running) [0..<length es]"
  shows "h' = h @ map StopCall (rev running)" "length es' = length es"
    "\<And>i. i < length es \<Longrightarrow> state_at es' i \<noteq> Running"
    "\<And>i. i < length es \<Longrightarrow> i \<notin> set running \<Longrightarrow> es' ! i = es ! i"
    "is_ok r \<longleftrightarrow> (\<forall>i\<in>set running. state_at es' i = Stopped)"
proof -
  have stop: "should_stop s \<longleftrightarrow> s = Running" for s by (cases s) auto
  obtain rs where loop: "stop_loop env (filter (\<lambda>s. should_stop (s_state s)) (rev (snapshots es))) (es, h) =
      ((es', h'), rs)" and r: "is_ok r \<longleftrightarrow> failures_of rs = []"
    using assms(1) by (auto simp: stop_all_def stop_all_detailed_def split: prod.splits)
  note spec = stop_filtered_spec [OF loop, unfolded snapshot.simps stop, folded running_def]
  show "state_at es' i \<noteq> Running" if "i < length es" for i
    using spec(4) [of i] spec(5) [of i] that by (cases "i \<in> set running") (auto simp: running_def)
  show "h' = h @ map StopCall (rev running)" "length es' = length es"
    "is_ok r \<longleftrightarrow> (\<forall>i\<in>set running. state_at es' i = Stopped)" using spec r by auto
  show "es' ! i = es ! i" if "i < length es" "i \<notin> set running" for i using spec(4) that by auto
qed

section \<open>Properties of the registry\<close>

text \<open>
  C12. \<^verbatim>\<open>start_all\<close> is all or nothing. If it succeeds, exactly the startable components were started, in
  registration order, and every component runs. If it fails, at some component \<open>j\<close>, then no call was
  made after \<open>j\<close>, every component started by this call was stopped again, in reverse order, and is no
  longer running, \<open>j\<close> is marked failed (and was stopped first if it timed out), and all
  other components, those running before included, are untouched.
\<close>

theorem start_all_or_nothing:
  assumes "distinct (map e_name es)" and "settled es"
    and "start_all env (es, h) = ((es', h'), r)"
  shows "case r of
           Inr _ \<Rightarrow> all_started es h es' h'
         | Inl _ \<Rightarrow> \<exists>j. rolled_back es h j es' h'"
  by (rule start_all_spec [OF assms])

text \<open>Three components; the third fails to start.\<close>

definition sample_registry :: "entry list" where
  "sample_registry = register ''api'' (register ''cache'' (register ''db'' []))"

definition third_fails :: lifecycle_env where
  "third_fails _ c = (if c = StartCall 2 then CallErr (service_unavailable ''api'') else CallOk)"

theorem start_all_or_nothing_witness:
  "\<exists>es' h' e j. start_all third_fails (sample_registry, []) = ((es', h'), Inl e) \<and>
     h' = [StartCall 0, StartCall 1, StartCall 2, StopCall 1, StopCall 0] \<and>
     rolled_back sample_registry [] j es' h'"
proof -
  have ok: "distinct (map e_name sample_registry)" "settled sample_registry" by code_simp+
  obtain es' h' r where run: "start_all third_fails (sample_registry, []) = ((es', h'), r)" by (metis surj_pair)
  have "snd (fst (start_all third_fails (sample_registry, []))) =
      [StartCall 0, StartCall 1, StartCall 2, StopCall 1, StopCall 0]"
    "\<not> is_ok (snd (start_all third_fails (sample_registry, [])))"
    by code_simp+
  with run have "h' = [StartCall 0, StartCall 1, StartCall 2, StopCall 1, StopCall 0]" "\<not> is_ok r" by simp_all
  with start_all_or_nothing [OF ok run] run show ?thesis by (cases r) auto
qed



text \<open>
  A rollback goes by name and a refusal does not roll back. When the registry holds a running
  component with the same name as one started by the failing call, \<^verbatim>\<open>start_all\<close> stops the
  running one as well. When a later component is neither startable nor running, \<^verbatim>\<open>start_all\<close> returns the
  conflict error and leaves the components it has just started running.
\<close>

lemma start_all_rollback_gaps:
  "(\<exists>env. fst (start_all env ([\<lparr>e_name = n, e_state = Running\<rparr>, \<lparr>e_name = n, e_state = Created\<rparr>,
                               \<lparr>e_name = m, e_state = Created\<rparr>], [])) =
      ([\<lparr>e_name = n, e_state = Stopped\<rparr>, \<lparr>e_name = n, e_state = Stopped\<rparr>, \<lparr>e_name = m, e_state = Failed\<rparr>],
       [StartCall 1, StartCall 2, StopCall 1, StopCall 0])) \<and>
   (\<exists>e. start_all (\<lambda>_ _. CallOk)
      ([\<lparr>e_name = n, e_state = Created\<rparr>, \<lparr>e_name = m, e_state = Starting\<rparr>], []) =
      (([\<lparr>e_name = n, e_state = Running\<rparr>, \<lparr>e_name = m, e_state = Starting\<rparr>], [StartCall 0]), Inl e) \<and>
      err_code e = Conflict)"
proof
  let ?env = "\<lambda>_ c. if c = StartCall 2 then CallErr (service_unavailable m) else CallOk"
  have "fst (start_all ?env ([\<lparr>e_name = n, e_state = Running\<rparr>, \<lparr>e_name = n, e_state = Created\<rparr>,
                               \<lparr>e_name = m, e_state = Created\<rparr>], [])) =
      ([\<lparr>e_name = n, e_state = Stopped\<rparr>, \<lparr>e_name = n, e_state = Stopped\<rparr>, \<lparr>e_name = m, e_state = Failed\<rparr>],
       [StartCall 1, StartCall 2, StopCall 1, StopCall 0])"
    by (simp add: start_all_def snapshots_def upt_rec Let_def rollback_started_def set_state_def stop_one_def
        split: prod.split)
  then show "\<exists>env. fst (start_all env ([\<lparr>e_name = n, e_state = Running\<rparr>, \<lparr>e_name = n, e_state = Created\<rparr>,
                               \<lparr>e_name = m, e_state = Created\<rparr>], [])) =
      ([\<lparr>e_name = n, e_state = Stopped\<rparr>, \<lparr>e_name = n, e_state = Stopped\<rparr>, \<lparr>e_name = m, e_state = Failed\<rparr>],
       [StartCall 1, StartCall 2, StopCall 1, StopCall 0])" by (rule exI [of _ ?env])
  show "\<exists>e. start_all (\<lambda>_ _. CallOk)
      ([\<lparr>e_name = n, e_state = Created\<rparr>, \<lparr>e_name = m, e_state = Starting\<rparr>], []) =
      (([\<lparr>e_name = n, e_state = Running\<rparr>, \<lparr>e_name = m, e_state = Starting\<rparr>], [StartCall 0]), Inl e) \<and>
      err_code e = Conflict"
    by (simp add: start_all_def snapshots_def upt_rec Let_def set_state_def app_error_new_def)
qed

end
