(* ===== verification/Accumulator.thy ===== *)
theory Accumulator
  imports Errors
begin

text \<open>
  Stateful accumulation, \<^verbatim>\<open>core/rskit-stateful/src\<close>: the \<^verbatim>\<open>Store\<close> trait with its in-memory
  implementation, measurers, flush triggers, configuration and settings, and the accumulator itself.
  A store is a record of operations on a state of its own, as behind \<^verbatim>\<open>Box<dyn Store>\<close>; every operation
  of the trait may fail. Time is a sequence of clock readings: an operation is given the index of the
  next reading and returns the index after the ones it made, one for every store call and one for
  every \<^verbatim>\<open>Instant::now()\<close> of its own.

  The contract of the trait is the locale \<open>fifo_store\<close>, over an abstraction of a store state to the list
  of buffered values; the accumulator's lemmas are proved in it and reach the code through the
  interpretation on the in-memory store.
\<close>

section \<open>Stores\<close>

record ('v, 's) store =
  st_append :: "nat \<Rightarrow> 'v \<Rightarrow> 's \<Rightarrow> 's \<times> unit app_result"
  st_pop_oldest :: "nat \<Rightarrow> 's \<Rightarrow> 's \<times> 'v option app_result"
  st_snapshot :: "nat \<Rightarrow> 's \<Rightarrow> 's \<times> 'v list app_result"
  st_flush :: "nat \<Rightarrow> 's \<Rightarrow> 's \<times> 'v list app_result"
  st_size :: "nat \<Rightarrow> 's \<Rightarrow> 's \<times> nat app_result"
  st_touch :: "nat \<Rightarrow> 's \<Rightarrow> 's \<times> unit app_result"
  st_last_activity :: "nat \<Rightarrow> 's \<Rightarrow> 's \<times> nat app_result"
  st_close :: "nat \<Rightarrow> 's \<Rightarrow> 's \<times> unit app_result"

record 'v memory_store =
  ms_values :: "'v list"
  ms_last_activity :: nat

definition memory_store_new :: "nat \<Rightarrow> 'v memory_store" where
  "memory_store_new now = \<lparr>ms_values = [], ms_last_activity = now\<rparr>"

definition ms_append :: "nat \<Rightarrow> 'v \<Rightarrow> 'v memory_store \<Rightarrow> 'v memory_store \<times> unit app_result" where
  "ms_append now v s = (s\<lparr>ms_values := ms_values s @ [v], ms_last_activity := now\<rparr>, Inr ())"

definition ms_pop_oldest :: "nat \<Rightarrow> 'v memory_store \<Rightarrow> 'v memory_store \<times> 'v option app_result" where
  "ms_pop_oldest now s =
     (case ms_values s of
        [] \<Rightarrow> (s, Inr None)
      | v # vs \<Rightarrow> (s\<lparr>ms_values := vs, ms_last_activity := now\<rparr>, Inr (Some v)))"

definition ms_snapshot :: "nat \<Rightarrow> 'v memory_store \<Rightarrow> 'v memory_store \<times> 'v list app_result" where
  "ms_snapshot now s = (s, Inr (ms_values s))"

definition ms_flush :: "nat \<Rightarrow> 'v memory_store \<Rightarrow> 'v memory_store \<times> 'v list app_result" where
  "ms_flush now s = (s\<lparr>ms_values := [], ms_last_activity := now\<rparr>, Inr (ms_values s))"

definition ms_size :: "nat \<Rightarrow> 'v memory_store \<Rightarrow> 'v memory_store \<times> nat app_result" where
  "ms_size now s = (s, Inr (length (ms_values s)))"

definition ms_touch :: "nat \<Rightarrow> 'v memory_store \<Rightarrow> 'v memory_store \<times> unit app_result" where
  "ms_touch now s = (s\<lparr>ms_last_activity := now\<rparr>, Inr ())"

definition ms_activity :: "nat \<Rightarrow> 'v memory_store \<Rightarrow> 'v memory_store \<times> nat app_result" where
  "ms_activity now s = (s, Inr (ms_last_activity s))"

definition ms_close :: "nat \<Rightarrow> 'v memory_store \<Rightarrow> 'v memory_store \<times> unit app_result" where
  "ms_close now s = (s\<lparr>ms_values := []\<rparr>, Inr ())"

definition memory_store_ops :: "('v, 'v memory_store) store" where
  "memory_store_ops =
     \<lparr>st_append = ms_append, st_pop_oldest = ms_pop_oldest, st_snapshot = ms_snapshot,
      st_flush = ms_flush, st_size = ms_size, st_touch = ms_touch,
      st_last_activity = ms_activity, st_close = ms_close\<rparr>"

section \<open>Measurers, triggers and configuration\<close>

definition count_measure :: "'v list \<Rightarrow> nat" where
  "count_measure values = length values"

definition byte_size_measure :: "('v \<Rightarrow> char list) \<Rightarrow> 'v list \<Rightarrow> nat" where
  "byte_size_measure as_ref values = sum_list (map (\<lambda>v. length (as_ref v)) values)"

datatype trigger =
    SizeTrigger nat
  | ByteSizeTrigger nat
  | TimeTrigger nat

fun trigger_name :: "trigger \<Rightarrow> string" where
  "trigger_name (SizeTrigger _) = ''size''"
| "trigger_name (ByteSizeTrigger _) = ''byte_size''"
| "trigger_name (TimeTrigger _) = ''time''"

record 'v accumulator_config =
  ac_ttl :: "nat option"
  ac_keep_alive :: bool
  ac_max_size :: "nat option"
  ac_triggers :: "trigger list"
  ac_measurer :: "'v list \<Rightarrow> nat"

definition accumulator_config_default :: "'v accumulator_config" where
  "accumulator_config_default =
     \<lparr>ac_ttl = None, ac_keep_alive = True, ac_max_size = None, ac_triggers = [],
      ac_measurer = count_measure\<rparr>"

definition with_ttl :: "nat \<Rightarrow> 'v accumulator_config \<Rightarrow> 'v accumulator_config" where
  "with_ttl ttl cfg = cfg\<lparr>ac_ttl := Some ttl\<rparr>"

definition without_keep_alive :: "'v accumulator_config \<Rightarrow> 'v accumulator_config" where
  "without_keep_alive cfg = cfg\<lparr>ac_keep_alive := False\<rparr>"

definition with_max_size :: "nat \<Rightarrow> 'v accumulator_config \<Rightarrow> 'v accumulator_config" where
  "with_max_size n cfg = cfg\<lparr>ac_max_size := Some n\<rparr>"

definition with_trigger :: "trigger \<Rightarrow> 'v accumulator_config \<Rightarrow> 'v accumulator_config" where
  "with_trigger t cfg = cfg\<lparr>ac_triggers := ac_triggers cfg @ [t]\<rparr>"

definition with_measurer :: "('v list \<Rightarrow> nat) \<Rightarrow> 'v accumulator_config \<Rightarrow> 'v accumulator_config" where
  "with_measurer m cfg = cfg\<lparr>ac_measurer := m\<rparr>"

datatype trigger_spec = SizeSpec nat | ByteSizeSpec nat | TimeSpec nat

fun trigger_spec_build :: "trigger_spec \<Rightarrow> trigger" where
  "trigger_spec_build (SizeSpec n) = SizeTrigger n"
| "trigger_spec_build (ByteSizeSpec n) = ByteSizeTrigger n"
| "trigger_spec_build (TimeSpec d) = TimeTrigger d"

record accumulator_settings =
  as_ttl :: "nat option"
  as_keep_alive :: bool
  as_max_size :: "nat option"
  as_triggers :: "trigger_spec list"

definition accumulator_settings_default :: accumulator_settings where
  "accumulator_settings_default =
     \<lparr>as_ttl = None, as_keep_alive = True, as_max_size = None, as_triggers = []\<rparr>"

definition settings_build :: "accumulator_settings \<Rightarrow> 'v accumulator_config" where
  "settings_build s =
     (let c0 = accumulator_config_default;
          c1 = (case as_ttl s of Some ttl \<Rightarrow> with_ttl ttl c0 | None \<Rightarrow> c0);
          c2 = (if as_keep_alive s then c1 else without_keep_alive c1);
          c3 = (case as_max_size s of Some n \<Rightarrow> with_max_size n c2 | None \<Rightarrow> c2)
      in fold (\<lambda>spec. with_trigger (trigger_spec_build spec)) (as_triggers s) c3)"

section \<open>The accumulator\<close>

record 's accumulator =
  acc_store :: 's
  acc_created_at :: nat
  acc_last_flush :: "nat option"

text \<open>An accumulator with the index of the next clock reading.\<close>

type_synonym clock = "nat \<Rightarrow> nat"
type_synonym 's timed = "'s accumulator \<times> nat"

definition accumulator_new :: "clock \<Rightarrow> 's \<Rightarrow> nat \<Rightarrow> 's timed" where
  "accumulator_new clk s n = (\<lparr>acc_store = s, acc_created_at = clk n, acc_last_flush = None\<rparr>, Suc n)"

text \<open>A call of the store behind the accumulator.\<close>

definition on_store ::
    "(nat \<Rightarrow> 's \<Rightarrow> 's \<times> 'r app_result) \<Rightarrow> clock \<Rightarrow> 's timed \<Rightarrow> 's timed \<times> 'r app_result" where
  "on_store f clk st =
     (case f (clk (snd st)) (acc_store (fst st)) of
        (s, r) \<Rightarrow> (((fst st)\<lparr>acc_store := s\<rparr>, Suc (snd st)), r))"

definition acc_flush ::
    "('v, 's) store \<Rightarrow> clock \<Rightarrow> 's timed \<Rightarrow> 's timed \<times> 'v list app_result" where
  "acc_flush ops clk st =
     (case on_store (st_flush ops) clk st of
        (st1, Inl e) \<Rightarrow> (st1, Inl e)
      | (st1, Inr values) \<Rightarrow>
          (((fst st1)\<lparr>acc_last_flush := Some (clk (snd st1))\<rparr>, Suc (snd st1)), Inr values))"

definition acc_size :: "('v, 's) store \<Rightarrow> clock \<Rightarrow> 's timed \<Rightarrow> 's timed \<times> nat app_result" where
  "acc_size ops clk st = on_store (st_size ops) clk st"

definition acc_measure ::
    "('v, 's) store \<Rightarrow> 'v accumulator_config \<Rightarrow> clock \<Rightarrow> 's timed \<Rightarrow> 's timed \<times> nat app_result" where
  "acc_measure ops cfg clk st =
     (case on_store (st_snapshot ops) clk st of
        (st1, Inl e) \<Rightarrow> (st1, Inl e)
      | (st1, Inr values) \<Rightarrow> (st1, Inr (ac_measurer cfg values)))"

definition acc_is_expired ::
    "('v, 's) store \<Rightarrow> 'v accumulator_config \<Rightarrow> clock \<Rightarrow> 's timed \<Rightarrow> 's timed \<times> bool app_result" where
  "acc_is_expired ops cfg clk st =
     (case ac_ttl cfg of
        None \<Rightarrow> (st, Inr False)
      | Some ttl \<Rightarrow>
          (case (if ac_keep_alive cfg then on_store (st_last_activity ops) clk st
                 else (st, Inr (acc_created_at (fst st)))) of
             (st1, Inl e) \<Rightarrow> (st1, Inl e)
           | (st1, Inr reference) \<Rightarrow>
               ((fst st1, Suc (snd st1)), Inr (ttl \<le> clk (snd st1) - reference))))"

definition acc_touch :: "('v, 's) store \<Rightarrow> clock \<Rightarrow> 's timed \<Rightarrow> 's timed \<times> unit app_result" where
  "acc_touch ops clk st = on_store (st_touch ops) clk st"

definition acc_close :: "('v, 's) store \<Rightarrow> clock \<Rightarrow> 's timed \<Rightarrow> 's timed \<times> unit app_result" where
  "acc_close ops clk st = on_store (st_close ops) clk st"

definition flush_reference :: "'s accumulator \<Rightarrow> nat" where
  "flush_reference a = (case acc_last_flush a of Some t \<Rightarrow> t | None \<Rightarrow> acc_created_at a)"

definition elapsed_since_flush :: "clock \<Rightarrow> 's timed \<Rightarrow> 's timed \<times> nat" where
  "elapsed_since_flush clk st =
     ((fst st, Suc (snd st)), clk (snd st) - flush_reference (fst st))"

fun trigger_should_flush ::
    "('v, 's) store \<Rightarrow> 'v accumulator_config \<Rightarrow> clock \<Rightarrow> trigger \<Rightarrow> 's timed \<Rightarrow> 's timed \<times> bool app_result" where
  "trigger_should_flush ops cfg clk (SizeTrigger threshold) st =
     (case acc_size ops clk st of (st1, r) \<Rightarrow> (st1, try_result r (\<lambda>n. Inr (threshold \<le> n))))"
| "trigger_should_flush ops cfg clk (ByteSizeTrigger threshold) st =
     (case acc_measure ops cfg clk st of (st1, r) \<Rightarrow> (st1, try_result r (\<lambda>n. Inr (threshold \<le> n))))"
| "trigger_should_flush ops cfg clk (TimeTrigger interval) st =
     (case elapsed_since_flush clk st of (st1, elapsed) \<Rightarrow> (st1, Inr (interval \<le> elapsed)))"

fun acc_should_flush ::
    "('v, 's) store \<Rightarrow> 'v accumulator_config \<Rightarrow> clock \<Rightarrow> trigger list \<Rightarrow> 's timed \<Rightarrow> 's timed \<times> bool app_result" where
  "acc_should_flush ops cfg clk [] st = (st, Inr False)"
| "acc_should_flush ops cfg clk (t # ts) st =
     (case trigger_should_flush ops cfg clk t st of
        (st1, Inl e) \<Rightarrow> (st1, Inl e)
      | (st1, Inr fires) \<Rightarrow> if fires then (st1, Inr True) else acc_should_flush ops cfg clk ts st1)"

text \<open>The eviction loop. Nothing but the store's contract ends it, so that it is a partial function.\<close>

partial_function (option) enforce_loop ::
    "('v, 's) store \<Rightarrow> 'v accumulator_config \<Rightarrow> clock \<Rightarrow> nat \<Rightarrow> 's timed \<Rightarrow> ('s timed \<times> unit app_result) option" where
  "enforce_loop ops cfg clk max_size st =
     (case acc_measure ops cfg clk st of
        (st1, r) \<Rightarrow>
          (case r of
             Inl e \<Rightarrow> Some (st1, Inl e)
           | Inr m \<Rightarrow>
               if max_size < m then
                 (case on_store (st_pop_oldest ops) clk st1 of
                    (st2, r2) \<Rightarrow>
                      (case r2 of
                         Inl e \<Rightarrow> Some (st2, Inl e)
                       | Inr popped \<Rightarrow>
                           (case popped of
                              None \<Rightarrow> Some (st2, Inr ())
                            | Some v \<Rightarrow> enforce_loop ops cfg clk max_size st2)))
               else Some (st1, Inr ())))"

definition enforce_max_size ::
    "('v, 's) store \<Rightarrow> 'v accumulator_config \<Rightarrow> clock \<Rightarrow> 's timed \<Rightarrow> ('s timed \<times> unit app_result) option" where
  "enforce_max_size ops cfg clk st =
     (case ac_max_size cfg of
        None \<Rightarrow> Some (st, Inr ())
      | Some max_size \<Rightarrow> enforce_loop ops cfg clk max_size st)"

text \<open>The part of \<^verbatim>\<open>append\<close> after the eviction.\<close>

definition append_rest ::
    "('v, 's) store \<Rightarrow> 'v accumulator_config \<Rightarrow> clock \<Rightarrow> 's timed \<Rightarrow> 's timed \<times> 'v list option app_result" where
  "append_rest ops cfg clk st =
     (case acc_should_flush ops cfg clk (ac_triggers cfg) st of
        (st1, Inl e) \<Rightarrow> (st1, Inl e)
      | (st1, Inr fires) \<Rightarrow>
          if fires then
            (case acc_flush ops clk st1 of
               (st2, r) \<Rightarrow> (st2, try_result r (\<lambda>flushed. Inr (if flushed = [] then None else Some flushed))))
          else if ac_keep_alive cfg then
            (case on_store (st_touch ops) clk st1 of (st2, r) \<Rightarrow> (st2, try_result r (\<lambda>_. Inr None)))
          else (st1, Inr None))"

definition acc_append ::
    "('v, 's) store \<Rightarrow> 'v accumulator_config \<Rightarrow> clock \<Rightarrow> 'v \<Rightarrow> 's timed \<Rightarrow>
     ('s timed \<times> 'v list option app_result) option" where
  "acc_append ops cfg clk v st =
     (case on_store (\<lambda>now. st_append ops now v) clk st of
        (st1, Inl e) \<Rightarrow> Some (st1, Inl e)
      | (st1, Inr _) \<Rightarrow>
          (case enforce_max_size ops cfg clk st1 of
             None \<Rightarrow> None
           | Some (st2, Inl e) \<Rightarrow> Some (st2, Inl e)
           | Some (st2, Inr _) \<Rightarrow> Some (append_rest ops cfg clk st2)))"

section \<open>The contract of a store\<close>

text \<open>
  What the trait documents of a successful call, over the list of buffered values, oldest first. A
  failed call promises nothing.
\<close>

locale fifo_store =
  fixes ops :: "('v, 's) store"
    and abs :: "'s \<Rightarrow> 'v list"
  assumes append_ok: "st_append ops t v s = (s', Inr u) \<Longrightarrow> abs s' = abs s @ [v]"
    and pop_ok: "st_pop_oldest ops t s = (s', Inr popped) \<Longrightarrow>
      (case popped of None \<Rightarrow> abs s = [] \<and> abs s' = [] | Some v \<Rightarrow> abs s = v # abs s')"
    and snapshot_ok: "st_snapshot ops t s = (s', Inr vs) \<Longrightarrow> vs = abs s \<and> abs s' = abs s"
    and flush_ok: "st_flush ops t s = (s', Inr vs) \<Longrightarrow> vs = abs s \<and> abs s' = []"
    and size_ok: "st_size ops t s = (s', Inr k) \<Longrightarrow> k = length (abs s) \<and> abs s' = abs s"
    and touch_ok: "st_touch ops t s = (s', Inr u) \<Longrightarrow> abs s' = abs s"
    and activity_ok: "st_last_activity ops t s = (s', Inr i) \<Longrightarrow> abs s' = abs s"

text \<open>A store none of whose operations fails.\<close>

locale reliable_store = fifo_store +
  assumes append_total: "\<exists>s'. st_append ops t v s = (s', Inr ())"
    and pop_total: "\<exists>s' r. st_pop_oldest ops t s = (s', Inr r)"
    and snapshot_total: "\<exists>s' r. st_snapshot ops t s = (s', Inr r)"
    and flush_total: "\<exists>s' r. st_flush ops t s = (s', Inr r)"
    and size_total: "\<exists>s' r. st_size ops t s = (s', Inr r)"
    and touch_total: "\<exists>s'. st_touch ops t s = (s', Inr ())"
    and activity_total: "\<exists>s' r. st_last_activity ops t s = (s', Inr r)"

section \<open>The abstract accumulator\<close>

text \<open>
  What an accumulator promises, over the list of its values and the time of its last flush: after an
  append the oldest values are dropped until the rest fits \<open>max_size\<close>; if a trigger is due then,
  everything is handed out.
\<close>

type_synonym 'v buffer = "'v list \<times> nat"

fun evict :: "('v list \<Rightarrow> nat) \<Rightarrow> nat \<Rightarrow> 'v list \<Rightarrow> 'v list" where
  "evict m k [] = []"
| "evict m k (v # vs) = (if k < m (v # vs) then evict m k vs else v # vs)"

definition evict_opt :: "'v accumulator_config \<Rightarrow> 'v list \<Rightarrow> 'v list" where
  "evict_opt cfg vs = (case ac_max_size cfg of None \<Rightarrow> vs | Some k \<Rightarrow> evict (ac_measurer cfg) k vs)"

fun trigger_due :: "'v accumulator_config \<Rightarrow> nat \<Rightarrow> 'v list \<Rightarrow> trigger \<Rightarrow> bool" where
  "trigger_due cfg elapsed vs (SizeTrigger n) \<longleftrightarrow> n \<le> length vs"
| "trigger_due cfg elapsed vs (ByteSizeTrigger n) \<longleftrightarrow> n \<le> ac_measurer cfg vs"
| "trigger_due cfg elapsed vs (TimeTrigger i) \<longleftrightarrow> i \<le> elapsed"

text \<open>The triggers look at the clock at \<open>t1\<close>, a flush records \<open>t2\<close>.\<close>

definition buffer_append ::
    "'v accumulator_config \<Rightarrow> nat \<Rightarrow> nat \<Rightarrow> 'v \<Rightarrow> 'v buffer \<Rightarrow> 'v buffer \<times> 'v list option" where
  "buffer_append cfg t1 t2 v b =
     (let kept = evict_opt cfg (fst b @ [v]) in
      if list_ex (trigger_due cfg (t1 - snd b) kept) (ac_triggers cfg)
      then (([], t2), if kept = [] then None else Some kept)
      else ((kept, snd b), None))"

definition buffer_of :: "('s \<Rightarrow> 'v list) \<Rightarrow> 's accumulator \<Rightarrow> 'v buffer" where
  "buffer_of f a = (f (acc_store a), flush_reference a)"

lemma suffix_evict: "suffix (evict m k vs) vs"
  by (induction vs) (auto intro: suffix_ConsI)

lemma evict_fits: "evict m k vs = [] \<or> m (evict m k vs) \<le> k"
  by (induction vs) auto

lemma evict_longest: "suffix ys vs \<Longrightarrow> ys \<noteq> [] \<Longrightarrow> m ys \<le> k \<Longrightarrow> suffix ys (evict m k vs)"
  by (induction vs) (auto simp: suffix_Cons split: if_splits)

lemma trigger_due_mono: "trigger_due cfg e vs t \<Longrightarrow> e \<le> e' \<Longrightarrow> trigger_due cfg e' vs t"
  by (cases t) auto

section \<open>Operations over a store that keeps its contract\<close>

text \<open>What every operation but a flush keeps: the times, and that readings only advance.\<close>

definition framed :: "'s timed \<Rightarrow> 's timed \<Rightarrow> bool" where
  "framed st st' \<longleftrightarrow>
     snd st \<le> snd st' \<and> acc_created_at (fst st') = acc_created_at (fst st) \<and>
     acc_last_flush (fst st') = acc_last_flush (fst st)"

lemma framed_refl [simp]: "framed st st"
  by (simp add: framed_def)

lemma framed_trans [trans]: "framed st1 st2 \<Longrightarrow> framed st2 st3 \<Longrightarrow> framed st1 st3"
  by (auto simp: framed_def)

lemma framed_reference: "framed st st' \<Longrightarrow> flush_reference (fst st') = flush_reference (fst st)"
  by (auto simp: framed_def flush_reference_def split: option.split)

lemma framed_le: "framed st st' \<Longrightarrow> snd st \<le> snd st'"
  by (simp add: framed_def)

lemma on_store_frame:
  "on_store f clk st = (st', r) \<Longrightarrow>
     framed st st' \<and> snd st' = Suc (snd st) \<and>
     f (clk (snd st)) (acc_store (fst st)) = (acc_store (fst st'), r)"
  by (auto simp: on_store_def framed_def split: prod.splits)

lemma ex_min_reading:
  fixes clk :: clock
  assumes "n < n'"
  shows "\<exists>i\<in>{n..<n'}. \<forall>j\<in>{n..<n'}. clk i \<le> clk j"
proof -
  have "Min (clk ` {n..<n'}) \<in> clk ` {n..<n'}" using assms by (intro Min_in) auto
  then obtain i where "i \<in> {n..<n'}" "clk i = Min (clk ` {n..<n'})" by auto
  then show ?thesis by (metis Min_le finite_atLeastLessThan finite_imageI image_eqI)
qed

context fifo_store
begin

lemma acc_measure_ok:
  assumes "acc_measure ops cfg clk st = (st', Inr k)"
  shows "k = ac_measurer cfg (abs (acc_store (fst st))) \<and>
     abs (acc_store (fst st')) = abs (acc_store (fst st)) \<and> framed st st' \<and> snd st' = Suc (snd st)"
  using assms
  by (auto simp: acc_measure_def split: prod.splits sum.splits dest!: on_store_frame snapshot_ok)

lemma acc_size_ok:
  assumes "acc_size ops clk st = (st', Inr k)"
  shows "k = length (abs (acc_store (fst st))) \<and>
     abs (acc_store (fst st')) = abs (acc_store (fst st)) \<and> framed st st' \<and> snd st' = Suc (snd st)"
  using assms by (auto simp: acc_size_def dest!: on_store_frame size_ok)

lemma acc_flush_ok:
  assumes "acc_flush ops clk st = (st', Inr vs)"
  shows "vs = abs (acc_store (fst st)) \<and> abs (acc_store (fst st')) = [] \<and>
     acc_created_at (fst st') = acc_created_at (fst st) \<and>
     (\<exists>i. snd st \<le> i \<and> i < snd st' \<and> acc_last_flush (fst st') = Some (clk i))"
  using assms
  by (auto simp: acc_flush_def framed_def split: prod.splits sum.splits dest!: on_store_frame flush_ok
      intro!: exI [of _ "Suc (snd st)"])

lemma enforce_loop_ends:
  "\<exists>st' r. enforce_loop ops cfg clk k st = Some (st', r) \<and>
     (is_ok r \<longrightarrow> framed st st' \<and>
        abs (acc_store (fst st')) = evict (ac_measurer cfg) k (abs (acc_store (fst st))))"
proof (induction "length (abs (acc_store (fst st)))" arbitrary: st rule: less_induct)
  case less
  let ?vs = "abs (acc_store (fst st))"
  obtain st1 r1 where m: "acc_measure ops cfg clk st = (st1, r1)" by (cases "acc_measure ops cfg clk st")
  obtain st2 r2 where p: "on_store (st_pop_oldest ops) clk st1 = (st2, r2)"
    by (cases "on_store (st_pop_oldest ops) clk st1")
  have stop: ?case if "enforce_loop ops cfg clk k st = Some (st', Inl e)" for st' e
    using that by auto
  show ?case
  proof (cases r1)
    case (Inl e)
    with m show ?thesis by (intro stop) (simp add: enforce_loop.simps)
  next
    case (Inr n)
    note m = m [unfolded Inr]
    from acc_measure_ok [OF m] have n: "n = ac_measurer cfg ?vs" and vs1: "abs (acc_store (fst st1)) = ?vs"
      and f1: "framed st st1" by auto
    show ?thesis
    proof (cases "k < n")
      case False
      then have "evict (ac_measurer cfg) k ?vs = ?vs" using n by (cases ?vs) auto
      with False m vs1 f1 show ?thesis by (simp add: enforce_loop.simps)
    next
      case True
      show ?thesis
      proof (cases r2)
        case (Inl e)
        with m p True show ?thesis by (intro stop) (simp add: enforce_loop.simps)
      next
        case (Inr popped)
        note p = p [unfolded Inr]
        from on_store_frame [OF p] have f2: "framed st st2" using f1 framed_trans by blast
        from on_store_frame [OF p]
        have "st_pop_oldest ops (clk (snd st1)) (acc_store (fst st1)) = (acc_store (fst st2), Inr popped)"
          by simp
        note pop = pop_ok [OF this, unfolded vs1]
        show ?thesis
        proof (cases popped)
          case None
          with m p True pop f2 show ?thesis by (simp add: enforce_loop.simps)
        next
          case (Some v)
          with pop have vs: "?vs = v # abs (acc_store (fst st2))" by simp
          then have "evict (ac_measurer cfg) k ?vs = evict (ac_measurer cfg) k (abs (acc_store (fst st2)))"
            using True n by simp
          with less [of st2] vs f2 m p True Some show ?thesis
            by (subst enforce_loop.simps) (auto intro: framed_trans)
        qed
      qed
    qed
  qed
qed

lemma enforce_max_size_ends:
  "\<exists>st' r. enforce_max_size ops cfg clk st = Some (st', r) \<and>
     (is_ok r \<longrightarrow> framed st st' \<and>
        abs (acc_store (fst st')) = evict_opt cfg (abs (acc_store (fst st))))"
proof (cases "ac_max_size cfg")
  case None
  then show ?thesis by (cases st) (simp add: enforce_max_size_def evict_opt_def)
next
  case (Some k)
  with enforce_loop_ends [of cfg clk k st] show ?thesis by (simp add: enforce_max_size_def evict_opt_def)
qed

lemma trigger_should_flush_ok:
  assumes "trigger_should_flush ops cfg clk t st = (st', Inr b)"
  shows "framed st st' \<and> snd st' = Suc (snd st) \<and>
     abs (acc_store (fst st')) = abs (acc_store (fst st)) \<and>
     (b \<longleftrightarrow> trigger_due cfg (clk (snd st) - flush_reference (fst st)) (abs (acc_store (fst st))) t)"
  using assms
  by (cases t)
    (auto simp: try_result_Inr_iff elapsed_since_flush_def framed_def split: prod.splits
      dest!: acc_size_ok acc_measure_ok)

lemma acc_should_flush_ok:
  assumes "acc_should_flush ops cfg clk ts st = (st', Inr b)"
  defines "due \<equiv> \<lambda>e. list_ex (trigger_due cfg e (abs (acc_store (fst st)))) ts"
  shows "framed st st' \<and> abs (acc_store (fst st')) = abs (acc_store (fst st)) \<and>
     (b \<longrightarrow> (\<exists>i. snd st \<le> i \<and> i < snd st' \<and> due (clk i - flush_reference (fst st)))) \<and>
     (\<not> b \<longrightarrow> (\<forall>e. (\<forall>i. snd st \<le> i \<and> i < snd st' \<longrightarrow> e \<le> clk i - flush_reference (fst st)) \<longrightarrow> \<not> due e))"
  using assms(1) unfolding due_def
proof (induction ts arbitrary: st)
  case (Cons t ts)
  obtain st1 r1 where t: "trigger_should_flush ops cfg clk t st = (st1, r1)"
    by (cases "trigger_should_flush ops cfg clk t st")
  then obtain b1 where r1: "r1 = Inr b1" using Cons.prems by (cases r1) auto
  note ok = trigger_should_flush_ok [OF t [unfolded r1]]
  note ref = framed_reference [of st st1]
  show ?case
  proof (cases b1)
    case True
    with Cons.prems t r1 ok show ?thesis by auto
  next
    case False
    with Cons.prems t r1 have rest: "acc_should_flush ops cfg clk ts st1 = (st', Inr b)" by simp
    note IH = Cons.IH [OF rest]
    have le: "snd st < snd st'" using IH ok by (auto dest: framed_le)
    show ?thesis
    proof (cases b)
      case True
      with IH obtain i where "snd st1 \<le> i" "i < snd st'"
        "list_ex (trigger_due cfg (clk i - flush_reference (fst st1)) (abs (acc_store (fst st1)))) ts" by blast
      with IH ok ref True show ?thesis by (auto intro: framed_trans intro!: exI [of _ i])
    next
      case no: False
      have "\<not> trigger_due cfg e (abs (acc_store (fst st))) t"
        if "e \<le> clk (snd st) - flush_reference (fst st)" for e
        using that ok False trigger_due_mono by blast
      with IH ok ref le no show ?thesis by (auto intro: framed_trans)
    qed
  qed
qed simp

lemma append_rest_ok:
  assumes "append_rest ops cfg clk st = (st', Inr res)" and "n < snd st"
  defines "kept \<equiv> abs (acc_store (fst st))"
  shows "acc_created_at (fst st') = acc_created_at (fst st) \<and>
    (\<exists>i j. {i, j} \<subseteq> {n..<snd st'} \<and>
      (if list_ex (trigger_due cfg (clk i - flush_reference (fst st)) kept) (ac_triggers cfg)
       then (([], clk j), if kept = [] then None else Some kept)
       else ((kept, flush_reference (fst st)), None)) =
      ((abs (acc_store (fst st')), flush_reference (fst st')), res))"
proof -
  obtain st1 b where sf: "acc_should_flush ops cfg clk (ac_triggers cfg) st = (st1, Inr b)"
    using assms(1) by (auto simp: append_rest_def split: prod.splits sum.splits)
  note ok = acc_should_flush_ok [OF sf]
  show ?thesis
  proof (cases b)
    case True
    with sf assms(1) obtain vs where fl: "acc_flush ops clk st1 = (st', Inr vs)"
      and res: "res = (if vs = [] then None else Some vs)"
      by (auto simp: append_rest_def try_result_Inr_iff split: prod.splits)
    from ok True obtain i where i: "snd st \<le> i" "i < snd st1"
      "list_ex (trigger_due cfg (clk i - flush_reference (fst st)) kept) (ac_triggers cfg)"
      by (auto simp: kept_def)
    from acc_flush_ok [OF fl] obtain j where j: "snd st1 \<le> j" "j < snd st'"
      "acc_last_flush (fst st') = Some (clk j)" by blast
    have "{i, j} \<subseteq> {n..<snd st'}" using i j ok assms(2) by (auto dest: framed_le)
    with i j res acc_flush_ok [OF fl] ok show ?thesis
      by (intro conjI exI [of _ i] exI [of _ j]) (auto simp: kept_def framed_def flush_reference_def)
  next
    case False
    have st': "framed st1 st' \<and> abs (acc_store (fst st')) = abs (acc_store (fst st1)) \<and> res = None"
      using sf assms(1) False
      by (auto simp: append_rest_def try_result_Inr_iff split: prod.splits if_splits
          dest!: on_store_frame touch_ok)
    have le: "snd st \<le> snd st1" "snd st1 \<le> snd st'" using ok st' by (auto dest: framed_le)
    obtain i where i: "i \<in> {n..<snd st'}" "\<forall>j\<in>{n..<snd st'}. clk i \<le> clk j"
      using ex_min_reading [of n "snd st'" clk] le assms(2) by auto
    have "clk i - flush_reference (fst st) \<le> clk j - flush_reference (fst st)"
      if "snd st \<le> j \<and> j < snd st1" for j
      using that i(2) le assms(2) by (auto intro: diff_le_mono)
    then have "\<not> list_ex (trigger_due cfg (clk i - flush_reference (fst st)) kept) (ac_triggers cfg)"
      using ok False unfolding kept_def by blast
    with i st' ok framed_reference [of st st1] framed_reference [of st1 st'] show ?thesis
      by (intro conjI exI [of _ i]) (auto simp: kept_def framed_def)
  qed
qed

lemma acc_append_refines:
  "\<exists>st' r. acc_append ops cfg clk v st = Some (st', r) \<and>
    (\<forall>res. r = Inr res \<longrightarrow> acc_created_at (fst st') = acc_created_at (fst st) \<and>
      (\<exists>i j. {i, j} \<subseteq> {snd st..<snd st'} \<and>
        buffer_append cfg (clk i) (clk j) v (buffer_of abs (fst st)) = (buffer_of abs (fst st'), res)))"
proof -
  obtain st1 r1 where a: "on_store (\<lambda>now. st_append ops now v) clk st = (st1, r1)"
    by (cases "on_store (\<lambda>now. st_append ops now v) clk st")
  obtain st2 r2 where e: "enforce_max_size ops cfg clk st1 = Some (st2, r2)"
    and e_ok: "is_ok r2 \<Longrightarrow> framed st1 st2 \<and>
        abs (acc_store (fst st2)) = evict_opt cfg (abs (acc_store (fst st1)))"
    using enforce_max_size_ends by blast
  show ?thesis
  proof (cases "is_ok r1 \<and> is_ok r2")
    case False
    with a e show ?thesis by (cases r1; cases r2) (auto simp: acc_append_def)
  next
    case True
    then have r: "\<exists>u. r1 = Inr u" "\<exists>u. r2 = Inr u" by (cases r1; cases r2; simp)+
    then obtain u where u: "r1 = Inr u" by blast
    from on_store_frame [OF a] u have s1: "framed st st1" "snd st1 = Suc (snd st)"
      "abs (acc_store (fst st1)) = abs (acc_store (fst st)) @ [v]" by (auto dest: append_ok)
    have s2: "framed st1 st2" "abs (acc_store (fst st2)) = evict_opt cfg (abs (acc_store (fst st)) @ [v])"
      using e_ok True s1 by auto
    have lt: "snd st < snd st2" using s1 s2 by (auto dest: framed_le)
    have ref: "flush_reference (fst st2) = flush_reference (fst st)"
      "acc_created_at (fst st2) = acc_created_at (fst st)"
      using s1 s2 by (auto simp: framed_reference framed_def)
    obtain st' r' where rest: "append_rest ops cfg clk st2 = (st', r')" by (cases "append_rest ops cfg clk st2")
    with a e r have app: "acc_append ops cfg clk v st = Some (st', r')" by (auto simp: acc_append_def)
    show ?thesis
      using app append_rest_ok [of cfg clk st2 st' _ "snd st"] rest lt s2 ref
      by (fastforce simp: buffer_append_def buffer_of_def Let_def)
  qed
qed

end

text \<open>A reliable store never makes an operation fail.\<close>

context reliable_store
begin

lemma on_store_total:
  "\<exists>st'. on_store (\<lambda>now. st_append ops now v) clk st = (st', Inr ())"
  "\<exists>st' r. on_store (st_pop_oldest ops) clk st = (st', Inr r)"
  "\<exists>st' r. on_store (st_snapshot ops) clk st = (st', Inr r)"
  "\<exists>st' r. on_store (st_flush ops) clk st = (st', Inr r)"
  "\<exists>st' r. on_store (st_size ops) clk st = (st', Inr r)"
  "\<exists>st'. on_store (st_touch ops) clk st = (st', Inr ())"
  "\<exists>st' r. on_store (st_last_activity ops) clk st = (st', Inr r)"
  using append_total pop_total snapshot_total flush_total size_total touch_total activity_total
  by (auto simp: on_store_def split: prod.splits) (metis Pair_inject)+

lemma acc_measure_total: "\<exists>st' k. acc_measure ops cfg clk st = (st', Inr k)"
  using on_store_total(3) [of clk st] by (auto simp: acc_measure_def)

lemma acc_flush_total: "\<exists>st' vs. acc_flush ops clk st = (st', Inr vs)"
  using on_store_total(4) [of clk st] by (auto simp: acc_flush_def)

lemma enforce_loop_no_error:
  "enforce_loop ops cfg clk k st = Some y \<Longrightarrow> is_ok (snd y)"
proof (induction "length (abs (acc_store (fst st)))" arbitrary: st rule: less_induct)
  case less
  obtain st1 m where m: "acc_measure ops cfg clk st = (st1, Inr m)" using acc_measure_total by blast
  obtain st2 r where p: "on_store (st_pop_oldest ops) clk st1 = (st2, Inr r)" using on_store_total(2) by blast
  have shorter: "length (abs (acc_store (fst st2))) < length (abs (acc_store (fst st)))" if "r = Some v" for v
    using acc_measure_ok [OF m] on_store_frame [OF p] pop_ok that by fastforce
  from less.prems m p show ?case
    by (subst (asm) enforce_loop.simps) (auto split: if_splits option.splits dest: less.hyps [OF shorter])
qed

lemma acc_should_flush_total: "\<exists>st' b. acc_should_flush ops cfg clk ts st = (st', Inr b)"
proof (induction ts arbitrary: st)
  case (Cons t ts)
  have "\<exists>st' b. trigger_should_flush ops cfg clk t st = (st', Inr b)"
    using on_store_total(5) [of clk st] acc_measure_total [of cfg clk st]
    by (cases t) (auto simp: acc_size_def elapsed_since_flush_def)
  with Cons show ?case by (auto split: prod.splits)
qed auto

lemma acc_append_total: "\<exists>st' r. acc_append ops cfg clk v st = Some (st', Inr r)"
proof -
  obtain st1 where a: "on_store (\<lambda>now. st_append ops now v) clk st = (st1, Inr ())"
    using on_store_total(1) by blast
  obtain st2 r2 where e: "enforce_max_size ops cfg clk st1 = Some (st2, r2)"
    using enforce_max_size_ends by blast
  then have "is_ok r2"
    by (auto simp: enforce_max_size_def split: option.splits dest: enforce_loop_no_error)
  then obtain u where r2: "r2 = Inr u" by (cases r2) auto
  obtain st3 b where f: "acc_should_flush ops cfg clk (ac_triggers cfg) st2 = (st3, Inr b)"
    using acc_should_flush_total by blast
  have "\<exists>st' r. append_rest ops cfg clk st2 = (st', Inr r)"
    using f acc_flush_total [of clk st3] on_store_total(6) [of clk st3] by (auto simp: append_rest_def)
  with a e r2 show ?thesis by (auto simp: acc_append_def)
qed

end

interpretation memory: reliable_store memory_store_ops ms_values
  by unfold_locales
    (auto simp: memory_store_ops_def ms_append_def ms_pop_oldest_def ms_snapshot_def ms_flush_def ms_size_def
      ms_touch_def ms_activity_def split: list.splits)

section \<open>Runs of an accumulator\<close>

datatype 'v acc_op = AppendOp 'v | FlushOp | TouchOp | SizeOp | MeasureOp | ExpiredOp

text \<open>One operation and the values it hands to its caller.\<close>

definition handed_out :: "'v list option app_result \<Rightarrow> 'v list" where
  "handed_out r = (case r of Inr (Some vs) \<Rightarrow> vs | _ \<Rightarrow> [])"

fun acc_do ::
    "('v, 's) store \<Rightarrow> 'v accumulator_config \<Rightarrow> clock \<Rightarrow> 'v acc_op \<Rightarrow> 's timed \<Rightarrow> ('s timed \<times> 'v list) option" where
  "acc_do ops cfg clk (AppendOp v) st = map_option (apsnd handed_out) (acc_append ops cfg clk v st)"
| "acc_do ops cfg clk FlushOp st = Some (apsnd (\<lambda>r. handed_out (try_result r (\<lambda>vs. Inr (Some vs)))) (acc_flush ops clk st))"
| "acc_do ops cfg clk TouchOp st = Some (fst (acc_touch ops clk st), [])"
| "acc_do ops cfg clk SizeOp st = Some (fst (acc_size ops clk st), [])"
| "acc_do ops cfg clk MeasureOp st = Some (fst (acc_measure ops cfg clk st), [])"
| "acc_do ops cfg clk ExpiredOp st = Some (fst (acc_is_expired ops cfg clk st), [])"

fun acc_run ::
    "('v, 's) store \<Rightarrow> 'v accumulator_config \<Rightarrow> clock \<Rightarrow> 'v acc_op list \<Rightarrow> 's timed \<Rightarrow> ('s timed \<times> 'v list) option" where
  "acc_run ops cfg clk [] st = Some (st, [])"
| "acc_run ops cfg clk (op # rest) st =
     (case acc_do ops cfg clk op st of
        None \<Rightarrow> None
      | Some (st1, out) \<Rightarrow> map_option (apsnd ((@) out)) (acc_run ops cfg clk rest st1))"

definition appended_by :: "'v acc_op list \<Rightarrow> 'v list" where
  "appended_by os = concat (map (\<lambda>op. case op of AppendOp v \<Rightarrow> [v] | _ \<Rightarrow> []) os)"

definition fits :: "'v accumulator_config \<Rightarrow> 'v list \<Rightarrow> bool" where
  "fits cfg vs \<longleftrightarrow> vs = [] \<or> (case ac_max_size cfg of None \<Rightarrow> True | Some k \<Rightarrow> ac_measurer cfg vs \<le> k)"

lemma fits_Nil [simp]: "fits cfg []"
  by (simp add: fits_def)

lemma fits_evict_opt [simp]: "fits cfg (evict_opt cfg vs)"
  using evict_fits by (auto simp: fits_def evict_opt_def split: option.split)

lemma subseq_evict_opt: "subseq (evict_opt cfg vs) vs"
  by (auto simp: evict_opt_def suffix_evict suffix_imp_subseq split: option.split)

text \<open>What is handed out and what stays buffered is together what the eviction left.\<close>

lemma buffer_append_out:
  "buffer_append cfg t1 t2 v b = (b', r) \<Longrightarrow>
     handed_out (Inr r) @ fst b' = evict_opt cfg (fst b @ [v]) \<and> fits cfg (fst b')"
  by (auto simp: buffer_append_def handed_out_def Let_def split: if_splits)

context reliable_store
begin

lemma acc_do_total:
  assumes "fits cfg (abs (acc_store (fst st)))"
  shows "\<exists>st' out. acc_do ops cfg clk op st = Some (st', out) \<and> fits cfg (abs (acc_store (fst st'))) \<and>
     subseq (out @ abs (acc_store (fst st'))) (abs (acc_store (fst st)) @ appended_by [op]) \<and>
     (ac_max_size cfg = None \<longrightarrow>
        out @ abs (acc_store (fst st')) = abs (acc_store (fst st)) @ appended_by [op])"
proof (cases op)
  case (AppendOp v)
  obtain st' res where app: "acc_append ops cfg clk v st = Some (st', Inr res)" using acc_append_total by blast
  with acc_append_refines [of cfg clk v st] obtain i j where
    "buffer_append cfg (clk i) (clk j) v (buffer_of abs (fst st)) = (buffer_of abs (fst st'), res)" by auto
  from buffer_append_out [OF this] app AppendOp show ?thesis
    by (auto simp: buffer_of_def appended_by_def evict_opt_def subseq_evict_opt [unfolded evict_opt_def])
next
  case FlushOp
  with acc_flush_total [of clk st] acc_flush_ok [of clk st] show ?thesis
    by (auto simp: appended_by_def handed_out_def)
next
  case TouchOp
  then show ?thesis using on_store_total(6) [of clk st] assms
    by (fastforce simp: appended_by_def acc_touch_def dest: on_store_frame touch_ok)
next
  case SizeOp
  then show ?thesis using on_store_total(5) [of clk st] assms
    by (fastforce simp: appended_by_def acc_size_def dest: on_store_frame size_ok)
next
  case MeasureOp
  then show ?thesis using acc_measure_total [of cfg clk st] assms
    by (fastforce simp: appended_by_def dest: acc_measure_ok)
next
  case ExpiredOp
  obtain st1 t where "on_store (st_last_activity ops) clk st = (st1, Inr t)"
    using on_store_total(7) [of clk st] by blast
  moreover from this have "abs (acc_store (fst st1)) = abs (acc_store (fst st))"
    by (auto dest!: on_store_frame activity_ok)
  ultimately show ?thesis using assms ExpiredOp
    by (auto simp: appended_by_def acc_is_expired_def split: option.split)
qed

lemma acc_run_total:
  assumes "fits cfg (abs (acc_store (fst st)))"
  shows "\<exists>st' out. acc_run ops cfg clk os st = Some (st', out) \<and> fits cfg (abs (acc_store (fst st'))) \<and>
     subseq (out @ abs (acc_store (fst st'))) (abs (acc_store (fst st)) @ appended_by os) \<and>
     (ac_max_size cfg = None \<longrightarrow>
        out @ abs (acc_store (fst st')) = abs (acc_store (fst st)) @ appended_by os)"
  using assms
proof (induction os arbitrary: st)
  case (Cons op os)
  let ?b = "\<lambda>st. abs (acc_store (fst st))"
  obtain st1 out1 where do: "acc_do ops cfg clk op st = Some (st1, out1)" "fits cfg (?b st1)"
    "subseq (out1 @ ?b st1) (?b st @ appended_by [op])"
    "ac_max_size cfg = None \<Longrightarrow> out1 @ ?b st1 = ?b st @ appended_by [op]"
    using acc_do_total [OF Cons.prems] by metis
  obtain st2 out2 where run: "acc_run ops cfg clk os st1 = Some (st2, out2)" "fits cfg (?b st2)"
    "subseq (out2 @ ?b st2) (?b st1 @ appended_by os)"
    "ac_max_size cfg = None \<Longrightarrow> out2 @ ?b st2 = ?b st1 @ appended_by os"
    using Cons.IH [OF do(2)] by metis
  have os: "appended_by (op # os) = appended_by [op] @ appended_by os" by (simp add: appended_by_def)
  have "subseq (out1 @ out2 @ ?b st2) ((out1 @ ?b st1) @ appended_by os)"
    using list_emb_append_mono [OF subseq_order.order_refl run(3), of out1] by simp
  also have "subseq ((out1 @ ?b st1) @ appended_by os) ((?b st @ appended_by [op]) @ appended_by os)"
    using list_emb_append_mono [OF do(3) subseq_order.order_refl, of "appended_by os"] by simp
  finally have "subseq ((out1 @ out2) @ ?b st2) (?b st @ appended_by (op # os))" by (simp add: os)
  moreover have "(out1 @ out2) @ ?b st2 = ?b st @ appended_by (op # os)" if "ac_max_size cfg = None"
    using do(4) run(4) that os by (metis append.assoc)
  ultimately show ?case using do(1) run(1,2) by auto
qed (simp add: appended_by_def)

end

section \<open>Properties of the accumulator\<close>

text \<open>
  C14. An accumulator over the in-memory store implements the abstract buffer. \<^verbatim>\<open>append\<close> always returns,
  without an error, and what it does to the buffered values and the time of the last flush, and what it
  returns, is the abstract append: drop the oldest values until the rest fits \<^verbatim>\<open>max_size\<close>, then hand out
  everything if one of the triggers is due at a clock reading made during the call.
\<close>

theorem memory_accumulator_refines_buffer:
  "\<exists>st' r i j. acc_append memory_store_ops cfg clk v st = Some (st', Inr r) \<and>
     {i, j} \<subseteq> {snd st..<snd st'} \<and>
     buffer_append cfg (clk i) (clk j) v (buffer_of ms_values (fst st)) =
       (buffer_of ms_values (fst st'), r)"
  using memory.acc_append_total [of cfg clk v st] memory.acc_append_refines [of cfg clk v st] by auto

text \<open>
  An accumulator over the in-memory store neither invents, duplicates nor reorders values. Whatever
  operations a client calls, what it was handed in all flushes, in order, followed by what is still
  buffered is a subsequence of the values it appended, and all of them when no \<^verbatim>\<open>max_size\<close> is set;
  after every run the buffer fits \<^verbatim>\<open>max_size\<close> or is empty.
\<close>

lemma accumulator_keeps_values:
  "\<exists>st' out. acc_run memory_store_ops cfg clk os (accumulator_new clk (memory_store_new t) n) = Some (st', out) \<and>
     fits cfg (ms_values (acc_store (fst st'))) \<and>
     subseq (out @ ms_values (acc_store (fst st'))) (appended_by os) \<and>
     (ac_max_size cfg = None \<longrightarrow> out @ ms_values (acc_store (fst st')) = appended_by os)"
  using memory.acc_run_total [of cfg "accumulator_new clk (memory_store_new t) n" clk os]
  by (simp add: accumulator_new_def memory_store_new_def)

lemma accumulator_keeps_values_witness:
  "\<exists>st' out. acc_run memory_store_ops (with_trigger (SizeTrigger 2) accumulator_config_default) id
       (map AppendOp [1, 2, 3 :: nat]) (accumulator_new id (memory_store_new 0) 0) = Some (st', out) \<and>
     out @ ms_values (acc_store (fst st')) = [1, 2, 3]"
  using accumulator_keeps_values [of "with_trigger (SizeTrigger 2) accumulator_config_default" id
      "map AppendOp [1, 2, 3 :: nat]" 0 0]
  by (auto simp: appended_by_def with_trigger_def accumulator_config_default_def)

end
