(* ===== verification/Stateful_Manager.thy ===== *)
theory Stateful_Manager
  imports Accumulator "HOL-Library.Multiset"
begin

text \<open>
  The keyed manager of accumulators, \<^verbatim>\<open>core/rskit-stateful/src/manager.rs\<close>. Accumulators are shared
  (\<^verbatim>\<open>Arc\<close>): they live in a heap and the manager's map holds their positions, so that a caller can go on
  using one that the manager has dropped, or close it himself. The history of the closes that the manager makes
  is part of the state. The iteration order of the hash map is an argument.

  The operations are given as functions for one caller, and the same atomic sections, those under the
  manager's lock and those outside it, as the steps of concurrently running sweeps, closes and users.
\<close>

section \<open>State and operations\<close>

record ('k, 's) manager =
  mg_accs :: "('k, nat) hashmap"
  mg_closed :: bool
  mg_heap :: "'s accumulator list"
  mg_reads :: nat
  mg_closes :: "nat list"

record 'k cleanup_report =
  cr_removed :: "'k list"
  cr_error :: "app_error option"

definition into_result :: "'k cleanup_report \<Rightarrow> 'k list app_result" where
  "into_result report = (case cr_error report of Some e \<Rightarrow> Inl e | None \<Rightarrow> Inr (cr_removed report))"

fun aggregate_errors :: "app_error list \<Rightarrow> app_error option" where
  "aggregate_errors [] = None"
| "aggregate_errors (first # others) =
     (let rest = map err_message others in
      if rest = [] then Some first
      else
        let summary = ''(and '' @ show_nat (length rest) @ '' more error(s) during teardown: '' @
                      join ''; '' rest @ '')''
        in Some (hint summary (with_detail ''additional_close_errors'' (JArray (map JString rest)) first)))"

definition manager_new :: "('k, 's) manager" where
  "manager_new = \<lparr>mg_accs = [], mg_closed = False, mg_heap = [], mg_reads = 0, mg_closes = []\<rparr>"

text \<open>The store factory is given the clock reading at which the store is built.\<close>

definition get_or_create ::
    "(nat \<Rightarrow> 's) \<Rightarrow> clock \<Rightarrow> 'k \<Rightarrow> ('k, 's) manager \<Rightarrow> ('k, 's) manager \<times> nat app_result" where
  "get_or_create store_factory clk k mg =
     (if mg_closed mg then (mg, Inl (app_error_new Conflict ''stateful manager is closed''))
      else
        case hm_get (mg_accs mg) k of
          Some i \<Rightarrow> (mg, Inr i)
        | None \<Rightarrow>
            (case accumulator_new clk (store_factory (clk (mg_reads mg))) (Suc (mg_reads mg)) of
               (a, n) \<Rightarrow>
                 (mg\<lparr>mg_accs := hm_insert k (length (mg_heap mg)) (mg_accs mg),
                     mg_heap := mg_heap mg @ [a], mg_reads := n\<rparr>,
                  Inr (length (mg_heap mg)))))"

text \<open>An operation of the accumulator at a heap position.\<close>

definition put_acc :: "nat \<Rightarrow> 's timed \<Rightarrow> ('k, 's) manager \<Rightarrow> ('k, 's) manager" where
  "put_acc i st mg = mg\<lparr>mg_heap := (mg_heap mg)[i := fst st], mg_reads := snd st\<rparr>"

definition on_acc ::
    "nat \<Rightarrow> ('s timed \<Rightarrow> 's timed \<times> 'r) \<Rightarrow> ('k, 's) manager \<Rightarrow> ('k, 's) manager \<times> 'r" where
  "on_acc i f mg = (case f (mg_heap mg ! i, mg_reads mg) of (st, r) \<Rightarrow> (put_acc i st mg, r))"

definition mgr_append ::
    "('v, 's) store \<Rightarrow> 'v accumulator_config \<Rightarrow> (nat \<Rightarrow> 's) \<Rightarrow> clock \<Rightarrow> 'k \<Rightarrow> 'v \<Rightarrow> ('k, 's) manager \<Rightarrow>
     (('k, 's) manager \<times> 'v list option app_result) option" where
  "mgr_append ops cfg store_factory clk k v mg =
     (case get_or_create store_factory clk k mg of
        (mg1, Inl e) \<Rightarrow> Some (mg1, Inl e)
      | (mg1, Inr i) \<Rightarrow>
          (case acc_append ops cfg clk v (mg_heap mg1 ! i, mg_reads mg1) of
             None \<Rightarrow> None
           | Some (st, r) \<Rightarrow> Some (put_acc i st mg1, r)))"

definition mgr_flush ::
    "('v, 's) store \<Rightarrow> clock \<Rightarrow> 'k \<Rightarrow> ('k, 's) manager \<Rightarrow> ('k, 's) manager \<times> 'v list option app_result" where
  "mgr_flush ops clk k mg =
     (case hm_get (mg_accs mg) k of
        Some i \<Rightarrow> (case on_acc i (acc_flush ops clk) mg of (mg1, r) \<Rightarrow> (mg1, try_result r (\<lambda>vs. Inr (Some vs))))
      | None \<Rightarrow> (mg, Inr None))"

definition mgr_size ::
    "('v, 's) store \<Rightarrow> clock \<Rightarrow> 'k \<Rightarrow> ('k, 's) manager \<Rightarrow> ('k, 's) manager \<times> nat app_result" where
  "mgr_size ops clk k mg =
     (case hm_get (mg_accs mg) k of
        Some i \<Rightarrow> on_acc i (acc_size ops clk) mg
      | None \<Rightarrow> (mg, Inr 0))"

definition mgr_keys :: "('k, 's) manager \<Rightarrow> 'k list" where
  "mgr_keys mg = map fst (mg_accs mg)"

text \<open>The sections of a sweep: the expiry check, the claim under the lock, the close outside it.\<close>

definition check_expired ::
    "('v, 's) store \<Rightarrow> 'v accumulator_config \<Rightarrow> clock \<Rightarrow> nat \<Rightarrow> ('k, 's) manager \<Rightarrow>
     ('k, 's) manager \<times> bool app_result" where
  "check_expired ops cfg clk i mg = on_acc i (acc_is_expired ops cfg clk) mg"

definition claim :: "'k \<Rightarrow> ('k, 's) manager \<Rightarrow> ('k, 's) manager \<times> nat option" where
  "claim k mg = (mg\<lparr>mg_accs := hm_remove k (mg_accs mg)\<rparr>, hm_get (mg_accs mg) k)"

definition close_acc ::
    "('v, 's) store \<Rightarrow> clock \<Rightarrow> nat \<Rightarrow> ('k, 's) manager \<Rightarrow> ('k, 's) manager \<times> unit app_result" where
  "close_acc ops clk i mg =
     (case on_acc i (acc_close ops clk) mg of (mg1, r) \<Rightarrow> (mg1\<lparr>mg_closes := mg_closes mg1 @ [i]\<rparr>, r))"

definition error_list :: "'a app_result \<Rightarrow> app_error list" where
  "error_list r = (case r of Inl e \<Rightarrow> [e] | Inr _ \<Rightarrow> [])"

fun sweep_loop ::
    "('v, 's) store \<Rightarrow> 'v accumulator_config \<Rightarrow> clock \<Rightarrow> ('k \<times> nat) list \<Rightarrow> ('k, 's) manager \<Rightarrow>
     ('k, 's) manager \<times> 'k list \<times> app_error list" where
  "sweep_loop ops cfg clk [] mg = (mg, [], [])"
| "sweep_loop ops cfg clk ((k, i) # cs) mg =
     (case check_expired ops cfg clk i mg of
        (mg1, Inl e) \<Rightarrow> (case sweep_loop ops cfg clk cs mg1 of (mg', ks, es) \<Rightarrow> (mg', ks, e # es))
      | (mg1, Inr expired) \<Rightarrow>
          if expired then
            (case claim k mg1 of
               (mg2, None) \<Rightarrow> sweep_loop ops cfg clk cs mg2
             | (mg2, Some j) \<Rightarrow>
                 (case close_acc ops clk j mg2 of
                    (mg3, r) \<Rightarrow>
                      (case sweep_loop ops cfg clk cs mg3 of
                         (mg', ks, es) \<Rightarrow> (mg', k # ks, error_list r @ es))))
          else sweep_loop ops cfg clk cs mg1)"

definition cleanup_expired ::
    "('v, 's) store \<Rightarrow> 'v accumulator_config \<Rightarrow> clock \<Rightarrow> (('k, nat) hashmap \<Rightarrow> ('k \<times> nat) list) \<Rightarrow>
     ('k, 's) manager \<Rightarrow> ('k, 's) manager \<times> 'k cleanup_report" where
  "cleanup_expired ops cfg clk order mg =
     (case sweep_loop ops cfg clk (order (mg_accs mg)) mg of
        (mg', removed, errors) \<Rightarrow> (mg', \<lparr>cr_removed = removed, cr_error = aggregate_errors errors\<rparr>))"

definition drain :: "('k, 's) manager \<Rightarrow> ('k, 's) manager" where
  "drain mg = mg\<lparr>mg_closed := True, mg_accs := []\<rparr>"

fun close_loop ::
    "('v, 's) store \<Rightarrow> clock \<Rightarrow> nat list \<Rightarrow> ('k, 's) manager \<Rightarrow> ('k, 's) manager \<times> app_error list" where
  "close_loop ops clk [] mg = (mg, [])"
| "close_loop ops clk (i # js) mg =
     (case close_acc ops clk i mg of
        (mg1, r) \<Rightarrow> (case close_loop ops clk js mg1 of (mg', es) \<Rightarrow> (mg', error_list r @ es)))"

definition mgr_close ::
    "('v, 's) store \<Rightarrow> clock \<Rightarrow> (('k, nat) hashmap \<Rightarrow> ('k \<times> nat) list) \<Rightarrow>
     ('k, 's) manager \<Rightarrow> ('k, 's) manager \<times> unit app_result" where
  "mgr_close ops clk order mg =
     (case close_loop ops clk (map snd (order (mg_accs mg))) (drain mg) of
        (mg', errors) \<Rightarrow> (mg', case aggregate_errors errors of Some e \<Rightarrow> Inl e | None \<Rightarrow> Inr ()))"

section \<open>Concurrent callers\<close>

text \<open>
  Where a caller is: in a sweep with candidates left, about to claim a key it found expired, holding a
  claimed accumulator it has yet to close, or closing what it drained.
\<close>

datatype 'k caller =
    Sweeping "('k \<times> nat) list"
  | Claiming 'k "('k \<times> nat) list"
  | Claimed nat "('k \<times> nat) list"
  | Closing "nat list"

type_synonym ('k, 's) managed = "('k, 's) manager \<times> 'k caller list"

inductive mgr_step ::
    "('v, 's) store \<Rightarrow> 'v accumulator_config \<Rightarrow> (nat \<Rightarrow> 's) \<Rightarrow> clock \<Rightarrow>
     ('k, 's) managed \<Rightarrow> ('k, 's) managed \<Rightarrow> bool"
  for ops cfg store_factory clk where
  user_get: "mgr_step ops cfg store_factory clk (mg, cs) (fst (get_or_create store_factory clk k mg), cs)"
| user_op: "i < length (mg_heap mg) \<Longrightarrow> acc_do ops cfg clk op (mg_heap mg ! i, mg_reads mg) = Some (st, out) \<Longrightarrow>
    mgr_step ops cfg store_factory clk (mg, cs) (put_acc i st mg, cs)"
| user_close: "i < length (mg_heap mg) \<Longrightarrow>
    mgr_step ops cfg store_factory clk (mg, cs) (fst (on_acc i (acc_close ops clk) mg), cs)"
| sweep_start: "mset order = mset (mg_accs mg) \<Longrightarrow>
    mgr_step ops cfg store_factory clk (mg, cs) (mg, cs @ [Sweeping order])"
| sweep_check: "c < length cs \<Longrightarrow> cs ! c = Sweeping ((k, i) # rest) \<Longrightarrow>
    check_expired ops cfg clk i mg = (mg1, r) \<Longrightarrow>
    mgr_step ops cfg store_factory clk (mg, cs)
      (mg1, cs[c := if r = Inr True then Claiming k rest else Sweeping rest])"
| sweep_claim: "c < length cs \<Longrightarrow> cs ! c = Claiming k rest \<Longrightarrow> claim k mg = (mg1, got) \<Longrightarrow>
    mgr_step ops cfg store_factory clk (mg, cs)
      (mg1, cs[c := case got of None \<Rightarrow> Sweeping rest | Some j \<Rightarrow> Claimed j rest])"
| sweep_close: "c < length cs \<Longrightarrow> cs ! c = Claimed j rest \<Longrightarrow>
    mgr_step ops cfg store_factory clk (mg, cs)
      (fst (close_acc ops clk j mg), cs[c := Sweeping rest])"
| close_start: "mset order = mset (mg_accs mg) \<Longrightarrow>
    mgr_step ops cfg store_factory clk (mg, cs) (drain mg, cs @ [Closing (map snd order)])"
| close_next: "c < length cs \<Longrightarrow> cs ! c = Closing (i # js) \<Longrightarrow>
    mgr_step ops cfg store_factory clk (mg, cs)
      (fst (close_acc ops clk i mg), cs[c := Closing js])"

text \<open>The accumulators a caller has taken out of the map and not closed yet.\<close>

fun owned :: "'k caller \<Rightarrow> nat multiset" where
  "owned (Claimed j _) = {#j#}"
| "owned (Closing js) = mset js"
| "owned _ = {#}"

text \<open>
  Every accumulator ever created is in exactly one place: in the map, with one caller that is
  about to close it, or closed by the manager.
\<close>

definition mgr_inv :: "('k, 's) managed \<Rightarrow> bool" where
  "mgr_inv s \<longleftrightarrow>
     mset [0..<length (mg_heap (fst s))] =
       mset (map snd (mg_accs (fst s))) + (\<Sum>c\<leftarrow>snd s. owned c) + mset (mg_closes (fst s)) \<and>
     hm_wf (mg_accs (fst s)) \<and> (mg_closed (fst s) \<longrightarrow> mg_accs (fst s) = [])"

lemma put_acc_simps [simp]:
  "mg_accs (put_acc i st mg) = mg_accs mg" "mg_closed (put_acc i st mg) = mg_closed mg"
  "length (mg_heap (put_acc i st mg)) = length (mg_heap mg)" "mg_closes (put_acc i st mg) = mg_closes mg"
  by (simp_all add: put_acc_def)

lemma on_acc_simps [simp]:
  "mg_accs (fst (on_acc i f mg)) = mg_accs mg" "mg_closed (fst (on_acc i f mg)) = mg_closed mg"
  "length (mg_heap (fst (on_acc i f mg))) = length (mg_heap mg)"
  "mg_closes (fst (on_acc i f mg)) = mg_closes mg"
  by (simp_all add: on_acc_def split: prod.split)

lemma close_acc_simps [simp]:
  "mg_accs (fst (close_acc ops clk i mg)) = mg_accs mg"
  "mg_closed (fst (close_acc ops clk i mg)) = mg_closed mg"
  "length (mg_heap (fst (close_acc ops clk i mg))) = length (mg_heap mg)"
  "mg_closes (fst (close_acc ops clk i mg)) = mg_closes mg @ [i]"
  by (simp_all add: close_acc_def split_def)

lemma owned_update:
  "c < length cs \<Longrightarrow> (\<Sum>c\<leftarrow>cs[c := x]. owned c) + owned (cs ! c) = (\<Sum>c\<leftarrow>cs. owned c) + owned x"
  by (induction cs arbitrary: c) (auto simp: less_Suc_eq_0_disj ac_simps)

lemma mset_values_insert:
  "k \<notin> hm_keys m \<Longrightarrow> mset (map snd (hm_insert k v m)) = add_mset v (mset (map snd m))"
  by (induction m) auto

lemma distinct_iff_count_le: "distinct xs \<longleftrightarrow> (\<forall>a. count (mset xs) a \<le> 1)"
proof -
  have "(count (mset xs) a \<le> 1) = (count (mset xs) a = (if a \<in> set xs then 1 else 0))" for a
    using count_mset_gt_0 [of a xs] count_mset_0_iff [of xs a]
    by (cases "a \<in> set xs") (auto simp del: count_mset_0_iff count_greater_zero_iff)
  then show ?thesis by (simp add: distinct_count_atmost_1)
qed

lemma hm_remove_absent: "k \<notin> hm_keys m \<Longrightarrow> hm_remove k m = m"
  by (force simp: AList.delete_eq hm_keys_def filter_id_conv)

lemma mset_values_remove:
  "hm_wf m \<Longrightarrow> hm_get m k = Some v \<Longrightarrow>
     mset (map snd m) = add_mset v (mset (map snd (hm_remove k m)))"
proof (induction m)
  case (Cons kv m)
  with hm_remove_absent [of k m] show ?case by (cases "fst kv = k") (auto simp: hm_wf_def hm_keys_def)
qed simp

text \<open>A step of a caller moves at most one accumulator, between the map, the caller and the closed ones.\<close>

lemma mgr_inv_caller:
  assumes "mgr_inv (mg, cs)" and "c < length cs"
    and "length (mg_heap mg1) = length (mg_heap mg)" and "mg_closed mg1 = mg_closed mg"
    and "hm_wf (mg_accs mg1)" and "mg_closed mg \<Longrightarrow> mg_accs mg1 = []"
    and "mset (map snd (mg_accs mg)) + owned (cs ! c) + mset (mg_closes mg) =
         mset (map snd (mg_accs mg1)) + owned x + mset (mg_closes mg1)"
  shows "mgr_inv (mg1, cs[c := x])"
proof -
  let ?A = "mset (map snd (mg_accs mg))" and ?A1 = "mset (map snd (mg_accs mg1))"
  let ?C = "mset (mg_closes mg)" and ?C1 = "mset (mg_closes mg1)"
  let ?S = "\<Sum>c\<leftarrow>cs. owned c" and ?S1 = "\<Sum>c\<leftarrow>cs[c := x]. owned c"
  have "(?A1 + ?S1 + ?C1) + owned (cs ! c) = ?A1 + (?S + owned x) + ?C1"
    using owned_update [OF assms(2), of x] by (simp add: ac_simps)
  also have "\<dots> = (?A1 + owned x + ?C1) + ?S" by (simp add: ac_simps)
  also have "\<dots> = (?A + ?S + ?C) + owned (cs ! c)" using assms(7) by (simp add: ac_simps)
  finally have "?A1 + ?S1 + ?C1 = ?A + ?S + ?C" by (rule add_right_imp_eq)
  with assms show ?thesis by (simp add: mgr_inv_def)
qed

lemma mgr_inv_init: "mgr_inv (manager_new, [])"
  by (simp add: mgr_inv_def manager_new_def)

lemma check_expired_simps:
  assumes "check_expired ops cfg clk i mg = (mg1, r)"
  shows "mg_accs mg1 = mg_accs mg" "mg_closed mg1 = mg_closed mg"
    "length (mg_heap mg1) = length (mg_heap mg)" "mg_closes mg1 = mg_closes mg"
  using on_acc_simps [of i "acc_is_expired ops cfg clk" mg] assms
  by (simp_all add: check_expired_def del: on_acc_simps)

lemma mgr_step_inv:
  "mgr_step ops cfg store_factory clk s s' \<Longrightarrow> mgr_inv s \<Longrightarrow> mgr_inv s'"
proof (induction rule: mgr_step.induct)
  case (user_get mg cs k)
  then show ?case
    by (auto simp: mgr_inv_def get_or_create_def accumulator_new_def hm_get_None_iff mset_values_insert
        atLeastLessThanSuc simp del: mset_map split: option.split)
next
  case (user_op i mg op st out cs)
  then show ?case by (simp add: mgr_inv_def)
next
  case (user_close i mg cs)
  then show ?case by (simp add: mgr_inv_def)
next
  case (sweep_start order mg cs)
  then show ?case by (simp add: mgr_inv_def)
next
  case (sweep_check c cs k i rest mg mg1 r)
  note eqs = check_expired_simps [OF sweep_check(3)]
  show ?case
    by (rule mgr_inv_caller [OF sweep_check(4,1)])
      (use sweep_check eqs in \<open>auto simp: mgr_inv_def\<close>)
next
  case (sweep_claim c cs k rest mg mg1 got)
  then have wf: "hm_wf (mg_accs mg)" and closed: "mg_closed mg \<Longrightarrow> mg_accs mg = []"
    by (simp_all add: mgr_inv_def)
  have "mset (map snd (mg_accs mg)) = mset (map snd (hm_remove k (mg_accs mg)))" if "hm_get (mg_accs mg) k = None"
    using that hm_remove_absent [of k "mg_accs mg"] by (simp add: hm_get_None_iff)
  with sweep_claim closed wf show ?case
    by (intro mgr_inv_caller [OF sweep_claim(4,1)])
      (auto simp: claim_def mset_values_remove [OF wf] simp del: mset_map split: option.split)
next
  case (sweep_close c cs j rest mg)
  then show ?case
    by (intro mgr_inv_caller [OF sweep_close(3,1)]) (auto simp: mgr_inv_def)
next
  case (close_start order mg cs)
  then have "mset (map snd order) = mset (map snd (mg_accs mg))" by (simp add: mset_map)
  with close_start show ?case by (simp add: mgr_inv_def drain_def del: mset_map)
next
  case (close_next c cs i js mg)
  then show ?case
    by (intro mgr_inv_caller [OF close_next(3,1)]) (auto simp: mgr_inv_def)
qed

interpretation managed: invariant_system "\<lambda>s. s = (manager_new, [])" "mgr_step ops cfg store_factory clk" mgr_inv
  for ops :: "('v, 's) store" and cfg store_factory clk
  by unfold_locales (auto simp: mgr_inv_init intro: mgr_step_inv)

abbreviation mgr_reachable ::
    "('v, 's) store \<Rightarrow> 'v accumulator_config \<Rightarrow> (nat \<Rightarrow> 's) \<Rightarrow> clock \<Rightarrow> ('k, 's) managed \<Rightarrow> bool" where
  "mgr_reachable ops cfg store_factory clk \<equiv>
     reach (\<lambda>s. s = (manager_new, [])) (mgr_step ops cfg store_factory clk)"

section \<open>Properties of the manager\<close>

text \<open>
  C15. However sweeps, closes of the manager and users of the accumulators interleave, over any store and any clock: the manager
  closes no accumulator twice and none that it still holds in its map, and once it is closed and no caller is left with an
  accumulator to close, it has closed every accumulator ever created exactly once and creates no further one. Users may do
  with an accumulator they hold what its interface offers; a close of their own comes on top.
\<close>

theorem accumulators_closed_once:
  assumes "mgr_reachable ops cfg store_factory clk (mg, cs)"
  shows "distinct (mg_closes mg) \<and> set (mg_closes mg) \<inter> snd ` set (mg_accs mg) = {} \<and>
    (mg_closed mg \<and> (\<forall>c\<in>set cs. owned c = {#}) \<longrightarrow>
       set (mg_closes mg) = {0..<length (mg_heap mg)} \<and>
       (\<forall>k. \<exists>e. get_or_create store_factory clk k mg = (mg, Inl e) \<and> err_code e = Conflict))"
proof -
  have inv: "mgr_inv (mg, cs)" using managed.inv_reach assms by blast
  let ?place = "mset (map snd (mg_accs mg)) + (\<Sum>c\<leftarrow>cs. owned c) + mset (mg_closes mg)"
  have all: "mset [0..<length (mg_heap mg)] = ?place" using inv by (simp add: mgr_inv_def)
  have once: "count ?place i \<le> 1" for i
    using distinct_iff_count_le [of "[0..<length (mg_heap mg)]"] unfolding all by simp
  have "count (mset (mg_closes mg)) i \<le> 1" for i using once [of i] by simp
  then have "distinct (mg_closes mg)" by (simp add: distinct_iff_count_le)
  moreover have "set (mg_closes mg) \<inter> snd ` set (mg_accs mg) = {}"
  proof -
    have False if "i \<in> set (mg_closes mg)" "i \<in> set (map snd (mg_accs mg))" for i
    proof -
      from that have "count (mset (mg_closes mg)) i \<noteq> 0" "count (mset (map snd (mg_accs mg))) i \<noteq> 0"
        by (simp_all only: count_mset_0_iff not_not)
      with once [of i] show False by (simp del: mset_map)
    qed
    then show ?thesis by auto
  qed
  moreover have "set (mg_closes mg) = {0..<length (mg_heap mg)}" if "mg_closed mg" "\<forall>c\<in>set cs. owned c = {#}"
  proof -
    have "(\<Sum>c\<leftarrow>cs. owned c) = {#}" using that(2) by (induction cs) auto
    moreover have "mg_accs mg = []" using inv that(1) by (simp add: mgr_inv_def)
    ultimately have "mset [0..<length (mg_heap mg)] = mset (mg_closes mg)" using all by simp
    from mset_eq_setD [OF this] show ?thesis by simp
  qed
  ultimately show ?thesis by (auto simp: get_or_create_def app_error_new_def)
qed

text \<open>A sweep over the only accumulator, then a close of the empty manager.\<close>

theorem accumulators_closed_once_witness:
  "\<exists>(mg :: (string, nat memory_store) manager) cs.
     mgr_reachable memory_store_ops (accumulator_config_default :: nat accumulator_config)
       memory_store_new Suc (mg, cs) \<and>
     mg_closed mg \<and> length (mg_heap mg) = 1 \<and> distinct (mg_closes mg) \<and> set (mg_closes mg) = {0}"
proof -
  let ?cfg = "accumulator_config_default :: nat accumulator_config"
  define mg1 where "mg1 = fst (get_or_create memory_store_new Suc ''a'' (manager_new :: (string, nat memory_store) manager))"
  define mg2 where "mg2 = fst (close_acc memory_store_ops Suc 0 (drain mg1))"
  have mg1: "mg_accs mg1 = [(''a'', 0)]" "length (mg_heap mg1) = 1" "mg_closes mg1 = []"
    by (simp_all add: mg1_def get_or_create_def manager_new_def accumulator_new_def)
  have "mgr_reachable memory_store_ops ?cfg memory_store_new Suc (manager_new :: (string, nat memory_store) manager, [])"
    by (rule reach_init) simp
  from reach_step [OF this user_get [of _ _ _ _ _ _ "''a''"]]
  have "mgr_reachable memory_store_ops ?cfg memory_store_new Suc (mg1, [])" by (simp add: mg1_def)
  from reach_step [OF this close_start [of "[(''a'', 0)]"]] mg1
  have "mgr_reachable memory_store_ops ?cfg memory_store_new Suc (drain mg1, [Closing [0]])" by simp
  from reach_step [OF this close_next [of 0 _ 0 "[]"]]
  have r: "mgr_reachable memory_store_ops ?cfg memory_store_new Suc (mg2, [Closing []])" by (simp add: mg2_def)
  have "mg_closed mg2" "length (mg_heap mg2) = 1" using mg1 by (simp_all add: mg2_def drain_def)
  with accumulators_closed_once [OF r] r show ?thesis by (intro exI [of _ mg2] exI [of _ "[Closing []] :: string caller list"]) auto
qed

text \<open>The clock of the example: time jumps past the TTL after the second reading.\<close>

definition jump_clock :: "nat \<Rightarrow> clock" where
  "jump_clock t i = (if i < 2 then 0 else t)"

lemma jump_clock_simps [simp]:
  "jump_clock t 0 = 0" "jump_clock t (Suc 0) = 0" "2 \<le> i \<Longrightarrow> jump_clock t i = t"
  by (simp_all add: jump_clock_def)

definition fresh_acc :: "nat \<Rightarrow> 'v memory_store accumulator" where
  "fresh_acc t = \<lparr>acc_store = memory_store_new t, acc_created_at = t, acc_last_flush = None\<rparr>"

lemma check_expired_fresh:
  assumes "i < length (mg_heap mg)" and "mg_heap mg ! i = fresh_acc born" and "2 \<le> mg_reads mg"
  shows "check_expired memory_store_ops (with_ttl ttl accumulator_config_default) (jump_clock t) i mg =
     (mg\<lparr>mg_reads := mg_reads mg + 2\<rparr>, Inr (ttl \<le> t - born))"
proof -
  have "(mg_heap mg)[i := fresh_acc born] = mg_heap mg" using assms list_update_id by metis
  then show ?thesis using assms
    by (simp add: check_expired_def on_acc_def acc_is_expired_def on_store_def with_ttl_def put_acc_def
        accumulator_config_default_def memory_store_ops_def ms_activity_def memory_store_new_def
        fresh_acc_def)
qed

lemma close_acc_fresh:
  assumes "i < length (mg_heap mg)" and "mg_heap mg ! i = fresh_acc born"
  shows "fst (close_acc memory_store_ops clk i mg) =
     mg\<lparr>mg_reads := Suc (mg_reads mg), mg_closes := mg_closes mg @ [i]\<rparr>"
proof -
  have "(mg_heap mg)[i := fresh_acc born] = mg_heap mg" using assms list_update_id by metis
  then show ?thesis using assms
    by (simp add: close_acc_def on_acc_def acc_close_def on_store_def put_acc_def memory_store_ops_def
        ms_close_def memory_store_new_def fresh_acc_def)
qed

text \<open>
  A sweep can close an accumulator that has not expired. Two sweeps both find the accumulator of a
  key expired; the first claims and closes it; a user then creates a fresh accumulator under that key;
  the second sweep claims by key and is left to close the fresh one, for which \<^verbatim>\<open>is_expired\<close> is false.
\<close>

lemma sweep_claims_unexpired:
  "\<exists>clk mg (cs :: 'k caller list) c j rest.
     mono clk \<and>
     mgr_reachable memory_store_ops (with_ttl (Suc d) (accumulator_config_default :: 'v accumulator_config))
       memory_store_new clk (mg, cs) \<and>
     c < length cs \<and> cs ! c = Claimed j rest \<and>
     snd (check_expired memory_store_ops (with_ttl (Suc d) (accumulator_config_default :: 'v accumulator_config))
       clk j mg) = Inr False"
proof -
  let ?cfg = "with_ttl (Suc d) accumulator_config_default :: 'v accumulator_config" and ?clk = "jump_clock (Suc d)"
  let ?R = "mgr_reachable memory_store_ops ?cfg memory_store_new ?clk"
  let ?mg = "\<lambda>(m :: ('k, nat) hashmap) h n xs. \<lparr>mg_accs = m, mg_closed = False, mg_heap = h, mg_reads = n, mg_closes = xs\<rparr>"
  fix k :: 'k
  have "?R (manager_new, [])" by (rule reach_init) simp
  from reach_step [OF this user_get [of _ _ _ _ _ _ k]]
  have "?R (?mg [(k, 0)] [fresh_acc 0] 2 [], [])"
    by (simp add: get_or_create_def manager_new_def accumulator_new_def fresh_acc_def numeral_2_eq_2)
  from reach_step [OF this sweep_start [of "[(k, 0)]"]]
  have "?R (?mg [(k, 0)] [fresh_acc 0] 2 [], [Sweeping [(k, 0)]])" by simp
  from reach_step [OF this sweep_start [of "[(k, 0)]"]]
  have "?R (?mg [(k, 0)] [fresh_acc 0] 2 [], [Sweeping [(k, 0)], Sweeping [(k, 0)]])" by simp
  from reach_step [OF this sweep_check [of 0 _ k 0 "[]", OF _ _ check_expired_fresh [where born = 0]]]
  have "?R (?mg [(k, 0)] [fresh_acc 0] 4 [], [Claiming k [], Sweeping [(k, 0)]])" by simp
  from reach_step [OF this sweep_check [of 1 _ k 0 "[]", OF _ _ check_expired_fresh [where born = 0]]]
  have "?R (?mg [(k, 0)] [fresh_acc 0] 6 [], [Claiming k [], Claiming k []])" by simp
  from reach_step [OF this sweep_claim [of 0 _ k "[]"]]
  have "?R (?mg [] [fresh_acc 0] 6 [], [Claimed 0 [], Claiming k []])" by (simp add: claim_def)
  from reach_step [OF this sweep_close [of 0 _ 0 "[]"]]
  have "?R (?mg [] [fresh_acc 0] 7 [0], [Sweeping [], Claiming k []])"
    by (simp add: close_acc_fresh [where born = 0])
  from reach_step [OF this user_get [of _ _ _ _ _ _ k]]
  have "?R (?mg [(k, 1)] [fresh_acc 0, fresh_acc (Suc d)] 9 [0], [Sweeping [], Claiming k []])"
    by (simp add: get_or_create_def accumulator_new_def fresh_acc_def)
  from reach_step [OF this sweep_claim [of 1 _ k "[]"]]
  have "?R (?mg [] [fresh_acc 0, fresh_acc (Suc d)] 9 [0], [Sweeping [], Claimed 1 []])"
    by (simp add: claim_def)
  moreover have "mono ?clk" by (auto simp: mono_def jump_clock_def)
  moreover have "snd (check_expired memory_store_ops ?cfg ?clk 1
      (?mg [] [fresh_acc 0, fresh_acc (Suc d)] 9 [0])) = Inr False"
    by (subst check_expired_fresh) auto
  ultimately show ?thesis
    by (intro exI [of _ ?clk] exI [of _ "?mg [] [fresh_acc 0, fresh_acc (Suc d)] 9 [0]"]
        exI [of _ "[Sweeping [], Claimed 1 []]"] exI [of _ 1] exI [of _ "[]"]) simp
qed

end
