(* ===== verification/State_Machine.thy ===== *)
theory State_Machine
  imports Errors "HOL-Library.Word"
begin

text \<open>
  The typed state machine of \<^verbatim>\<open>core/rskit-stateful/src/machine.rs\<close>: named transitions with an optional
  source state, guard and action, the audit log, the version counter and the persistence hooks.
  Guards, actions and hooks are the application's; they act on a world of their own. The version is a
  64-bit word, as \<^verbatim>\<open>u64\<close> in a build without overflow checks. A machine is guarded by one lock for the whole of
  \<^verbatim>\<open>apply\<close>, so that concurrent calls are some sequence of calls.
\<close>

section \<open>Transitions and machines\<close>

record ('s, 'c, 'w) sm_transition =
  tr_name :: string
  tr_from :: "'s option"
  tr_to :: 's
  tr_guard :: "('s \<Rightarrow> 'c \<Rightarrow> 'w \<Rightarrow> 'w \<times> unit app_result) option"
  tr_action :: "('s \<Rightarrow> 's \<Rightarrow> 'c \<Rightarrow> 'w \<Rightarrow> 'w \<times> unit app_result) option"

definition transition_new :: "string \<Rightarrow> 's \<Rightarrow> ('s, 'c, 'w) sm_transition" where
  "transition_new name to = \<lparr>tr_name = name, tr_from = None, tr_to = to, tr_guard = None, tr_action = None\<rparr>"

definition from_state :: "'s \<Rightarrow> ('s, 'c, 'w) sm_transition \<Rightarrow> ('s, 'c, 'w) sm_transition" where
  "from_state s t = t\<lparr>tr_from := Some s\<rparr>"

definition with_guard ::
    "('s \<Rightarrow> 'c \<Rightarrow> 'w \<Rightarrow> 'w \<times> unit app_result) \<Rightarrow> ('s, 'c, 'w) sm_transition \<Rightarrow> ('s, 'c, 'w) sm_transition" where
  "with_guard g t = t\<lparr>tr_guard := Some g\<rparr>"

definition with_action ::
    "('s \<Rightarrow> 's \<Rightarrow> 'c \<Rightarrow> 'w \<Rightarrow> 'w \<times> unit app_result) \<Rightarrow> ('s, 'c, 'w) sm_transition \<Rightarrow> ('s, 'c, 'w) sm_transition" where
  "with_action a t = t\<lparr>tr_action := Some a\<rparr>"

record 's state_snapshot =
  ss_state :: 's
  ss_version :: "64 word"

record ('s, 'c) audit_entry =
  ae_transition :: string
  ae_from :: 's
  ae_to :: 's
  ae_context :: 'c
  ae_version :: "64 word"
  ae_recorded_at :: int

type_synonym ('s, 'c, 'w) persistence =
  "'s state_snapshot \<Rightarrow> ('s, 'c) audit_entry \<Rightarrow> 'w \<Rightarrow> 'w \<times> unit app_result"

record ('s, 'c, 'w) machine =
  sm_current :: 's
  sm_version :: "64 word"
  sm_audit_log :: "('s, 'c) audit_entry list"
  sm_transitions :: "(string, ('s, 'c, 'w) sm_transition) hashmap"
  sm_persistence :: "('s, 'c, 'w) persistence list"

definition machine_new :: "'s \<Rightarrow> ('s, 'c, 'w) machine" where
  "machine_new initial =
     \<lparr>sm_current = initial, sm_version = 0, sm_audit_log = [], sm_transitions = [], sm_persistence = []\<rparr>"

definition with_transition :: "('s, 'c, 'w) sm_transition \<Rightarrow> ('s, 'c, 'w) machine \<Rightarrow> ('s, 'c, 'w) machine" where
  "with_transition t m = m\<lparr>sm_transitions := hm_insert (tr_name t) t (sm_transitions m)\<rparr>"

definition with_persistence :: "('s, 'c, 'w) persistence \<Rightarrow> ('s, 'c, 'w) machine \<Rightarrow> ('s, 'c, 'w) machine" where
  "with_persistence p m = m\<lparr>sm_persistence := sm_persistence m @ [p]\<rparr>"

definition sm_snapshot :: "('s, 'c, 'w) machine \<Rightarrow> 's state_snapshot" where
  "sm_snapshot m = \<lparr>ss_state = sm_current m, ss_version = sm_version m\<rparr>"

section \<open>Applying a transition\<close>

definition run_guard ::
    "('s, 'c, 'w) sm_transition \<Rightarrow> 's \<Rightarrow> 'c \<Rightarrow> 'w \<Rightarrow> 'w \<times> unit app_result" where
  "run_guard t from ctx w = (case tr_guard t of Some g \<Rightarrow> g from ctx w | None \<Rightarrow> (w, Inr ()))"

definition run_action ::
    "('s, 'c, 'w) sm_transition \<Rightarrow> 's \<Rightarrow> 'c \<Rightarrow> 'w \<Rightarrow> 'w \<times> unit app_result" where
  "run_action t from ctx w = (case tr_action t of Some a \<Rightarrow> a from (tr_to t) ctx w | None \<Rightarrow> (w, Inr ()))"

fun persist_all ::
    "('s, 'c, 'w) persistence list \<Rightarrow> 's state_snapshot \<Rightarrow> ('s, 'c) audit_entry \<Rightarrow> 'w \<Rightarrow> 'w \<times> unit app_result" where
  "persist_all [] snapshot audit w = (w, Inr ())"
| "persist_all (p # ps) snapshot audit w =
     (case p snapshot audit w of
        (w1, Inl e) \<Rightarrow> (w1, Inl e)
      | (w1, Inr _) \<Rightarrow> persist_all ps snapshot audit w1)"

text \<open>\<open>now\<close> is the wall-clock time at which the audit entry is made.\<close>

definition apply_transition ::
    "string \<Rightarrow> 'c \<Rightarrow> int \<Rightarrow> ('s, 'c, 'w) machine \<times> 'w \<Rightarrow> (('s, 'c, 'w) machine \<times> 'w) \<times> 's state_snapshot app_result" where
  "apply_transition name ctx now st =
     (case st of (m, w) \<Rightarrow>
       case hm_get (sm_transitions m) name of
         None \<Rightarrow>
           ((m, w), Inl (app_error_new InvalidInput
              (''state transition '' @ quoted name @ '' is not registered'')))
       | Some t \<Rightarrow>
           let from = sm_current m in
           if (case tr_from t of Some required \<Rightarrow> required \<noteq> from | None \<Rightarrow> False) then
             ((m, w), Inl (app_error_new InvalidInput
                (''transition '' @ quoted name @ '' cannot be applied from current state'')))
           else
             case run_guard t from ctx w of
               (w1, Inl e) \<Rightarrow> ((m, w1), Inl e)
             | (w1, Inr _) \<Rightarrow>
                 let to = tr_to t;
                     next_version = sm_version m + 1;
                     snapshot = \<lparr>ss_state = to, ss_version = next_version\<rparr>
                 in case run_action t from ctx w1 of
                      (w2, Inl e) \<Rightarrow> ((m, w2), Inl e)
                    | (w2, Inr _) \<Rightarrow>
                        let audit = \<lparr>ae_transition = tr_name t, ae_from = from, ae_to = to, ae_context = ctx,
                                     ae_version = next_version, ae_recorded_at = now\<rparr>
                        in case persist_all (sm_persistence m) snapshot audit w2 of
                             (w3, Inl e) \<Rightarrow> ((m, w3), Inl e)
                           | (w3, Inr _) \<Rightarrow>
                               ((m\<lparr>sm_current := to, sm_version := next_version,
                                   sm_audit_log := sm_audit_log m @ [audit]\<rparr>, w3), Inr snapshot))"

section \<open>Behaviour of apply\<close>

text \<open>A failed call leaves the machine as it was; what a successful one did.\<close>

definition enabled :: "('s, 'c, 'w) machine \<Rightarrow> string \<Rightarrow> ('s, 'c, 'w) sm_transition \<Rightarrow> bool" where
  "enabled m name t \<longleftrightarrow>
     hm_get (sm_transitions m) name = Some t \<and>
     (case tr_from t of None \<Rightarrow> True | Some s \<Rightarrow> s = sm_current m)"

lemma apply_transition_cases:
  assumes "apply_transition name ctx now (m, w) = ((m', w'), r)"
  obtains (failed) e where "r = Inl e" "m' = m"
  | (applied) t audit w1 w2 where "enabled m name t"
      "run_guard t (sm_current m) ctx w = (w1, Inr ())"
      "run_action t (sm_current m) ctx w1 = (w2, Inr ())"
      "audit = \<lparr>ae_transition = tr_name t, ae_from = sm_current m, ae_to = tr_to t, ae_context = ctx,
                ae_version = sm_version m + 1, ae_recorded_at = now\<rparr>"
      "persist_all (sm_persistence m) \<lparr>ss_state = tr_to t, ss_version = sm_version m + 1\<rparr> audit w2 = (w', Inr ())"
      "m' = m\<lparr>sm_current := tr_to t, sm_version := sm_version m + 1,
              sm_audit_log := sm_audit_log m @ [audit]\<rparr>"
      "r = Inr (sm_snapshot m')"
  using assms
  by (auto simp: apply_transition_def Let_def enabled_def sm_snapshot_def
      split: option.splits if_splits prod.splits sum.splits)

text \<open>A log that leads from one state to another, one step of a registered transition at a time.\<close>

fun audit_chain ::
    "(string, ('s, 'c, 'w) sm_transition) hashmap \<Rightarrow> 's \<Rightarrow> nat \<Rightarrow> ('s, 'c) audit_entry list \<Rightarrow> 's \<Rightarrow> bool" where
  "audit_chain ts s n [] s' \<longleftrightarrow> s' = s"
| "audit_chain ts s n (a # as) s' \<longleftrightarrow>
     ae_from a = s \<and> ae_version a = of_nat (Suc n) \<and>
     (\<exists>t. hm_get ts (ae_transition a) = Some t \<and> tr_to t = ae_to a \<and> tr_from t \<in> {None, Some s}) \<and>
     audit_chain ts (ae_to a) (Suc n) as s'"

lemma audit_chain_append:
  "audit_chain ts s n (xs @ ys) s' \<longleftrightarrow>
     (\<exists>u. audit_chain ts s n xs u \<and> audit_chain ts u (n + length xs) ys s')"
  by (induction xs arbitrary: s n) auto

definition machine_inv :: "'s \<Rightarrow> ('s, 'c, 'w) machine \<Rightarrow> bool" where
  "machine_inv s0 m \<longleftrightarrow>
     audit_chain (sm_transitions m) s0 0 (sm_audit_log m) (sm_current m) \<and>
     sm_version m = of_nat (length (sm_audit_log m)) \<and>
     (\<forall>(k, t)\<in>set (sm_transitions m). tr_name t = k)"

text \<open>Machines as they are built, and calls on them; \<open>apply\<close> only borrows a built machine.\<close>

inductive built_machine :: "'s \<Rightarrow> ('s, 'c, 'w) machine \<Rightarrow> bool" for s0 :: 's where
  built_new: "built_machine s0 (machine_new s0)"
| built_transition: "built_machine s0 m \<Longrightarrow> built_machine s0 (with_transition t m)"
| built_persistence: "built_machine s0 m \<Longrightarrow> built_machine s0 (with_persistence p m)"

inductive apply_step :: "('s, 'c, 'w) machine \<times> 'w \<Rightarrow> ('s, 'c, 'w) machine \<times> 'w \<Rightarrow> bool" where
  "apply_transition name ctx now st = (st', r) \<Longrightarrow> apply_step st st'"

inductive_cases apply_stepE: "apply_step st st'"

lemma set_hm_insert_subset: "set (hm_insert k v m) \<subseteq> insert (k, v) (set m)"
  by (induction m) auto

lemma built_machine_inv:
  assumes "built_machine s0 m"
  shows "machine_inv s0 m \<and> sm_audit_log m = []"
  using assms
proof (induction rule: built_machine.induct)
  case (built_transition m t)
  then show ?case using set_hm_insert_subset [of "tr_name t" t "sm_transitions m"]
    by (fastforce simp: machine_inv_def with_transition_def)
qed (auto simp: machine_inv_def machine_new_def with_persistence_def)

lemma machine_inv_apply:
  assumes "apply_transition name ctx now (m, w) = ((m', w'), r)" and "machine_inv s0 m"
  shows "machine_inv s0 m'"
  using assms(1)
proof (cases rule: apply_transition_cases)
  case failed
  with assms(2) show ?thesis by simp
next
  case (applied t audit w1 w2)
  from applied(1) have get: "hm_get (sm_transitions m) name = Some t" by (simp add: enabled_def)
  with assms(2) have "tr_name t = name" by (fastforce simp: machine_inv_def dest: map_of_SomeD)
  with get have "hm_get (sm_transitions m) (tr_name t) = Some t" by simp
  moreover have "tr_from t \<in> {None, Some (sm_current m)}"
    using applied(1) by (auto simp: enabled_def split: option.splits)
  ultimately show ?thesis using assms(2) applied(4,6)
    by (auto simp: machine_inv_def audit_chain_append add.commute)
qed

interpretation machine_runs: invariant_system "\<lambda>(m, w). built_machine s0 m" apply_step "\<lambda>(m, w). machine_inv s0 m"
  for s0 :: 's
  by unfold_locales (auto dest: built_machine_inv elim!: apply_stepE intro: machine_inv_apply)

lemma versions_of_chain:
  "audit_chain ts s n as s' \<Longrightarrow> map ae_version as = map (\<lambda>i. of_nat (Suc (n + i))) [0..<length as]"
  by (induction as arbitrary: s n) (auto simp del: upt_Suc of_nat_Suc simp add: map_upt_Suc)

lemma of_nat_word_inj_on: "inj_on (of_nat :: nat \<Rightarrow> 64 word) {..<2 ^ 64}"
proof (rule inj_onI)
  fix x y :: nat
  assume "x \<in> {..<2 ^ 64}" "y \<in> {..<2 ^ 64}" and eq: "(of_nat x :: 64 word) = of_nat y"
  then have "x mod 2 ^ 64 = x" "y mod 2 ^ 64 = y" by (simp_all only: lessThan_iff mod_less)
  moreover have "x mod 2 ^ 64 = y mod 2 ^ 64" using arg_cong [OF eq, of unat] by (simp add: unat_of_nat)
  ultimately show "x = y" by simp
qed

text \<open>
  A hook that ran before one that fails has recorded a transition that never happens: with a first hook
  that stores the version and a second that fails, the stored version is one the machine does not reach.
\<close>

lemma failed_persist_leaves_record:
  fixes m :: "(bool, unit, 64 word list) machine"
  defines "m \<equiv> with_persistence (\<lambda>_ _ w. (w, Inl rate_limited))
       (with_persistence (\<lambda>s _ w. (w @ [ss_version s], Inr ()))
         (with_transition (transition_new ''go'' True) (machine_new False)))"
  shows "apply_transition ''go'' () now (m, []) = ((m, [1]), Inl rate_limited) \<and> sm_version m = 0"
  by (simp add: m_def apply_transition_def with_persistence_def with_transition_def transition_new_def
      machine_new_def run_guard_def run_action_def Let_def)

section \<open>Property of the state machine\<close>

text \<open>
  C16. After any sequence of calls on a machine built from \<^verbatim>\<open>s0\<close>, the audit log leads from \<^verbatim>\<open>s0\<close> to the
  current state, each entry one step of the registered transition of its name from its source state;
  the version counts the entries, and the entries carry pairwise different versions as long as the
  64-bit counter has not wrapped around. A call that returns an error leaves the machine unchanged.
\<close>

theorem audit_log_explains_state:
  assumes "reach (\<lambda>(m, w). built_machine s0 m) apply_step (m, w)"
  shows "audit_chain (sm_transitions m) s0 0 (sm_audit_log m) (sm_current m) \<and>
    sm_version m = of_nat (length (sm_audit_log m)) \<and>
    (length (sm_audit_log m) < 2 ^ 64 \<longrightarrow> distinct (map ae_version (sm_audit_log m))) \<and>
    (\<forall>name ctx now st' e. apply_transition name ctx now (m, w) = (st', Inl e) \<longrightarrow> fst st' = m)"
proof -
  have inv: "machine_inv s0 m" using machine_runs.inv_reach [OF assms] by simp
  then have chain: "audit_chain (sm_transitions m) s0 0 (sm_audit_log m) (sm_current m)"
    by (simp add: machine_inv_def)
  have "distinct (map ae_version (sm_audit_log m))" if "length (sm_audit_log m) < 2 ^ 64"
    unfolding versions_of_chain [OF chain] distinct_map
    using that by (auto intro!: inj_onI dest!: inj_onD [OF of_nat_word_inj_on] simp del: of_nat_Suc)
  moreover have "fst st' = m" if "apply_transition name ctx now (m, w) = (st', Inl e)" for name ctx now st' e
  proof -
    from that have "apply_transition name ctx now (m, w) = ((fst st', snd st'), Inl e)" by simp
    then show ?thesis by (cases rule: apply_transition_cases) auto
  qed
  ultimately show ?thesis using inv chain by (simp add: machine_inv_def)
qed

definition door :: "(bool, nat, unit) machine" where
  "door = with_transition (from_state True (transition_new ''close'' False))
     (with_transition (from_state False (transition_new ''open'' True)) (machine_new False))"

theorem audit_log_explains_state_witness:
  "\<exists>m :: (bool, nat, unit) machine.
     reach (\<lambda>(m, w). built_machine False m) apply_step (m, ()) \<and> sm_current m \<and>
     length (sm_audit_log m) = 1 \<and> audit_chain (sm_transitions m) False 0 (sm_audit_log m) True"
proof -
  let ?r = "apply_transition ''open'' 7 0 (door, ())"
  have "reach (\<lambda>(m, w). built_machine False m) apply_step (door, ())"
    by (rule reach_init) (auto simp: door_def intro: built_machine.intros)
  from reach_step [OF this apply_step.intros, of "''open''" 7 0]
  have r: "reach (\<lambda>(m, w). built_machine False m) apply_step (fst (fst ?r), ())" by (cases ?r) auto
  have "sm_current (fst (fst ?r))" "length (sm_audit_log (fst (fst ?r))) = 1"
    by (simp_all add: door_def apply_transition_def with_transition_def from_state_def transition_new_def
        machine_new_def run_guard_def run_action_def Let_def)
  with audit_log_explains_state [OF r] r show ?thesis by (intro exI [of _ "fst (fst ?r)"]) auto
qed

end
