(* ===== verification/Authz.thy ===== *)
theory Authz
  imports Errors
begin

text \<open>
  Authorization, \<^verbatim>\<open>core/rskit-authz/src\<close>: wildcard matching (\<^verbatim>\<open>matcher.rs\<close>), the policy model
  (\<^verbatim>\<open>engine/model.rs\<close>), the engine that evaluates role grants and attribute policies
  (\<^verbatim>\<open>engine/evaluate.rs\<close>), the \<^verbatim>\<open>Checker\<close> trait (\<^verbatim>\<open>checker.rs\<close>) and the HTTP middleware in front of a
  service (\<^verbatim>\<open>middleware.rs\<close>). JSON objects are compared as association lists with their keys in order, the
  representation of \<^verbatim>\<open>serde_json::Map\<close>.
\<close>

section \<open>Wildcard matching\<close>

text \<open>\<open>split_once c s\<close> is \<^verbatim>\<open>s.split_once(c)\<close>: the parts before and after the first \<open>c\<close>.\<close>

definition split_once :: "char \<Rightarrow> string \<Rightarrow> (string \<times> string) option" where
  "split_once c s =
     (case dropWhile (\<lambda>x. x \<noteq> c) s of
        [] \<Rightarrow> None
      | _ # rest \<Rightarrow> Some (takeWhile (\<lambda>x. x \<noteq> c) s, rest))"

definition wildcard_equals :: "string \<Rightarrow> string \<Rightarrow> bool" where
  "wildcard_equals pattern value \<longleftrightarrow> pattern = ''*'' \<or> pattern = value"

definition match_pattern :: "string \<Rightarrow> string \<Rightarrow> bool" where
  "match_pattern pattern value =
     (if pattern = value \<or> pattern = ''*'' \<or> pattern = ''*:*'' then True
      else
        case (split_once CHR '':'' pattern, split_once CHR '':'' value) of
          (Some (pp, pa), Some (vp, va)) \<Rightarrow> wildcard_equals pp vp \<and> wildcard_equals pa va
        | _ \<Rightarrow> wildcard_equals pattern value)"

definition match_any :: "string list \<Rightarrow> string \<Rightarrow> bool" where
  "match_any patterns value = list_ex (\<lambda>p. match_pattern p value) patterns"

section \<open>The policy model\<close>

type_synonym attributes = "(string, json) hashmap"

record subject =
  sub_id :: string
  sub_roles :: "string list"
  sub_attributes :: attributes

record resource =
  resource_type :: string
  res_id :: string
  res_attributes :: attributes

record request =
  req_subject :: subject
  req_resource :: resource
  req_action :: string
  req_context :: attributes

datatype effect = Allow | Deny

datatype attribute_source = FromSubject | FromResource | FromContext

datatype operator = Equals | NotEquals | OneOf

record condition =
  cond_source :: attribute_source
  cond_key :: string
  cond_operator :: operator
  cond_values :: "json list"
  cond_compare_source :: "attribute_source option"
  cond_compare_key :: "string option"

record permission =
  perm_resource :: string
  perm_action :: string
  perm_conditions :: "condition list"

record role =
  role_name :: string
  role_inherits :: "string list"
  role_permissions :: "permission list"

record authz_policy =
  pol_name :: string
  pol_effect :: effect
  pol_actions :: "string list"
  pol_resources :: "string list"
  pol_conditions :: "condition list"

record decision =
  allowed :: bool
  reason :: string

definition permission_matches :: "permission \<Rightarrow> string \<Rightarrow> string \<Rightarrow> bool" where
  "permission_matches p resource action \<longleftrightarrow>
     match_pattern (perm_resource p) resource \<and> match_pattern (perm_action p) action"

section \<open>Evaluation\<close>

definition attribute_value :: "request \<Rightarrow> attribute_source \<Rightarrow> string \<Rightarrow> json option" where
  "attribute_value req source key =
     (case source of
        FromSubject \<Rightarrow>
          if key = ''id'' then
            (if sub_id (req_subject req) \<noteq> [] then Some (JString (sub_id (req_subject req))) else None)
          else hm_get (sub_attributes (req_subject req)) key
      | FromResource \<Rightarrow>
          if key = ''id'' then
            (if res_id (req_resource req) \<noteq> [] then Some (JString (res_id (req_resource req))) else None)
          else if key = ''type'' then
            (if resource_type (req_resource req) \<noteq> [] then Some (JString (resource_type (req_resource req)))
             else None)
          else hm_get (res_attributes (req_resource req)) key
      | FromContext \<Rightarrow> hm_get (req_context req) key)"

definition condition_matches :: "request \<Rightarrow> condition \<Rightarrow> bool" where
  "condition_matches req c =
     (case attribute_value req (cond_source c) (cond_key c) of
        None \<Rightarrow> False
      | Some actual \<Rightarrow>
          (case (cond_compare_source c, cond_compare_key c) of
             (Some compare_source, Some compare_key) \<Rightarrow>
               (case attribute_value req compare_source compare_key of
                  None \<Rightarrow> False
                | Some other \<Rightarrow>
                    (case cond_operator c of
                       Equals \<Rightarrow> actual = other
                     | OneOf \<Rightarrow> actual = other
                     | NotEquals \<Rightarrow> actual \<noteq> other))
           | _ \<Rightarrow>
               (case cond_operator c of
                  Equals \<Rightarrow> length (cond_values c) = 1 \<and> actual = cond_values c ! 0
                | NotEquals \<Rightarrow> length (cond_values c) = 1 \<and> actual \<noteq> cond_values c ! 0
                | OneOf \<Rightarrow> list_ex (\<lambda>v. v = actual) (cond_values c))))"

definition match_dimension :: "string list \<Rightarrow> string \<Rightarrow> bool" where
  "match_dimension patterns value \<longleftrightarrow> patterns \<noteq> [] \<and> match_any patterns value"

definition policy_matches :: "request \<Rightarrow> authz_policy \<Rightarrow> bool" where
  "policy_matches req p =
     (if \<not> match_dimension (pol_resources p) (resource_type (req_resource req)) \<or>
         \<not> match_dimension (pol_actions p) (req_action req)
      then False
      else list_all (condition_matches req) (pol_conditions p))"

definition matches_request :: "request \<Rightarrow> permission \<Rightarrow> bool" where
  "matches_request req p \<longleftrightarrow>
     permission_matches p (resource_type (req_resource req)) (req_action req) \<and>
     list_all (condition_matches req) (perm_conditions p)"

record engine =
  eng_roles :: "(string, role) hashmap"
  eng_policies :: "authz_policy list"

fun index_roles :: "role list \<Rightarrow> (string, role) hashmap \<Rightarrow> (string, role) hashmap app_result" where
  "index_roles [] indexed = Inr indexed"
| "index_roles (r # rs) indexed =
     (if role_name r = [] then Inl (invalid_input ''role.name'' ''role name is required'')
      else if hm_contains indexed (role_name r) then Inl (invalid_input ''role.name'' ''duplicate role'')
      else index_roles rs (hm_insert (role_name r) r indexed))"

definition engine_new :: "role list \<Rightarrow> authz_policy list \<Rightarrow> engine app_result" where
  "engine_new roles policies =
     try_result (index_roles roles []) (\<lambda>indexed. Inr \<lparr>eng_roles = indexed, eng_policies = policies\<rparr>)"

text \<open>
  The depth-first walk over role bindings. It returns whether a role grants the request and the set of
  role names it has visited, which the recursive calls share.
\<close>

function role_allows ::
    "(string, role) hashmap \<Rightarrow> request \<Rightarrow> string list \<Rightarrow> string set \<Rightarrow> bool \<times> string set" where
  "role_allows roles req [] visited = (False, visited)"
| "role_allows roles req (n # ns) visited =
     (if n \<in> visited then role_allows roles req ns visited
      else
        case hm_get roles n of
          None \<Rightarrow> role_allows roles req ns (insert n visited)
        | Some r \<Rightarrow>
            if list_ex (matches_request req) (role_permissions r) then (True, insert n visited)
            else
              let inherited = role_allows roles req (role_inherits r) (insert n visited)
              in if fst inherited then inherited else role_allows roles req ns (snd inherited))"
  by pat_completeness auto

termination
proof (relation "inv_image (less_than <*lex*> less_than)
    (\<lambda>(roles, req, ns, visited). (card (hm_keys roles - visited), length ns))", goal_cases)
  case (4 roles req n ns visited r)
  then have "n \<in> hm_keys roles" by (metis hm_get_None_iff option.distinct(1))
  with 4 have "card (hm_keys roles - insert n visited) < card (hm_keys roles - visited)"
    by (intro psubset_card_mono) auto
  then show ?case by simp
next
  case (5 roles req n ns visited r inherited)
  have visited: "vs \<subseteq> snd (role_allows rs q ms vs)" if "role_allows_dom (rs, q, ms, vs)" for rs q ms vs
    using that
  proof (induction rule: role_allows.pinduct)
    case (2 roles req n ns visited)
    show ?case
    proof (cases "n \<in> visited \<or> hm_get roles n = None")
      case True
      with 2 show ?thesis by (auto simp: role_allows.psimps)
    next
      case False
      then obtain r where r: "n \<notin> visited" "hm_get roles n = Some r" by auto
      let ?i = "role_allows roles req (role_inherits r) (insert n visited)"
      show ?thesis
      proof (cases "list_ex (matches_request req) (role_permissions r)")
        case True
        with r 2(1) show ?thesis by (auto simp: role_allows.psimps)
      next
        case no: False
        have "insert n visited \<subseteq> snd ?i" by (rule 2(4) [OF r no])
        moreover have "snd ?i \<subseteq> snd (role_allows roles req ns (snd ?i))" if "\<not> fst ?i"
          by (rule 2(5) [OF r no refl that])
        ultimately show ?thesis using r no 2(1) by (auto simp: role_allows.psimps Let_def)
      qed
    qed
  qed (simp add: role_allows.psimps)
  with 5 have "insert n visited \<subseteq> snd inherited" by blast
  then have "card (hm_keys roles - snd inherited) \<le> card (hm_keys roles - visited)"
    by (intro card_mono) auto
  then show ?case by (auto simp: less_le)
qed (auto intro!: le_imp_less_or_eq card_mono)

fun first_match :: "effect \<Rightarrow> request \<Rightarrow> authz_policy list \<Rightarrow> bool" where
  "first_match eff req [] = False"
| "first_match eff req (p # ps) = (if pol_effect p = eff \<and> policy_matches req p then True else first_match eff req ps)"

definition authorize :: "engine \<Rightarrow> request \<Rightarrow> decision" where
  "authorize eng req =
     (if first_match Deny req (eng_policies eng) then \<lparr>allowed = False, reason = ''denied by policy''\<rparr>
      else if fst (role_allows (eng_roles eng) req (sub_roles (req_subject req)) {}) then
        \<lparr>allowed = True, reason = ''allowed by role grant''\<rparr>
      else if first_match Allow req (eng_policies eng) then \<lparr>allowed = True, reason = ''allowed by policy''\<rparr>
      else \<lparr>allowed = False, reason = ''default deny''\<rparr>)"

text \<open>The default method of the \<^verbatim>\<open>Checker\<close> trait.\<close>

definition check :: "('c \<Rightarrow> request \<Rightarrow> decision) \<Rightarrow> 'c \<Rightarrow> request \<Rightarrow> bool" where
  "check authorize_fn c req = allowed (authorize_fn c req)"

section \<open>The middleware\<close>

record 'b response =
  status :: nat
  body :: 'b

definition forbidden_response :: "'b \<Rightarrow> 'b response" where
  "forbidden_response default_body = \<lparr>status = 403, body = default_body\<rparr>"

text \<open>
  The service in front of an inner one. The HTTP request, the mapping to an authorization request and
  the inner service, acting on a world of its own, are the application's.
\<close>

definition service_call ::
    "('c \<Rightarrow> request \<Rightarrow> decision) \<Rightarrow> 'c \<Rightarrow> ('h \<Rightarrow> request option) \<Rightarrow> 'b \<Rightarrow>
     ('h \<Rightarrow> 'w \<Rightarrow> 'w \<times> ('e + 'b response)) \<Rightarrow> 'h \<Rightarrow> 'w \<Rightarrow> 'w \<times> ('e + 'b response)" where
  "service_call authorize_fn checker authorizer default_body inner http w =
     (case authorizer http of
        None \<Rightarrow> (w, Inr (forbidden_response default_body))
      | Some req \<Rightarrow>
          if check authorize_fn checker req then inner http w
          else (w, Inr (forbidden_response default_body)))"

section \<open>Correctness of the role walk\<close>

definition role_edges :: "(string, role) hashmap \<Rightarrow> (string \<times> string) set" where
  "role_edges roles = {(a, b). \<exists>r. hm_get roles a = Some r \<and> b \<in> set (role_inherits r)}"

definition grants :: "(string, role) hashmap \<Rightarrow> request \<Rightarrow> string \<Rightarrow> bool" where
  "grants roles req n \<longleftrightarrow> (\<exists>r. hm_get roles n = Some r \<and> (\<exists>p\<in>set (role_permissions r). matches_request req p))"

lemma role_allows_sound:
  "fst (role_allows roles req ns visited) \<Longrightarrow>
     \<exists>n\<in>set ns. \<exists>m. (n, m) \<in> (role_edges roles)\<^sup>* \<and> grants roles req m"
proof (induction roles req ns visited rule: role_allows.induct)
  case (2 roles req n ns visited)
  have direct: "(n, n) \<in> (role_edges roles)\<^sup>*" by simp
  have step: "(n, k) \<in> (role_edges roles)\<^sup>*" if "hm_get roles n = Some r" "m \<in> set (role_inherits r)"
    "(m, k) \<in> (role_edges roles)\<^sup>*" for r m k
    using that by (intro converse_rtrancl_into_rtrancl [of n m]) (auto simp: role_edges_def)
  show ?case
  proof (cases "hm_get roles n")
    case None
    with 2 show ?thesis by (auto split: if_splits)
  next
    case (Some r)
    let ?i = "role_allows roles req (role_inherits r) (insert n visited)"
    consider "n \<in> visited" | "list_ex (matches_request req) (role_permissions r)"
      | "n \<notin> visited" "\<not> list_ex (matches_request req) (role_permissions r)" "fst ?i"
      | "n \<notin> visited" "\<not> list_ex (matches_request req) (role_permissions r)" "\<not> fst ?i"
      by blast
    then show ?thesis
    proof cases
      case 1 with 2 show ?thesis by auto
    next
      case 2 with Some direct show ?thesis by (auto simp: grants_def list_ex_iff)
    next
      case 3 with 2(3) [OF _ Some] Some step show ?thesis by fastforce
    next
      case 4 with 2(4) [OF _ Some _ refl] 2(5) Some show ?thesis by auto
    qed
  qed
qed simp

text \<open>A walk that found nothing: everything it visited grants nothing and has its parents visited too.\<close>

definition walked :: "(string, role) hashmap \<Rightarrow> request \<Rightarrow> string list \<Rightarrow> string set \<Rightarrow> string set \<Rightarrow> bool" where
  "walked roles req ns visited out \<longleftrightarrow>
     visited \<subseteq> out \<and> set ns \<subseteq> out \<and>
     (\<forall>m\<in>out - visited. \<not> grants roles req m \<and> role_edges roles `` {m} \<subseteq> out)"

lemma walked_enter:
  assumes "hm_get roles n = Some r" and "\<not> grants roles req n"
    and "walked roles req (role_inherits r) (insert n visited) out1" and "walked roles req ns out1 out"
  shows "walked roles req (n # ns) visited out"
proof -
  have "role_edges roles `` {n} \<subseteq> out1" using assms(1,3) by (auto simp: role_edges_def walked_def)
  then have n: "role_edges roles `` {n} \<subseteq> out" using assms(4) by (auto simp: walked_def)
  have "\<not> grants roles req m \<and> role_edges roles `` {m} \<subseteq> out" if "m \<in> out - visited" for m
  proof -
    note m = that
    consider "m = n" | "m \<in> out1 - insert n visited" | "m \<in> out - out1" using m by blast
    then show ?thesis
    proof cases
      case 1 with assms(2) n show ?thesis by simp
    next
      case 2
      with assms(3) have "\<not> grants roles req m \<and> role_edges roles `` {m} \<subseteq> out1" unfolding walked_def by blast
      with assms(4) show ?thesis by (auto simp: walked_def)
    next
      case 3 with assms(4) show ?thesis unfolding walked_def by blast
    qed
  qed
  with assms(3,4) show ?thesis by (auto simp: walked_def)
qed

lemma role_allows_complete:
  "\<not> fst (role_allows roles req ns visited) \<Longrightarrow>
     walked roles req ns visited (snd (role_allows roles req ns visited))"
proof (induction roles req ns visited rule: role_allows.induct)
  case (2 roles req n ns visited)
  show ?case
  proof (cases "hm_get roles n")
    case None
    then have "\<not> grants roles req n" "role_edges roles `` {n} = {}" by (auto simp: grants_def role_edges_def)
    with 2 None show ?thesis by (cases "n \<in> visited") (auto simp: walked_def)
  next
    case (Some r)
    let ?i = "role_allows roles req (role_inherits r) (insert n visited)"
    show ?thesis
    proof (cases "n \<in> visited")
      case True
      with 2 show ?thesis by (auto simp: walked_def)
    next
      case False
      with 2(5) Some have no: "\<not> list_ex (matches_request req) (role_permissions r)" "\<not> fst ?i"
        by (auto simp: Let_def split: if_splits)
      with False Some 2(5) have eq: "role_allows roles req (n # ns) visited = role_allows roles req ns (snd ?i)"
        by (simp add: Let_def)
      have "\<not> grants roles req n" using no(1) Some by (auto simp: grants_def list_ex_iff)
      then show ?thesis unfolding eq
        using 2(3) [OF False Some no] 2(4) [OF False Some no(1) refl no(2)] 2(5) [unfolded eq]
        by (intro walked_enter [OF Some]) auto
    qed
  qed
qed (simp add: walked_def)

lemma role_allows_iff:
  "fst (role_allows roles req ns {}) \<longleftrightarrow>
     (\<exists>n\<in>set ns. \<exists>m. (n, m) \<in> (role_edges roles)\<^sup>* \<and> grants roles req m)" (is "?walk \<longleftrightarrow> ?spec")
proof
  assume ?spec
  then obtain n m where n: "n \<in> set ns" "(n, m) \<in> (role_edges roles)\<^sup>*" "grants roles req m" by blast
  show ?walk
  proof (rule ccontr)
    assume "\<not> ?walk"
    from role_allows_complete [OF this] obtain V where V: "walked roles req ns {} V" by blast
    have "m \<in> V"
      by (rule closed_contains_reachable [OF n(2)]) (use V n(1) in \<open>auto simp: walked_def\<close>)
    with V n(3) show False by (auto simp: walked_def)
  qed
qed (rule role_allows_sound)

lemma first_match_iff: "first_match eff req ps \<longleftrightarrow> (\<exists>p\<in>set ps. pol_effect p = eff \<and> policy_matches req p)"
  by (induction ps) auto

lemma index_roles_ok_iff:
  "is_ok (index_roles rs indexed) \<longleftrightarrow>
     [] \<notin> role_name ` set rs \<and> distinct (map role_name rs) \<and> role_name ` set rs \<inter> hm_keys indexed = {}"
  by (induction rs arbitrary: indexed) auto

lemma index_roles_Inr:
  "index_roles rs indexed = Inr m \<Longrightarrow>
     hm_get m n = (case find (\<lambda>r. role_name r = n) rs of Some r \<Rightarrow> Some r | None \<Rightarrow> hm_get indexed n)"
proof (induction rs arbitrary: indexed)
  case (Cons r rs)
  then have rest: "index_roles rs (hm_insert (role_name r) r indexed) = Inr m" by (simp split: if_splits)
  then have "role_name r \<notin> role_name ` set rs"
    using index_roles_ok_iff [of rs "hm_insert (role_name r) r indexed"] by auto
  then have "find (\<lambda>r'. role_name r' = role_name r) rs = None" by (induction rs) auto
  with Cons.IH [OF rest] show ?case by (auto split: option.splits)
qed simp

section \<open>Properties of authorization\<close>

text \<open>A role grants the request to a subject bound to \<open>ns\<close>, directly or by inheritance.\<close>

definition role_inherit_rel :: "role list \<Rightarrow> (string \<times> string) set" where
  "role_inherit_rel roles = {(role_name r, b) | r b. r \<in> set roles \<and> b \<in> set (role_inherits r)}"

definition granted_by_role :: "role list \<Rightarrow> request \<Rightarrow> bool" where
  "granted_by_role roles req \<longleftrightarrow>
     (\<exists>n\<in>set (sub_roles (req_subject req)). \<exists>r\<in>set roles.
        (n, role_name r) \<in> (role_inherit_rel roles)\<^sup>* \<and>
        (\<exists>p\<in>set (role_permissions r). matches_request req p))"

lemma hm_get_index_roles:
  assumes "index_roles roles [] = Inr m"
  shows "hm_get m n = Some r \<longleftrightarrow> r \<in> set roles \<and> role_name r = n"
proof -
  have get: "hm_get m n = find (\<lambda>r. role_name r = n) roles"
    using index_roles_Inr [OF assms, of n] by (auto split: option.splits)
  have d: "distinct (map role_name roles)" using index_roles_ok_iff [of roles "[]"] assms by simp
  show ?thesis unfolding get
    using d by (induction roles) auto
qed

lemma role_allows_granted:
  assumes "index_roles roles [] = Inr m"
  shows "fst (role_allows m req (sub_roles (req_subject req)) {}) \<longleftrightarrow> granted_by_role roles req"
proof -
  have "role_edges m = role_inherit_rel roles"
    by (auto simp: role_edges_def role_inherit_rel_def hm_get_index_roles [OF assms])
  then show ?thesis
    by (auto simp: role_allows_iff granted_by_role_def grants_def hm_get_index_roles [OF assms])
qed

text \<open>
  C17. The engine decides by deny-override and default-deny. It can be built exactly when every role has
  a name and no name occurs twice. Its decision on a request allows it if and only if no deny policy matches and
  either a role the subject is bound to, or one inherited from it at any depth (inheritance may be
  cyclic), has a permission that matches, or an allow policy matches; the reason names the rule that decided.
\<close>

theorem authorize_deny_override:
  "(is_ok (engine_new roles policies) \<longleftrightarrow> [] \<notin> role_name ` set roles \<and> distinct (map role_name roles)) \<and>
   (\<forall>eng req. engine_new roles policies = Inr eng \<longrightarrow>
     authorize eng req =
       (if \<exists>p\<in>set policies. pol_effect p = Deny \<and> policy_matches req p
        then \<lparr>allowed = False, reason = ''denied by policy''\<rparr>
        else if granted_by_role roles req then \<lparr>allowed = True, reason = ''allowed by role grant''\<rparr>
        else if \<exists>p\<in>set policies. pol_effect p = Allow \<and> policy_matches req p
        then \<lparr>allowed = True, reason = ''allowed by policy''\<rparr>
        else \<lparr>allowed = False, reason = ''default deny''\<rparr>))"
proof (intro conjI allI impI)
  show "is_ok (engine_new roles policies) \<longleftrightarrow> [] \<notin> role_name ` set roles \<and> distinct (map role_name roles)"
    using index_roles_ok_iff [of roles "[]"] by (cases "index_roles roles []") (auto simp: engine_new_def)
next
  fix eng req
  assume "engine_new roles policies = Inr eng"
  then obtain m where "index_roles roles [] = Inr m" "eng = \<lparr>eng_roles = m, eng_policies = policies\<rparr>"
    by (auto simp: engine_new_def try_result_Inr_iff)
  then show "authorize eng req = (if \<exists>p\<in>set policies. pol_effect p = Deny \<and> policy_matches req p
        then \<lparr>allowed = False, reason = ''denied by policy''\<rparr>
        else if granted_by_role roles req then \<lparr>allowed = True, reason = ''allowed by role grant''\<rparr>
        else if \<exists>p\<in>set policies. pol_effect p = Allow \<and> policy_matches req p
        then \<lparr>allowed = True, reason = ''allowed by policy''\<rparr>
        else \<lparr>allowed = False, reason = ''default deny''\<rparr>)"
    by (simp add: authorize_def first_match_iff role_allows_granted)
qed

text \<open>Two roles that inherit from each other; the permission is on the one the subject is not bound to.\<close>

definition sample_roles :: "role list" where
  "sample_roles =
     [\<lparr>role_name = ''editor'', role_inherits = [''viewer''], role_permissions = []\<rparr>,
      \<lparr>role_name = ''viewer'', role_inherits = [''editor''],
       role_permissions = [\<lparr>perm_resource = ''article'', perm_action = ''*'', perm_conditions = []\<rparr>]\<rparr>]"

definition sample_request :: request where
  "sample_request =
     \<lparr>req_subject = \<lparr>sub_id = ''u1'', sub_roles = [''editor''], sub_attributes = []\<rparr>,
      req_resource = \<lparr>resource_type = ''article'', res_id = ''a1'', res_attributes = []\<rparr>,
      req_action = ''read'', req_context = []\<rparr>"

lemma sample_granted: "granted_by_role sample_roles sample_request"
proof -
  have "(''editor'', ''viewer'') \<in> role_inherit_rel sample_roles"
    unfolding role_inherit_rel_def sample_roles_def
    by (intro CollectI exI [of _ "\<lparr>role_name = ''editor'', role_inherits = [''viewer''], role_permissions = []\<rparr>"]) simp
  then show ?thesis
    by (auto simp: granted_by_role_def sample_roles_def sample_request_def matches_request_def
        permission_matches_def match_pattern_def)
qed

theorem authorize_deny_override_witness:
  "\<exists>eng. engine_new sample_roles [] = Inr eng \<and> authorize eng sample_request =
     \<lparr>allowed = True, reason = ''allowed by role grant''\<rparr>"
proof -
  have "is_ok (engine_new sample_roles [])"
    using authorize_deny_override [of sample_roles "[]"] by (simp add: sample_roles_def)
  then obtain eng where "engine_new sample_roles [] = Inr eng" by (cases "engine_new sample_roles []") auto
  with authorize_deny_override [of sample_roles "[]"] sample_granted show ?thesis by auto
qed

section \<open>The enforcement point\<close>

text \<open>
  What the middleware relies on in a \<^verbatim>\<open>Checker\<close>: it allows no request outside the policy it enforces.
  Whatever the mapping and the inner service are, a request outside the policy does not reach it.
\<close>

locale enforcing_checker =
  fixes authorize_fn :: "'c \<Rightarrow> request \<Rightarrow> decision"
    and checker :: 'c
    and permitted :: "request \<Rightarrow> bool"
  assumes allowed_permitted: "allowed (authorize_fn checker req) \<Longrightarrow> permitted req"
begin

lemma service_call_guarded:
  "\<not> (\<exists>req. authorizer http = Some req \<and> permitted req) \<Longrightarrow>
     service_call authorize_fn checker authorizer dflt inner http w = (w, Inr (forbidden_response dflt))"
  by (auto simp: service_call_def check_def dest: allowed_permitted split: option.split)

end

definition permitted_by :: "engine \<Rightarrow> request \<Rightarrow> bool" where
  "permitted_by eng req \<longleftrightarrow>
     \<not> (\<exists>p\<in>set (eng_policies eng). pol_effect p = Deny \<and> policy_matches req p) \<and>
     ((\<exists>n\<in>set (sub_roles (req_subject req)). \<exists>m. (n, m) \<in> (role_edges (eng_roles eng))\<^sup>* \<and> grants (eng_roles eng) req m) \<or>
      (\<exists>p\<in>set (eng_policies eng). pol_effect p = Allow \<and> policy_matches req p))"

lemma authorize_permitted: "allowed (authorize eng req) \<longleftrightarrow> permitted_by eng req"
  by (simp add: authorize_def first_match_iff role_allows_iff permitted_by_def)

interpretation engine_point: enforcing_checker authorize eng "permitted_by eng" for eng
  by unfold_locales (simp add: authorize_permitted)

text \<open>
  Behind the authorization layer with the engine as its checker, the inner service is called exactly
  for the requests the engine's policy permits, with its result passed on; every other request, and every one for
  which no authorization request can be built, is answered 403 with the inner service's state untouched.
\<close>

lemma middleware_enforces_policy:
  "service_call authorize eng authorizer dflt inner http w =
     (if \<exists>req. authorizer http = Some req \<and> permitted_by eng req then inner http w
      else (w, Inr \<lparr>status = 403, body = dflt\<rparr>))"
proof (cases "\<exists>req. authorizer http = Some req \<and> permitted_by eng req")
  case True
  then show ?thesis by (auto simp: service_call_def check_def authorize_permitted)
next
  case False
  then have "service_call authorize eng authorizer dflt inner http w = (w, Inr (forbidden_response dflt))"
    by (rule engine_point.service_call_guarded)
  with False show ?thesis unfolding forbidden_response_def by (simp only: if_False)
qed

end
