(* ===== verification/Civil.thy ===== *)
theory Civil
  imports Prelude "HOL-Library.Signed_Division"
begin

text \<open>
  UTC civil dates, \<^verbatim>\<open>core/rskit-util/src/time/civil.rs\<close>: the conversions between days or seconds since the
  Unix epoch and proleptic Gregorian dates. Integers are mathematical; the conversions back to
  \<^verbatim>\<open>i64\<close> and the checked operations are written out with their range, and a lemma shows that the
  unchecked operations of \<^verbatim>\<open>datetime_from_epoch_secs\<close> stay in it. Rust's \<^verbatim>\<open>/\<close> and \<^verbatim>\<open>%\<close> are \<open>sdiv\<close> and \<open>smod\<close>,
  \<^verbatim>\<open>div_euclid\<close> and \<^verbatim>\<open>rem_euclid\<close> by a positive number are \<open>div\<close> and \<open>mod\<close>.
\<close>

section \<open>Machine integers\<close>

definition in_i64 :: "int \<Rightarrow> bool" where
  "in_i64 x \<longleftrightarrow> - (2 ^ 63) \<le> x \<and> x < 2 ^ 63"

text \<open>\<^verbatim>\<open>i64::try_from(x).ok()\<close>, and the result of a checked \<^verbatim>\<open>i64\<close> operation.\<close>

definition to_i64 :: "int \<Rightarrow> int option" where
  "to_i64 x = (if in_i64 x then Some x else None)"

section \<open>Dates and times\<close>

record civil_date =
  cd_year :: int
  cd_month :: int
  cd_day :: int

record civil_date_time =
  dt_date :: civil_date
  dt_hour :: int
  dt_minute :: int
  dt_second :: int

definition is_leap_year :: "int \<Rightarrow> bool" where
  "is_leap_year y \<longleftrightarrow> (y smod 4 = 0 \<and> y smod 100 \<noteq> 0) \<or> y smod 400 = 0"

definition days_in_month :: "int \<Rightarrow> int \<Rightarrow> int option" where
  "days_in_month y m =
     (if m = 1 \<or> m = 3 \<or> m = 5 \<or> m = 7 \<or> m = 8 \<or> m = 10 \<or> m = 12 then Some 31
      else if m = 4 \<or> m = 6 \<or> m = 9 \<or> m = 11 then Some 30
      else if m = 2 \<and> is_leap_year y then Some 29
      else if m = 2 then Some 28
      else None)"

definition date_is_valid :: "civil_date \<Rightarrow> bool" where
  "date_is_valid d =
     (case days_in_month (cd_year d) (cd_month d) of
        None \<Rightarrow> False
      | Some max_day \<Rightarrow> 1 \<le> cd_day d \<and> cd_day d \<le> max_day)"

definition civil_date_new :: "int \<Rightarrow> int \<Rightarrow> int \<Rightarrow> civil_date option" where
  "civil_date_new y m d =
     (let date = \<lparr>cd_year = y, cd_month = m, cd_day = d\<rparr> in if date_is_valid date then Some date else None)"

definition datetime_is_valid :: "civil_date_time \<Rightarrow> bool" where
  "datetime_is_valid dt \<longleftrightarrow>
     date_is_valid (dt_date dt) \<and> 0 \<le> dt_hour dt \<and> dt_hour dt < 24 \<and>
     0 \<le> dt_minute dt \<and> dt_minute dt < 60 \<and> 0 \<le> dt_second dt \<and> dt_second dt < 60"

definition civil_date_time_new :: "civil_date \<Rightarrow> int \<Rightarrow> int \<Rightarrow> int \<Rightarrow> civil_date_time option" where
  "civil_date_time_new date h m s =
     (let dt = \<lparr>dt_date = date, dt_hour = h, dt_minute = m, dt_second = s\<rparr>
      in if datetime_is_valid dt then Some dt else None)"

section \<open>Conversions\<close>

definition days_from_civil :: "civil_date \<Rightarrow> int option" where
  "days_from_civil date =
     (if \<not> date_is_valid date then None
      else
        let month = cd_month date;
            day = cd_day date;
            year = (if month \<le> 2 then cd_year date - 1 else cd_year date);
            era = year div 400;
            yoe = year - era * 400;
            mp = month + (if month > 2 then - 3 else 9);
            doy = (153 * mp + 2) sdiv 5 + day - 1;
            doe = yoe * 365 + yoe sdiv 4 - yoe sdiv 100 + doy
        in to_i64 (era * 146097 + doe - 719468))"

definition civil_from_epoch_days :: "int \<Rightarrow> civil_date" where
  "civil_from_epoch_days days =
     (let z = days + 719468;
          era = z div 146097;
          doe = z - era * 146097;
          yoe = (doe - doe sdiv 1460 + doe sdiv 36524 - doe sdiv 146096) sdiv 365;
          year = yoe + era * 400;
          doy = doe - (365 * yoe + yoe sdiv 4 - yoe sdiv 100);
          mp = (5 * doy + 2) sdiv 153;
          day = doy - (153 * mp + 2) sdiv 5 + 1;
          month = (if mp < 10 then mp + 3 else mp - 9)
      in \<lparr>cd_year = (if month \<le> 2 then year + 1 else year), cd_month = month, cd_day = day\<rparr>)"

text \<open>The \<^verbatim>\<open>i128\<close> variant has the same body and converts the fields at the end.\<close>

definition civil_from_days_i128 :: "int \<Rightarrow> civil_date option" where
  "civil_from_days_i128 days =
     (let z = days + 719468;
          era = z div 146097;
          doe = z - era * 146097;
          yoe = (doe - doe sdiv 1460 + doe sdiv 36524 - doe sdiv 146096) sdiv 365;
          year = yoe + era * 400;
          doy = doe - (365 * yoe + yoe sdiv 4 - yoe sdiv 100);
          mp = (5 * doy + 2) sdiv 153;
          day = doy - (153 * mp + 2) sdiv 5 + 1;
          month = (if mp < 10 then mp + 3 else mp - 9);
          year = (if month \<le> 2 then year + 1 else year)
      in case (to_i64 year, to_i64 month, to_i64 day) of
           (Some y, Some m, Some d) \<Rightarrow> Some \<lparr>cd_year = y, cd_month = m, cd_day = d\<rparr>
         | _ \<Rightarrow> None)"

definition civil_from_days :: "int \<Rightarrow> civil_date option" where
  "civil_from_days days = civil_from_days_i128 days"

definition seconds_per_day :: int where
  "seconds_per_day = 86400"

definition datetime_from_epoch_secs :: "int \<Rightarrow> civil_date_time" where
  "datetime_from_epoch_secs epoch_secs =
     (let days = epoch_secs div seconds_per_day;
          secs_of_day = epoch_secs mod seconds_per_day
      in \<lparr>dt_date = civil_from_epoch_days days, dt_hour = secs_of_day sdiv 3600,
          dt_minute = (secs_of_day smod 3600) sdiv 60, dt_second = secs_of_day smod 60\<rparr>)"

definition checked_mul :: "int \<Rightarrow> int \<Rightarrow> int option" where
  "checked_mul a b = to_i64 (a * b)"

definition checked_add :: "int \<Rightarrow> int \<Rightarrow> int option" where
  "checked_add a b = to_i64 (a + b)"

definition epoch_secs_from_datetime :: "civil_date_time \<Rightarrow> int option" where
  "epoch_secs_from_datetime dt =
     (if \<not> datetime_is_valid dt then None
      else
        Option.bind (days_from_civil (dt_date dt)) (\<lambda>days.
        Option.bind (checked_mul (dt_hour dt) 3600) (\<lambda>hour_secs.
        Option.bind (checked_mul (dt_minute dt) 60) (\<lambda>minute_secs.
        Option.bind (checked_add hour_secs minute_secs) (\<lambda>partial.
        Option.bind (checked_add partial (dt_second dt)) (\<lambda>secs_of_day.
        Option.bind (checked_mul days seconds_per_day) (\<lambda>day_secs.
        checked_add day_secs secs_of_day)))))))"

section \<open>Years of an era\<close>

text \<open>
  An era is 400 years of 146097 days; its years start in March. \<open>year_start y\<close> is the first day of year
  \<open>y\<close>, and \<open>year_of_day\<close> the closed form the code uses to invert it.
\<close>

definition year_start :: "int \<Rightarrow> int" where
  "year_start y = 365 * y + y div 4 - y div 100 + (if y = 400 then 1 else 0)"

definition spread :: "int \<Rightarrow> int" where
  "spread doe = doe - doe div 1460 + doe div 36524 - doe div 146096"

definition leap_in_era :: "int \<Rightarrow> bool" where
  "leap_in_era y \<longleftrightarrow> (y mod 4 = 0 \<and> y mod 100 \<noteq> 0) \<or> y mod 400 = 0"

lemma year_table:
  "list_all (\<lambda>y. spread (year_start y) div 365 = y \<and> spread (year_start (y + 1) - 1) div 365 = y \<and>
       year_start (y + 1) - year_start y = (if leap_in_era (y + 1) then 366 else 365)) [0..399]"
  by code_simp

lemma day_table:
  "list_all (\<lambda>doy. let mp = (5 * doy + 2) div 153 in
      0 \<le> mp \<and> mp \<le> 11 \<and> 1 \<le> doy - (153 * mp + 2) div 5 + 1 \<and>
      (mp = 11 \<longrightarrow> doy - (153 * mp + 2) div 5 + 1 \<le> (if doy = 365 then 29 else 28)) \<and>
      (mp \<in> {1, 3, 6, 8} \<longrightarrow> doy - (153 * mp + 2) div 5 + 1 \<le> 30) \<and>
      doy - (153 * mp + 2) div 5 + 1 \<le> 31) [0..365]"
  by code_simp

lemma sdiv_nonneg [simp]: "0 \<le> a \<Longrightarrow> 0 < b \<Longrightarrow> (a :: int) sdiv b = a div b"
  by (cases "a = 0") (simp_all add: signed_divide_int_def sgn_if)

lemma smod_nonneg [simp]: "0 \<le> a \<Longrightarrow> 0 < b \<Longrightarrow> (a :: int) smod b = a mod b"
  by (cases "a = 0") (simp_all add: signed_modulo_int_def sgn_if)

lemma smod_eq_0_iff: "(a :: int) smod b = 0 \<longleftrightarrow> b dvd a"
  by (cases "a = 0") (simp_all add: signed_modulo_int_def sgn_0_0 flip: dvd_eq_mod_eq_0)

lemma is_leap_year_iff: "is_leap_year y \<longleftrightarrow> leap_in_era y"
  by (simp add: is_leap_year_def leap_in_era_def smod_eq_0_iff dvd_eq_mod_eq_0)

lemma leap_in_era_period: "leap_in_era (y + 400 * k) \<longleftrightarrow> leap_in_era y"
proof -
  have "(y + 400 * k) mod 4 = y mod 4" "(y + 400 * k) mod 100 = y mod 100" "(y + 400 * k) mod 400 = y mod 400"
    using mod_mult_self2 [of y 4 "100 * k"] mod_mult_self2 [of y 100 "4 * k"] by simp_all
  then show ?thesis by (simp add: leap_in_era_def)
qed

lemma div_less_pos: "0 < k \<Longrightarrow> x < n * k \<Longrightarrow> (x :: int) div k < n"
proof (rule ccontr)
  assume k: "0 < k" "x < n * k" and "\<not> x div k < n"
  then have "n * k \<le> x div k * k" by (intro mult_right_mono) auto
  with k div_mult_mod_eq [of x k] pos_mod_sign [of k x] show False by linarith
qed

lemma div_step: "0 \<le> x \<Longrightarrow> 0 < k \<Longrightarrow> (x + 1) div k = (x :: int) div k + (if k dvd x + 1 then 1 else 0)"
proof -
  assume "0 \<le> x" "0 < k"
  then obtain n m where "x = int n" "k = int m" by (metis nat_0_le less_imp_le)
  moreover have "int n + 1 = int (Suc n)" by simp
  ultimately show ?thesis
    using div_Suc [of n m] by (simp only: zdiv_int [symmetric] zmod_int [symmetric] dvd_eq_mod_eq_0) simp
qed

lemma spread_step: "0 \<le> x \<Longrightarrow> spread x \<le> spread (x + 1)"
  using dvd_trans [of 36524 "146096 :: int" "x + 1"] by (auto simp: spread_def div_step)

lemma spread_mono: "x \<le> y \<Longrightarrow> 0 \<le> x \<Longrightarrow> spread x \<le> spread y"
proof (induction y rule: int_ge_induct)
  case (step y)
  with spread_step [of y] show ?case by auto
qed simp

lemma year_tableD:
  assumes "0 \<le> y" "y < 400"
  shows "spread (year_start y) div 365 = y" "spread (year_start (y + 1) - 1) div 365 = y"
    "year_start (y + 1) = year_start y + (if leap_in_era (y + 1) then 366 else 365)"
  using year_table assms by (force simp: list_all_iff)+

lemma year_of_day:
  assumes "0 \<le> y" "y < 400" "year_start y \<le> doe" "doe < year_start (y + 1)"
  shows "spread doe div 365 = y"
proof -
  have "0 \<le> year_start y" using assms(1) by (simp add: year_start_def)
  then have "spread (year_start y) \<le> spread doe" "spread doe \<le> spread (year_start (y + 1) - 1)"
    using assms by (auto intro: spread_mono)
  from zdiv_mono1 [OF this(1), of 365] zdiv_mono1 [OF this(2), of 365] year_tableD [OF assms(1,2)]
  show ?thesis by simp
qed

lemma year_exists:
  assumes "0 \<le> doe" "doe < 146097"
  shows "\<exists>y. 0 \<le> y \<and> y < 400 \<and> year_start y \<le> doe \<and> doe < year_start (y + 1)"
proof -
  have "n \<le> 400 \<Longrightarrow> doe < year_start (int n) \<Longrightarrow>
    \<exists>y. 0 \<le> y \<and> y < int n \<and> year_start y \<le> doe \<and> doe < year_start (y + 1)" for n
  proof (induction n)
    case 0
    with assms show ?case by (simp add: year_start_def)
  next
    case (Suc n)
    then show ?case
      by (cases "doe < year_start (int n)") (fastforce simp: add.commute, auto intro!: exI [of _ "int n"] simp: add.commute)
  qed
  from this [of 400] assms show ?thesis by (simp add: year_start_def)
qed

section \<open>Days and dates\<close>

text \<open>The date of day \<open>doy\<close> of year \<open>y\<close> of an era, and its number.\<close>

definition date_at :: "int \<Rightarrow> int \<Rightarrow> int \<Rightarrow> civil_date" where
  "date_at era y doy =
     (let mp = (5 * doy + 2) div 153;
          month = (if mp < 10 then mp + 3 else mp - 9);
          year = y + era * 400
      in \<lparr>cd_year = (if month \<le> 2 then year + 1 else year), cd_month = month,
          cd_day = doy - (153 * mp + 2) div 5 + 1\<rparr>)"

definition day_number :: "int \<Rightarrow> int \<Rightarrow> int \<Rightarrow> int" where
  "day_number era y doy = era * 146097 + year_start y + doy - 719468"

text \<open>A day of an existing year.\<close>

definition day_in_year :: "int \<Rightarrow> int \<Rightarrow> bool" where
  "day_in_year y doy \<longleftrightarrow>
     0 \<le> y \<and> y < 400 \<and> 0 \<le> doy \<and> doy < (if leap_in_era (y + 1) then 366 else 365)"

lemma year_start_bounds:
  assumes "day_in_year y doy"
  shows "0 \<le> year_start y" "year_start y + doy < 146097" "year_start y = 365 * y + y div 4 - y div 100"
proof -
  have y: "0 \<le> y" "y < 400" "doy < year_start (y + 1) - year_start y"
    using assms year_tableD(3) [of y] by (auto simp: day_in_year_def)
  have "year_start (y + 1) \<le> 146097"
    using y(1,2) by (auto simp: year_start_def)
  with y show "0 \<le> year_start y" "year_start y + doy < 146097" "year_start y = 365 * y + y div 4 - y div 100"
    by (auto simp: year_start_def)
qed

lemma civil_from_epoch_days_date_at:
  assumes "day_in_year y doy"
  shows "civil_from_epoch_days (day_number era y doy) = date_at era y doy"
proof -
  let ?doe = "year_start y + doy"
  note b = year_start_bounds [OF assms]
  have y: "0 \<le> y" "y < 400" "0 \<le> doy" using assms by (auto simp: day_in_year_def)
  have z: "day_number era y doy + 719468 = ?doe + era * 146097" by (simp add: day_number_def)
  have era: "(?doe + era * 146097) div 146097 = era" using b y by simp
  have doe: "?doe + era * 146097 - era * 146097 = ?doe" by simp
  have "0 \<le> spread ?doe" using spread_mono [of 0 ?doe] b y by (simp add: spread_def)
  moreover have "spread ?doe div 365 = y"
    using assms year_tableD(3) [of y] by (intro year_of_day) (auto simp: day_in_year_def)
  moreover have "spread ?doe = ?doe - ?doe sdiv 1460 + ?doe sdiv 36524 - ?doe sdiv 146096"
    using b y by (simp add: spread_def)
  ultimately have yoe: "(?doe - ?doe sdiv 1460 + ?doe sdiv 36524 - ?doe sdiv 146096) sdiv 365 = y" by simp
  have doy: "?doe - (365 * y + y sdiv 4 - y sdiv 100) = doy" using b(3) y by simp
  have mp: "(5 * doy + 2) sdiv 153 = (5 * doy + 2) div 153"
    "(153 * ((5 * doy + 2) div 153) + 2) sdiv 5 = (153 * ((5 * doy + 2) div 153) + 2) div 5"
    using y by simp_all
  show ?thesis unfolding civil_from_epoch_days_def date_at_def Let_def z era doe yoe doy mp by (rule refl)
qed

lemma day_number_exists: "\<exists>era y doy. day_in_year y doy \<and> days = day_number era y doy"
proof -
  let ?z = "days + 719468"
  obtain y where y: "0 \<le> y" "y < 400" "year_start y \<le> ?z mod 146097" "?z mod 146097 < year_start (y + 1)"
    using year_exists [of "?z mod 146097"] by auto
  have "day_in_year y (?z mod 146097 - year_start y)"
    using y year_tableD(3) [of y] by (auto simp: day_in_year_def)
  moreover have "days = day_number (?z div 146097) y (?z mod 146097 - year_start y)"
    using div_mult_mod_eq [of ?z 146097] by (simp add: day_number_def)
  ultimately show ?thesis by blast
qed

text \<open>Months counted from March, as the code does it.\<close>

definition month_length :: "int \<Rightarrow> int \<Rightarrow> int" where
  "month_length mp y =
     (if mp = 11 then (if leap_in_era (y + 1) then 29 else 28) else if mp \<in> {1, 3, 6, 8} then 30 else 31)"

lemma mp_cases:
  assumes "0 \<le> (mp :: int)" "mp \<le> 11"
  obtains "mp = 0" | "mp = 1" | "mp = 2" | "mp = 3" | "mp = 4" | "mp = 5" | "mp = 6" | "mp = 7" | "mp = 8"
    | "mp = 9" | "mp = 10" | "mp = 11"
proof -
  have "mp = 0 \<or> mp = 1 \<or> mp = 2 \<or> mp = 3 \<or> mp = 4 \<or> mp = 5 \<or> mp = 6 \<or> mp = 7 \<or> mp = 8 \<or> mp = 9 \<or>
      mp = 10 \<or> mp = 11" using assms by presburger
  then show thesis using that by blast
qed

lemma month_of_mp:
  assumes "0 \<le> mp" "mp \<le> 11"
  defines "m \<equiv> (if mp < 10 then mp + 3 else mp - 9)"
  shows "days_in_month (y + era * 400 + (if m \<le> 2 then 1 else 0)) m = Some (month_length mp y)"
proof -
  have leap: "is_leap_year (y + era * 400 + 1) \<longleftrightarrow> leap_in_era (y + 1)"
    using leap_in_era_period [of "y + 1" era] by (simp add: is_leap_year_iff ac_simps)
  show ?thesis
    using assms(1,2) unfolding m_def
    by (cases rule: mp_cases) (simp_all add: days_in_month_def month_length_def leap)
qed

lemma day_of_month:
  assumes "0 \<le> mp" "mp \<le> 11" "1 \<le> day" "day \<le> month_length mp y"
  defines "doy \<equiv> (153 * mp + 2) div 5 + day - 1"
  shows "(5 * doy + 2) div 153 = mp \<and> 0 \<le> doy \<and> doy < (if leap_in_era (y + 1) then 366 else 365)"
  using assms(1,2)
proof (cases rule: mp_cases)
qed (use assms(3,4) in \<open>simp_all add: doy_def month_length_def split: if_splits\<close>)

lemma mp_of_day:
  assumes "day_in_year y doy"
  defines "mp \<equiv> (5 * doy + 2) div 153"
  shows "0 \<le> mp \<and> mp \<le> 11 \<and> 1 \<le> doy - (153 * mp + 2) div 5 + 1 \<and>
     doy - (153 * mp + 2) div 5 + 1 \<le> month_length mp y"
proof -
  have "doy \<in> set [0..365]" using assms(1) by (auto simp: day_in_year_def split: if_splits)
  with day_table have row: "0 \<le> mp \<and> mp \<le> 11 \<and> 1 \<le> doy - (153 * mp + 2) div 5 + 1 \<and>
      (mp = 11 \<longrightarrow> doy - (153 * mp + 2) div 5 + 1 \<le> (if doy = 365 then 29 else 28)) \<and>
      (mp \<in> {1, 3, 6, 8} \<longrightarrow> doy - (153 * mp + 2) div 5 + 1 \<le> 30) \<and>
      doy - (153 * mp + 2) div 5 + 1 \<le> 31"
    unfolding list_all_iff Let_def mp_def by blast
  have "doy = 365 \<Longrightarrow> leap_in_era (y + 1)" using assms(1) by (auto simp: day_in_year_def split: if_splits)
  with row show ?thesis by (auto simp: month_length_def split: if_splits)
qed

lemma date_at_valid: "day_in_year y doy \<Longrightarrow> date_is_valid (date_at era y doy)"
  using mp_of_day [of y doy] month_of_mp [of "(5 * doy + 2) div 153" y era]
  by (simp add: date_is_valid_def date_at_def Let_def if_distrib [of "(+) _"] cong: if_cong)

lemma days_from_civil_date_at:
  assumes "day_in_year y doy"
  shows "days_from_civil (date_at era y doy) = to_i64 (day_number era y doy)"
proof -
  define mp where "mp = (5 * doy + 2) div 153"
  define m where "m = (if mp < 10 then mp + 3 else mp - 9)"
  note mp = mp_of_day [OF assms, folded mp_def]
  have y: "0 \<le> y" "y < 400" using assms by (auto simp: day_in_year_def)
  have m: "m \<le> 2 \<longleftrightarrow> 10 \<le> mp" "m + (if m > 2 then - 3 else 9) = mp" using mp by (auto simp: m_def)
  have date: "date_at era y doy = \<lparr>cd_year = (if m \<le> 2 then y + era * 400 + 1 else y + era * 400),
      cd_month = m, cd_day = doy - (153 * mp + 2) div 5 + 1\<rparr>"
    by (simp add: date_at_def mp_def m_def Let_def)
  have year: "(if m \<le> 2 then (if m \<le> 2 then y + era * 400 + 1 else y + era * 400) - 1
      else (if m \<le> 2 then y + era * 400 + 1 else y + era * 400)) = y + era * 400" by simp
  have era: "(y + era * 400) div 400 = era" "y + era * 400 - era * 400 = y" using y by simp_all
  have sd: "(153 * mp + 2) sdiv 5 = (153 * mp + 2) div 5" "y sdiv 4 = y div 4" "y sdiv 100 = y div 100"
    using mp y by simp_all
  have "days_from_civil (date_at era y doy) =
      to_i64 (era * 146097 + (y * 365 + y div 4 - y div 100 +
        ((153 * mp + 2) div 5 + (doy - (153 * mp + 2) div 5 + 1) - 1)) - 719468)"
    using date_at_valid [OF assms, of era]
    unfolding days_from_civil_def date civil_date.simps Let_def year era m(2) sd by simp
  moreover have "era * 146097 + (y * 365 + y div 4 - y div 100 +
        ((153 * mp + 2) div 5 + (doy - (153 * mp + 2) div 5 + 1) - 1)) - 719468 = day_number era y doy"
    using year_start_bounds(3) [OF assms] by (simp add: day_number_def)
  ultimately show ?thesis by simp
qed

lemma valid_date_at:
  assumes "date_is_valid d"
  shows "\<exists>era y doy. day_in_year y doy \<and> d = date_at era y doy"
proof -
  define m where "m = cd_month d"
  define mp where "mp = (if m > 2 then m - 3 else m + 9)"
  define yr where "yr = (if m \<le> 2 then cd_year d - 1 else cd_year d)"
  let ?era = "yr div 400" and ?y = "yr mod 400" and ?doy = "(153 * mp + 2) div 5 + cd_day d - 1"
  have m: "1 \<le> m" "m \<le> 12"
    using assms by (auto simp: date_is_valid_def days_in_month_def m_def split: if_splits)
  then have mp: "0 \<le> mp" "mp \<le> 11" by (auto simp: mp_def)
  have month_eq: "(if mp < 10 then mp + 3 else mp - 9) = m" using m by (auto simp: mp_def)
  have yr: "?y + ?era * 400 = yr" by (simp add: div_mult_mod_eq add.commute)
  then have year: "?y + ?era * 400 + (if m \<le> 2 then 1 else 0) = cd_year d" by (simp add: yr_def)
  have "days_in_month (cd_year d) m = Some (month_length mp ?y)"
    using month_of_mp [OF mp, of ?y ?era] unfolding month_eq year .
  then have day: "1 \<le> cd_day d" "cd_day d \<le> month_length mp ?y"
    using assms by (auto simp: date_is_valid_def m_def)
  note dm = day_of_month [OF mp day]
  have "day_in_year ?y ?doy" using dm by (auto simp: day_in_year_def)
  moreover have "d = date_at ?era ?y ?doy"
    using dm month_eq year yr by (cases d) (auto simp: date_at_def Let_def m_def)
  ultimately show ?thesis by blast
qed

text \<open>Over mathematical integers the two conversions are inverse bijections.\<close>

lemma civil_from_epoch_days_valid: "date_is_valid (civil_from_epoch_days n)"
  using day_number_exists [of n] by (auto simp: civil_from_epoch_days_date_at date_at_valid)

lemma days_from_civil_from_epoch_days: "days_from_civil (civil_from_epoch_days n) = to_i64 n"
  using day_number_exists [of n] by (auto simp: civil_from_epoch_days_date_at days_from_civil_date_at)

lemma civil_from_epoch_days_from_civil:
  "days_from_civil d = Some n \<Longrightarrow> civil_from_epoch_days n = d \<and> in_i64 n"
proof -
  assume n: "days_from_civil d = Some n"
  then have "date_is_valid d" by (simp add: days_from_civil_def split: if_splits)
  with valid_date_at obtain era y doy where "day_in_year y doy" "d = date_at era y doy" by blast
  with n show ?thesis
    by (auto simp: civil_from_epoch_days_date_at days_from_civil_date_at to_i64_def split: if_splits)
qed

section \<open>Times\<close>

lemma to_i64_eq_Some [simp]: "to_i64 x = Some y \<longleftrightarrow> y = x \<and> in_i64 x"
  by (auto simp: to_i64_def)

text \<open>The fields of the time of day, and their seconds.\<close>

lemma secs_of_day_fields:
  assumes "0 \<le> h" "h < 24" "0 \<le> m" "m < 60" "0 \<le> s" "s < 60"
  defines "secs \<equiv> h * 3600 + m * 60 + (s :: int)"
  shows "0 \<le> secs \<and> secs < 86400 \<and> secs sdiv 3600 = h \<and> (secs smod 3600) sdiv 60 = m \<and> secs smod 60 = s"
proof -
  have nn: "0 \<le> secs" "secs < 86400" using assms by auto
  have "secs div 3600 = h" using assms by (simp add: secs_def)
  moreover have "secs mod 3600 = m * 60 + s"
    using assms mod_mult_self3 [of h 3600 "m * 60 + s"] by (simp add: secs_def add.assoc)
  moreover have "(m * 60 + s) div 60 = m" using assms by simp
  moreover have "secs mod 60 = s"
    using assms mod_mult_self2 [of s 60 "h * 60 + m"] by (simp add: secs_def algebra_simps)
  ultimately show ?thesis using nn assms by simp
qed

lemma datetime_from_epoch_secs_split:
  assumes "0 \<le> h" "h < 24" "0 \<le> m" "m < 60" "0 \<le> s" "s < 60"
  shows "datetime_from_epoch_secs (n * 86400 + (h * 3600 + m * 60 + s)) =
     \<lparr>dt_date = civil_from_epoch_days n, dt_hour = h, dt_minute = m, dt_second = s\<rparr>"
proof -
  let ?secs = "h * 3600 + m * 60 + s"
  note f = secs_of_day_fields [OF assms]
  have "(n * 86400 + ?secs) div 86400 = n" "(n * 86400 + ?secs) mod 86400 = ?secs" using f by simp_all
  with f show ?thesis
    unfolding datetime_from_epoch_secs_def seconds_per_day_def Let_def by (simp del: sdiv_nonneg smod_nonneg)
qed

lemma epoch_split:
  "\<exists>h m s. 0 \<le> h \<and> h < 24 \<and> 0 \<le> m \<and> m < 60 \<and> 0 \<le> s \<and> s < 60 \<and>
     (t :: int) = t div 86400 * 86400 + (h * 3600 + m * 60 + s)"
proof (intro exI conjI)
  let ?u = "t mod 86400"
  have u: "0 \<le> ?u" "?u < 86400" by simp_all
  have "?u = ?u div 3600 * 3600 + ?u mod 3600" "?u mod 3600 = ?u mod 3600 div 60 * 60 + ?u mod 3600 mod 60"
    by (simp_all only: div_mult_mod_eq)
  then show "t = t div 86400 * 86400 + (?u div 3600 * 3600 + ?u mod 3600 div 60 * 60 + ?u mod 3600 mod 60)"
    using div_mult_mod_eq [of t 86400] by linarith
  show "?u div 3600 < 24" using u(2) by (intro div_less_pos) simp_all
qed (auto intro: div_less_pos)

lemma epoch_secs_from_datetime_split:
  assumes "date_is_valid d" "0 \<le> h" "h < 24" "0 \<le> m" "m < 60" "0 \<le> s" "s < 60"
  shows "epoch_secs_from_datetime \<lparr>dt_date = d, dt_hour = h, dt_minute = m, dt_second = s\<rparr> =
     Option.bind (days_from_civil d) (\<lambda>n. Option.bind (to_i64 (n * 86400)) (\<lambda>x. to_i64 (x + (h * 3600 + m * 60 + s))))"
proof -
  have "in_i64 (h * 3600)" "in_i64 (m * 60)" "in_i64 (h * 3600 + m * 60)" "in_i64 (h * 3600 + m * 60 + s)"
    using assms by (auto simp: in_i64_def)
  with assms show ?thesis
    by (simp add: epoch_secs_from_datetime_def datetime_is_valid_def checked_mul_def checked_add_def
        seconds_per_day_def to_i64_def)
qed

section \<open>Properties of civil time\<close>

lemma civil_year_range:
  assumes "in_i64 n"
  shows "in_i64 (cd_year (civil_from_epoch_days n))"
proof -
  obtain era y doy where d: "day_in_year y doy" "n = day_number era y doy" using day_number_exists by blast
  define doe where "doe = year_start y + doy"
  define yr where "yr = cd_year (date_at era y doy)"
  have "y + era * 400 \<le> yr" "yr \<le> y + era * 400 + 1"
    by (auto simp: date_at_def Let_def yr_def)
  moreover have "0 \<le> y" "y < 400" "0 \<le> doe" "doe < 146097"
    using d(1) year_start_bounds [OF d(1)] by (auto simp: day_in_year_def doe_def)
  moreover have "n = era * 146097 + doe - 719468" using d(2) by (simp add: day_number_def doe_def)
  ultimately have "in_i64 yr" using assms by (auto simp: in_i64_def)
  then show ?thesis using d by (simp add: civil_from_epoch_days_date_at yr_def)
qed

lemma civil_from_days_i128_eq:
  "civil_from_days_i128 n =
     (case (to_i64 (cd_year (civil_from_epoch_days n)), to_i64 (cd_month (civil_from_epoch_days n)),
            to_i64 (cd_day (civil_from_epoch_days n))) of
        (Some y, Some m, Some d) \<Rightarrow> Some \<lparr>cd_year = y, cd_month = m, cd_day = d\<rparr>
      | _ \<Rightarrow> None)"
  by (simp only: civil_from_days_i128_def civil_from_epoch_days_def Let_def civil_date.select_convs)

lemma civil_from_days_eq:
  assumes "in_i64 n"
  shows "civil_from_days n = Some (civil_from_epoch_days n)"
proof -
  let ?d = "civil_from_epoch_days n"
  have "1 \<le> cd_month ?d \<and> cd_month ?d \<le> 12 \<and> 1 \<le> cd_day ?d \<and> cd_day ?d \<le> 31"
    using civil_from_epoch_days_valid [of n] by (auto simp: date_is_valid_def days_in_month_def split: if_splits)
  then have "in_i64 (cd_month ?d)" "in_i64 (cd_day ?d)" by (auto simp: in_i64_def)
  with civil_year_range [OF assms] show ?thesis
    by (simp add: civil_from_days_def civil_from_days_i128_eq to_i64_def)
qed

text \<open>The fields of a converted epoch second, and of a date within a range of years.\<close>

lemma datetime_of_epoch:
  obtains h m s where "0 \<le> h" "h < 24" "0 \<le> m" "m < 60" "0 \<le> s" "s < 60"
    "t = t div 86400 * 86400 + (h * 3600 + m * 60 + s)"
    "datetime_from_epoch_secs t =
       \<lparr>dt_date = civil_from_epoch_days (t div 86400), dt_hour = h, dt_minute = m, dt_second = s\<rparr>"
proof -
  obtain h m s where f: "0 \<le> h" "h < 24" "0 \<le> m" "m < 60" "0 \<le> s" "s < 60"
    and t: "t = t div 86400 * 86400 + (h * 3600 + m * 60 + s)" using epoch_split by blast
  have "datetime_from_epoch_secs t =
      \<lparr>dt_date = civil_from_epoch_days (t div 86400), dt_hour = h, dt_minute = m, dt_second = s\<rparr>"
    by (subst t) (rule datetime_from_epoch_secs_split [OF f])
  with f t show thesis by (rule that)
qed

lemma datetime_from_epoch_secs_valid: "datetime_is_valid (datetime_from_epoch_secs t)"
  by (rule datetime_of_epoch [of t]) (simp add: datetime_is_valid_def civil_from_epoch_days_valid)

lemma year_bounds_days:
  assumes "0 \<le> cd_year (civil_from_epoch_days n)" "cd_year (civil_from_epoch_days n) \<le> 9999"
  shows "- 1000000 \<le> n \<and> n \<le> 4000000"
proof -
  obtain era y doy where d: "day_in_year y doy" "n = day_number era y doy" using day_number_exists by blast
  define doe where "doe = year_start y + doy"
  define yr where "yr = cd_year (date_at era y doy)"
  have "y + era * 400 \<le> yr" "yr \<le> y + era * 400 + 1"
    by (auto simp: date_at_def Let_def yr_def)
  moreover have "0 \<le> y" "y < 400" "0 \<le> doe" "doe < 146097"
    using d(1) year_start_bounds [OF d(1)] by (auto simp: day_in_year_def doe_def)
  moreover have "n = era * 146097 + doe - 719468" using d(2) by (simp add: day_number_def doe_def)
  moreover have "0 \<le> yr" "yr \<le> 9999" using assms d by (simp_all add: civil_from_epoch_days_date_at yr_def)
  ultimately show ?thesis by linarith
qed

lemma epoch_secs_from_datetime_from:
  assumes "in_i64 t"
  shows "epoch_secs_from_datetime (datetime_from_epoch_secs t) =
        (if - (2 ^ 63) \<le> t div 86400 * 86400 then Some t else None)"
proof (rule datetime_of_epoch [of t])
  fix h m s
  assume f: "0 \<le> h" "h < 24" "0 \<le> m" "m < 60" "0 \<le> s" "s < 60"
    and t: "t = t div 86400 * 86400 + (h * 3600 + m * 60 + s)"
    and dt: "datetime_from_epoch_secs t =
      \<lparr>dt_date = civil_from_epoch_days (t div 86400), dt_hour = h, dt_minute = m, dt_second = s\<rparr>"
  let ?n = "t div 86400"
  have bounds: "?n * 86400 \<le> t" "t < ?n * 86400 + 86400" using t f by linarith+
  then have n: "in_i64 ?n" using assms by (auto simp: in_i64_def)
  have mul: "in_i64 (?n * 86400) \<longleftrightarrow> - (2 ^ 63) \<le> ?n * 86400" using bounds assms by (auto simp: in_i64_def)
  have "to_i64 (?n * 86400 + (h * 3600 + m * 60 + s)) = Some t" using assms t by simp
  then show ?thesis
    unfolding dt epoch_secs_from_datetime_split [OF civil_from_epoch_days_valid f] days_from_civil_from_epoch_days
    using n mul by (simp add: to_i64_def)
qed

lemma datetime_from_epoch_secs_from:
  assumes e: "epoch_secs_from_datetime dt = Some t"
  shows "datetime_from_epoch_secs t = dt"
proof -
  obtain d h m s where dt: "dt = \<lparr>dt_date = d, dt_hour = h, dt_minute = m, dt_second = s\<rparr>" by (cases dt)
  have "datetime_is_valid dt" using e by (simp add: epoch_secs_from_datetime_def split: if_splits)
  then have f: "0 \<le> h" "h < 24" "0 \<le> m" "m < 60" "0 \<le> s" "s < 60" and v: "date_is_valid d"
    by (auto simp: datetime_is_valid_def dt)
  from e obtain n where n: "days_from_civil d = Some n" "t = n * 86400 + (h * 3600 + m * 60 + s)"
    unfolding dt epoch_secs_from_datetime_split [OF v f] by (auto simp: bind_eq_Some_conv)
  then show ?thesis
    using datetime_from_epoch_secs_split [OF f, of n] civil_from_epoch_days_from_civil [OF n(1)] by (simp add: dt)
qed

text \<open>
  C18. Every epoch second and every day number has a valid civil date. The seconds conversion always
  yields a valid date and time; for every \<^verbatim>\<open>i64\<close> day the checked conversion succeeds, with a valid date
  whose day number it is; and a date has a day number exactly when it is valid and its number fits
  \<^verbatim>\<open>i64\<close>, in which case the conversion of that number gives the date back.
\<close>

theorem civil_dates_valid:
  "datetime_is_valid (datetime_from_epoch_secs t) \<and>
   (in_i64 n \<longrightarrow> (\<exists>d. civil_from_days n = Some d \<and> date_is_valid d \<and> in_i64 (cd_year d) \<and> days_from_civil d = Some n)) \<and>
   (days_from_civil d = Some n \<longrightarrow> date_is_valid d \<and> in_i64 n \<and> civil_from_days n = Some d)"
proof (intro conjI impI)
  show "datetime_is_valid (datetime_from_epoch_secs t)" by (rule datetime_from_epoch_secs_valid)
next
  assume "in_i64 n"
  then show "\<exists>d. civil_from_days n = Some d \<and> date_is_valid d \<and> in_i64 (cd_year d) \<and> days_from_civil d = Some n"
    by (simp add: civil_from_days_eq civil_from_epoch_days_valid days_from_civil_from_epoch_days civil_year_range)
next
  assume d: "days_from_civil d = Some n"
  show "date_is_valid d" using d by (simp add: days_from_civil_def split: if_splits)
  show "in_i64 n" using civil_from_epoch_days_from_civil [OF d] by simp
  then show "civil_from_days n = Some d" using civil_from_epoch_days_from_civil [OF d] civil_from_days_eq by simp
qed

theorem civil_dates_valid_witness:
  "civil_from_days 11016 = Some \<lparr>cd_year = 2000, cd_month = 2, cd_day = 29\<rparr>"
proof -
  have "days_from_civil \<lparr>cd_year = 2000, cd_month = 2, cd_day = 29\<rparr> = Some 11016" by code_simp
  with civil_dates_valid [of 0 11016 "\<lparr>cd_year = 2000, cd_month = 2, cd_day = 29\<rparr>"] show ?thesis by blast
qed

text \<open>
  Epoch seconds and valid dates with a time of day convert back and forth without loss. From a time to
  seconds and back is the identity. From seconds to a time and back is the identity as well, except
  for the seconds of the one day that begins before the least \<^verbatim>\<open>i64\<close>: there the way back fails, since the
  product of the day number with the seconds per day is checked before the time of day is added.
\<close>

lemma epoch_secs_roundtrip:
  "(in_i64 t \<longrightarrow>
      epoch_secs_from_datetime (datetime_from_epoch_secs t) =
        (if - (2 ^ 63) \<le> t div 86400 * 86400 then Some t else None)) \<and>
   (epoch_secs_from_datetime dt = Some t \<longrightarrow> datetime_from_epoch_secs t = dt)"
  using epoch_secs_from_datetime_from datetime_from_epoch_secs_from by blast

lemma epoch_secs_roundtrip_witness:
  "epoch_secs_from_datetime (datetime_from_epoch_secs 951782400) = Some 951782400 \<and>
   epoch_secs_from_datetime (datetime_from_epoch_secs (- (2 ^ 63))) = None"
  using epoch_secs_roundtrip [of 951782400] epoch_secs_roundtrip [of "- (2 ^ 63)"] by (simp add: in_i64_def)

end
