(* ===== verification/Rfc3339.thy ===== *)
theory Rfc3339
  imports Civil
begin

text \<open>
  RFC 3339 timestamps, \<^verbatim>\<open>core/rskit-util/src/time/rfc3339.rs\<close>: formatting and parsing of whole-second UTC
  times. The system clock is the seconds since the epoch, or nothing when it is set before it.
\<close>

section \<open>Formatting and parsing\<close>

text \<open>\<open>show_padded w x\<close> is the conversion \<^verbatim>\<open>{:0w}\<close> of a signed integer.\<close>

definition zero_pad :: "nat \<Rightarrow> string \<Rightarrow> string" where
  "zero_pad w s = replicate (w - length s) (digit_char 0) @ s"

definition show_padded :: "nat \<Rightarrow> int \<Rightarrow> string" where
  "show_padded w x =
     (if x < 0 then CHR ''-'' # zero_pad (w - 1) (show_nat (nat (- x))) else zero_pad w (show_nat (nat x)))"

definition is_rfc3339_year :: "int \<Rightarrow> bool" where
  "is_rfc3339_year y \<longleftrightarrow> 0 \<le> y \<and> y \<le> 9999"

definition format_datetime :: "civil_date_time \<Rightarrow> string" where
  "format_datetime dt =
     show_padded 4 (cd_year (dt_date dt)) @ ''-'' @ show_padded 2 (cd_month (dt_date dt)) @ ''-'' @
     show_padded 2 (cd_day (dt_date dt)) @ ''T'' @ show_padded 2 (dt_hour dt) @ '':'' @
     show_padded 2 (dt_minute dt) @ '':'' @ show_padded 2 (dt_second dt) @ ''Z''"

definition format_rfc3339_datetime :: "civil_date_time \<Rightarrow> string option" where
  "format_rfc3339_datetime dt =
     (if datetime_is_valid dt \<and> is_rfc3339_year (cd_year (dt_date dt)) then Some (format_datetime dt) else None)"

definition format_rfc3339 :: "int \<Rightarrow> string option" where
  "format_rfc3339 epoch_secs = format_rfc3339_datetime (datetime_from_epoch_secs epoch_secs)"

definition format_compact_utc :: "int \<Rightarrow> string option" where
  "format_compact_utc epoch_secs =
     (let dt = datetime_from_epoch_secs epoch_secs in
      if datetime_is_valid dt \<and> is_rfc3339_year (cd_year (dt_date dt)) then
        Some (show_padded 4 (cd_year (dt_date dt)) @ show_padded 2 (cd_month (dt_date dt)) @
              show_padded 2 (cd_day (dt_date dt)) @ ''-'' @ show_padded 2 (dt_hour dt) @
              show_padded 2 (dt_minute dt) @ show_padded 2 (dt_second dt))
      else None)"

definition digit :: "char \<Rightarrow> int option" where
  "digit b = (if 48 \<le> (of_char b :: nat) \<and> (of_char b :: nat) \<le> 57 then Some (int (of_char b - 48)) else None)"

definition parse_2 :: "string \<Rightarrow> nat \<Rightarrow> int option" where
  "parse_2 bytes start =
     Option.bind (digit (bytes ! start)) (\<lambda>tens.
     Option.bind (digit (bytes ! (start + 1))) (\<lambda>ones. Some (tens * 10 + ones)))"

definition parse_4 :: "string \<Rightarrow> nat \<Rightarrow> int option" where
  "parse_4 bytes start =
     Option.bind (digit (bytes ! start)) (\<lambda>thousands.
     Option.bind (digit (bytes ! (start + 1))) (\<lambda>hundreds.
     Option.bind (digit (bytes ! (start + 2))) (\<lambda>tens.
     Option.bind (digit (bytes ! (start + 3))) (\<lambda>ones.
     Some (thousands * 1000 + hundreds * 100 + tens * 10 + ones)))))"

definition parse_rfc3339_utc_datetime :: "string \<Rightarrow> civil_date_time option" where
  "parse_rfc3339_utc_datetime s =
     (if length s \<noteq> 20 \<or> s ! 4 \<noteq> CHR ''-'' \<or> s ! 7 \<noteq> CHR ''-'' \<or>
         \<not> (s ! 10 = CHR ''T'' \<or> s ! 10 = CHR ''t'') \<or> s ! 13 \<noteq> CHR '':'' \<or> s ! 16 \<noteq> CHR '':'' \<or>
         \<not> (s ! 19 = CHR ''Z'' \<or> s ! 19 = CHR ''z'')
      then None
      else
        Option.bind (parse_4 s 0) (\<lambda>year.
        Option.bind (parse_2 s 5) (\<lambda>month.
        Option.bind (parse_2 s 8) (\<lambda>day.
        Option.bind (civil_date_new year month day) (\<lambda>date.
        Option.bind (parse_2 s 11) (\<lambda>hour.
        Option.bind (parse_2 s 14) (\<lambda>minute.
        Option.bind (parse_2 s 17) (\<lambda>second. civil_date_time_new date hour minute second))))))))"

definition parse_rfc3339_utc :: "string \<Rightarrow> int option" where
  "parse_rfc3339_utc s = Option.bind (parse_rfc3339_utc_datetime s) epoch_secs_from_datetime"

definition now_epoch_secs :: "nat option \<Rightarrow> int option" where
  "now_epoch_secs since_epoch = Option.bind since_epoch (\<lambda>secs. to_i64 (int secs))"

definition now_utc :: "nat option \<Rightarrow> civil_date_time option" where
  "now_utc since_epoch = map_option datetime_from_epoch_secs (now_epoch_secs since_epoch)"

definition now_rfc3339 :: "nat option \<Rightarrow> string option" where
  "now_rfc3339 since_epoch = Option.bind (now_epoch_secs since_epoch) format_rfc3339"

section \<open>Digits\<close>

lemma of_char_digit_char: "d < 10 \<Longrightarrow> (of_char (digit_char d) :: nat) = 48 + d"
  by (simp add: digit_char_def)

lemma digit_digit_char [simp]: "d < 10 \<Longrightarrow> digit (digit_char d) = Some (int d)"
  by (simp add: digit_def of_char_digit_char)

lemma digit_SomeD: "digit c = Some d \<Longrightarrow> 0 \<le> d \<and> d < 10 \<and> c = digit_char (nat d)"
proof -
  assume "digit c = Some d"
  then have c: "48 \<le> (of_char c :: nat)" "(of_char c :: nat) \<le> 57" "d = int (of_char c - 48)"
    by (auto simp: digit_def split: if_splits)
  then have "48 + nat d = (of_char c :: nat)" by simp
  then have "digit_char (nat d) = c" by (simp add: digit_char_def)
  with c show ?thesis by auto
qed

lemma show_nat_small: "n < 10 \<Longrightarrow> show_nat n = [digit_char n]"
  by (simp add: show_nat.simps)

lemma show_nat_big: "10 \<le> n \<Longrightarrow> show_nat n = show_nat (n div 10) @ [digit_char (n mod 10)]"
  by (subst show_nat.simps) simp

lemma div_lt: "n < 100 \<Longrightarrow> n div 10 < (10 :: nat)"
  by presburger

lemma show_padded_2:
  assumes "0 \<le> x" "x < 100"
  shows "show_padded 2 x = [digit_char (nat x div 10), digit_char (nat x mod 10)]"
proof -
  have "nat x < 100" using assms by simp
  then show ?thesis using assms
    by (cases "nat x < 10") (simp_all add: show_padded_def zero_pad_def show_nat.simps [of "nat x"]
        show_nat.simps [of "nat x div 10"] div_less_pos less_mult_imp_div_less)
qed

lemma replicate_zeroes: "replicate 3 c = [c, c, c]" "replicate 2 c = [c, c]" "replicate (Suc 0) c = [c]"
  by (simp_all add: numeral_eq_Suc)

lemma zero_pad_4:
  assumes n: "n < 10000"
  shows "zero_pad 4 (show_nat n) =
    [digit_char (n div 1000), digit_char (n div 100 mod 10), digit_char (n div 10 mod 10), digit_char (n mod 10)]"
proof -
  have d: "n div 10 div 10 = n div 100" "n div 100 div 10 = n div 1000" by (simp_all flip: div_mult2_eq)
  consider "n < 10" | "10 \<le> n" "n < 100" | "100 \<le> n" "n < 1000" | "1000 \<le> n" by linarith
  then show ?thesis
  proof cases
    case 1 then show ?thesis by (simp add: zero_pad_def show_nat_small replicate_zeroes)
  next
    case 2 then show ?thesis by (simp add: zero_pad_def show_nat_big show_nat_small div_lt replicate_zeroes)
  next
    case 3
    then have "10 \<le> n div 10" "n div 100 < 10"
      using div_le_mono [of 100 n 10] less_mult_imp_div_less [of n 10 100] by simp_all
    with 3 d show ?thesis by (simp add: zero_pad_def show_nat_big show_nat_small replicate_zeroes)
  next
    case 4
    then have "10 \<le> n div 10" "10 \<le> n div 100" "n div 1000 < 10"
      using n div_le_mono [of 100 n 10] div_le_mono [of 1000 n 100] less_mult_imp_div_less [of n 10 1000]
      by simp_all
    with 4 d show ?thesis by (simp add: zero_pad_def show_nat_big show_nat_small)
  qed
qed

lemma show_padded_4:
  assumes "0 \<le> x" "x < 10000"
  shows "show_padded 4 x = [digit_char (nat x div 1000), digit_char (nat x div 100 mod 10),
     digit_char (nat x div 10 mod 10), digit_char (nat x mod 10)]"
  using assms zero_pad_4 [of "nat x"] by (simp add: show_padded_def)

lemma parse_2_digits:
  "parse_2 s i = Some x \<longleftrightarrow> (\<exists>a b. digit (s ! i) = Some a \<and> digit (s ! (i + 1)) = Some b \<and> x = a * 10 + b)"
  by (auto simp: parse_2_def bind_eq_Some_conv)

lemma parse_4_digits:
  "parse_4 s i = Some x \<longleftrightarrow>
     (\<exists>a b c d. digit (s ! i) = Some a \<and> digit (s ! (i + 1)) = Some b \<and> digit (s ! (i + 2)) = Some c \<and>
        digit (s ! (i + 3)) = Some d \<and> x = a * 1000 + b * 100 + c * 10 + d)"
  by (auto simp: parse_4_def bind_eq_Some_conv)

text \<open>Two digits are the padded number they parse to, and back.\<close>

lemma two_digits:
  assumes "digit c1 = Some a" "digit c2 = Some b"
  shows "0 \<le> a * 10 + b \<and> a * 10 + b < 100 \<and> show_padded 2 (a * 10 + b) = [c1, c2]"
proof -
  note d = digit_SomeD [OF assms(1)] digit_SomeD [OF assms(2)]
  have "nat (a * 10 + b) = nat a * 10 + nat b" using d by (simp add: nat_add_distrib nat_mult_distrib)
  moreover have "nat b < 10" using d by linarith
  ultimately show ?thesis using d by (simp add: show_padded_2)
qed

lemma decimal_digits4:
  assumes "b < 10" "c < 10" "d < (10 :: nat)" and n: "n = a * 1000 + b * 100 + c * 10 + d"
  shows "n div 1000 = a" "n div 100 mod 10 = b" "n div 10 mod 10 = c" "n mod 10 = d"
proof -
  define p where "p = a * 10 + b"
  define q where "q = p * 10 + c"
  have nq: "n = q * 10 + d" using n by (simp add: p_def q_def)
  have n10: "n div 10 = q" "n mod 10 = d" unfolding nq using assms(3) by simp_all
  have q10: "q div 10 = p" "q mod 10 = c" unfolding q_def using assms(2) by simp_all
  have p10: "p div 10 = a" "p mod 10 = b" unfolding p_def using assms(1) by simp_all
  have "n div 100 = n div 10 div 10" "n div 1000 = n div 10 div 10 div 10" by (simp_all flip: div_mult2_eq)
  then show "n div 1000 = a" "n div 100 mod 10 = b" "n div 10 mod 10 = c" "n mod 10 = d"
    by (simp_all only: n10 q10 p10)
qed

lemma four_digits:
  assumes "digit c1 = Some a" "digit c2 = Some b" "digit c3 = Some c" "digit c4 = Some d"
  shows "0 \<le> a * 1000 + b * 100 + c * 10 + d \<and> a * 1000 + b * 100 + c * 10 + d < 10000 \<and>
    show_padded 4 (a * 1000 + b * 100 + c * 10 + d) = [c1, c2, c3, c4]"
proof -
  note d = digit_SomeD [OF assms(1)] digit_SomeD [OF assms(2)] digit_SomeD [OF assms(3)] digit_SomeD [OF assms(4)]
  let ?x = "a * 1000 + b * 100 + c * 10 + d" and ?n = "nat a * 1000 + nat b * 100 + nat c * 10 + nat d"
  have n: "nat ?x = ?n" using d by (simp add: nat_add_distrib nat_mult_distrib)
  have small: "nat b < 10" "nat c < 10" "nat d < 10" using d by linarith+
  note digits4 = decimal_digits4 [OF small, of ?n "nat a", OF refl]
  have "0 \<le> ?x" "?x < 10000" using d by auto
  then show ?thesis using d by (simp only: show_padded_4 n digits4 simp_thms)
qed

lemma padded_2_digits:
  assumes "0 \<le> x" "x < 100"
  obtains c1 c2 a b where "show_padded 2 x = [c1, c2]" "digit c1 = Some a" "digit c2 = Some b" "a * 10 + b = x"
proof -
  have n: "nat x div 10 < 10" "nat x mod 10 < 10" using assms by (auto intro: div_lt)
  have "int (nat x div 10) * 10 + int (nat x mod 10) = int (nat x)"
    using arg_cong [OF div_mult_mod_eq [of "nat x" 10], of int]
    by (simp only: of_nat_add of_nat_mult of_nat_numeral)
  with assms show thesis
    by (intro that [OF show_padded_2 [OF assms] digit_digit_char [OF n(1)] digit_digit_char [OF n(2)]]) simp
qed

lemma padded_4_digits:
  assumes "0 \<le> x" "x < 10000"
  obtains c1 c2 c3 c4 a b c d where "show_padded 4 x = [c1, c2, c3, c4]"
    "digit c1 = Some a" "digit c2 = Some b" "digit c3 = Some c" "digit c4 = Some d"
    "a * 1000 + b * 100 + c * 10 + d = x"
proof -
  define n where "n = nat x"
  have n: "n < 10000" "x = int n" using assms by (auto simp: n_def)
  have small: "n div 1000 < 10" "n div 100 mod 10 < 10" "n div 10 mod 10 < 10" "n mod 10 < 10"
    using less_mult_imp_div_less [of n 10 1000] n by simp_all
  have "n div 10 div 10 = n div 100" "n div 100 div 10 = n div 1000" by (simp_all flip: div_mult2_eq)
  then have E: "n div 1000 * 1000 + n div 100 mod 10 * 100 + n div 10 mod 10 * 10 + n mod 10 = n"
    using div_mult_mod_eq [of n 10] div_mult_mod_eq [of "n div 10" 10] div_mult_mod_eq [of "n div 100" 10]
    by linarith
  have "int (n div 1000) * 1000 + int (n div 100 mod 10) * 100 + int (n div 10 mod 10) * 10 + int (n mod 10) = x"
    using arg_cong [OF E, of int] n(2) by (simp only: of_nat_add of_nat_mult of_nat_numeral)
  with show_padded_4 [OF assms, folded n_def] small show thesis
    by (intro that [OF _ digit_digit_char digit_digit_char digit_digit_char digit_digit_char])
qed

section \<open>Round trips\<close>

lemma valid_fields:
  assumes "datetime_is_valid dt"
  shows "1 \<le> cd_month (dt_date dt)" "cd_month (dt_date dt) \<le> 12" "1 \<le> cd_day (dt_date dt)" "cd_day (dt_date dt) \<le> 31"
  using assms by (auto simp: datetime_is_valid_def date_is_valid_def days_in_month_def split: if_splits)

lemma parse_format_datetime:
  assumes "datetime_is_valid dt" "is_rfc3339_year (cd_year (dt_date dt))"
  shows "parse_rfc3339_utc_datetime (format_datetime dt) = Some dt \<and> length (format_datetime dt) = 20"
proof -
  have f: "0 \<le> cd_year (dt_date dt)" "cd_year (dt_date dt) < 10000" "0 \<le> cd_month (dt_date dt)" "cd_month (dt_date dt) < 100"
    "0 \<le> cd_day (dt_date dt)" "cd_day (dt_date dt) < 100" "0 \<le> dt_hour dt" "dt_hour dt < 100"
    "0 \<le> dt_minute dt" "dt_minute dt < 100" "0 \<le> dt_second dt" "dt_second dt < 100"
    using valid_fields [OF assms(1)] assms by (auto simp: is_rfc3339_year_def datetime_is_valid_def)
  obtain y1 y2 y3 y4 ya yb yc yd where y: "show_padded 4 (cd_year (dt_date dt)) = [y1, y2, y3, y4]"
    "digit y1 = Some ya" "digit y2 = Some yb" "digit y3 = Some yc" "digit y4 = Some yd"
    "ya * 1000 + yb * 100 + yc * 10 + yd = cd_year (dt_date dt)"
    by (rule padded_4_digits [OF f(1,2)])
  obtain o1 o2 oa ob where mo: "show_padded 2 (cd_month (dt_date dt)) = [o1, o2]"
    "digit o1 = Some oa" "digit o2 = Some ob" "oa * 10 + ob = cd_month (dt_date dt)"
    by (rule padded_2_digits [OF f(3,4)])
  obtain d1 d2 da db where d: "show_padded 2 (cd_day (dt_date dt)) = [d1, d2]"
    "digit d1 = Some da" "digit d2 = Some db" "da * 10 + db = cd_day (dt_date dt)"
    by (rule padded_2_digits [OF f(5,6)])
  obtain h1 h2 ha hb where h: "show_padded 2 (dt_hour dt) = [h1, h2]"
    "digit h1 = Some ha" "digit h2 = Some hb" "ha * 10 + hb = dt_hour dt"
    by (rule padded_2_digits [OF f(7,8)])
  obtain m1 m2 ma mb where mi: "show_padded 2 (dt_minute dt) = [m1, m2]"
    "digit m1 = Some ma" "digit m2 = Some mb" "ma * 10 + mb = dt_minute dt"
    by (rule padded_2_digits [OF f(9,10)])
  obtain s1 s2 sa sb where s: "show_padded 2 (dt_second dt) = [s1, s2]"
    "digit s1 = Some sa" "digit s2 = Some sb" "sa * 10 + sb = dt_second dt"
    by (rule padded_2_digits [OF f(11,12)])
  have "format_datetime dt = [y1, y2, y3, y4, CHR ''-'', o1, o2, CHR ''-'', d1, d2, CHR ''T'', h1, h2, CHR '':'',
      m1, m2, CHR '':'', s1, s2, CHR ''Z'']"
    by (simp add: format_datetime_def y mo d h mi s)
  moreover have "civil_date_new (cd_year (dt_date dt)) (cd_month (dt_date dt)) (cd_day (dt_date dt)) = Some (dt_date dt)"
    "civil_date_time_new (dt_date dt) (dt_hour dt) (dt_minute dt) (dt_second dt) = Some dt"
    using assms(1) by (cases dt; cases "dt_date dt"; simp add: civil_date_new_def civil_date_time_new_def datetime_is_valid_def)+
  ultimately show ?thesis
    by (simp add: parse_rfc3339_utc_datetime_def parse_4_def parse_2_def y mo d h mi s)
qed

definition canonical :: "string \<Rightarrow> string" where
  "canonical s = s[10 := CHR ''T'', 19 := CHR ''Z'']"

lemma format_parse_datetime:
  assumes "parse_rfc3339_utc_datetime s = Some dt"
  shows "format_rfc3339_datetime dt = Some (canonical s)"
proof -
  from assms have len: "length s = 20" by (auto simp: parse_rfc3339_utc_datetime_def split: if_splits)
  then obtain c0 c1 c2 c3 c4 c5 c6 c7 c8 c9 c10 c11 c12 c13 c14 c15 c16 c17 c18 c19 where
    s: "s = [c0, c1, c2, c3, c4, c5, c6, c7, c8, c9, c10, c11, c12, c13, c14, c15, c16, c17, c18, c19]"
    by (auto simp: numeral_eq_Suc length_Suc_conv)
  from assms obtain y mo d h mi sec where p: "parse_4 s 0 = Some y" "parse_2 s 5 = Some mo" "parse_2 s 8 = Some d"
    "parse_2 s 11 = Some h" "parse_2 s 14 = Some mi" "parse_2 s 17 = Some sec"
    and dt: "dt = \<lparr>dt_date = \<lparr>cd_year = y, cd_month = mo, cd_day = d\<rparr>, dt_hour = h, dt_minute = mi, dt_second = sec\<rparr>"
    and valid: "datetime_is_valid dt"
    and seps: "c4 = CHR ''-''" "c7 = CHR ''-''" "c13 = CHR '':''" "c16 = CHR '':''"
    by (auto simp: parse_rfc3339_utc_datetime_def bind_eq_Some_conv civil_date_new_def civil_date_time_new_def Let_def s
        split: if_splits)
  have "show_padded 2 mo = [c5, c6]" "show_padded 2 d = [c8, c9]" "show_padded 2 h = [c11, c12]"
    "show_padded 2 mi = [c14, c15]" "show_padded 2 sec = [c17, c18]"
    using p(2-6) by (auto simp: parse_2_digits s two_digits)
  moreover have "show_padded 4 y = [c0, c1, c2, c3]" "is_rfc3339_year y"
    using p(1) four_digits by (auto simp: parse_4_digits s is_rfc3339_year_def) fastforce+
  ultimately show ?thesis using valid
    by (simp add: format_rfc3339_datetime_def format_datetime_def dt canonical_def s seps)
qed

lemma epoch_of_rfc3339_year:
  assumes "is_rfc3339_year (cd_year (dt_date (datetime_from_epoch_secs t)))"
  shows "epoch_secs_from_datetime (datetime_from_epoch_secs t) = Some t"
proof -
  have "cd_year (dt_date (datetime_from_epoch_secs t)) = cd_year (civil_from_epoch_days (t div 86400))"
    by (rule datetime_of_epoch [of t]) simp
  with year_bounds_days [of "t div 86400"] assms have n: "- 1000000 \<le> t div 86400" "t div 86400 \<le> 4000000"
    by (auto simp: is_rfc3339_year_def)
  then have "- (2 ^ 63) \<le> t div 86400 * 86400" by simp
  moreover have "- 1000000000000 \<le> t" "t \<le> 1000000000000"
    using n div_mult_mod_eq [of t 86400] pos_mod_bound [of 86400 t] pos_mod_sign [of 86400 t] by linarith+
  then have "in_i64 t" by (simp add: in_i64_def)
  ultimately show ?thesis by (simp add: epoch_secs_from_datetime_from)
qed

section \<open>Property of RFC 3339 timestamps\<close>

text \<open>
  C19. Formatting and parsing are inverse. A second is formatted exactly when its year has four digits; the
  text has 20 characters and parses back to the second. A text that parses is reproduced by
  formatting the parsed second, up to the case of its two letters; so no two different texts but
  for that case denote the same second.
\<close>

theorem rfc3339_roundtrip:
  "(format_rfc3339 t = None \<longleftrightarrow> \<not> is_rfc3339_year (cd_year (dt_date (datetime_from_epoch_secs t)))) \<and>
   (format_rfc3339 t = Some s \<longrightarrow> length s = 20 \<and> parse_rfc3339_utc s = Some t) \<and>
   (parse_rfc3339_utc s = Some t \<longrightarrow> format_rfc3339 t = Some (canonical s))"
proof (intro conjI impI)
  show "format_rfc3339 t = None \<longleftrightarrow> \<not> is_rfc3339_year (cd_year (dt_date (datetime_from_epoch_secs t)))"
    by (simp add: format_rfc3339_def format_rfc3339_datetime_def datetime_from_epoch_secs_valid)
next
  assume "format_rfc3339 t = Some s"
  then have y: "is_rfc3339_year (cd_year (dt_date (datetime_from_epoch_secs t)))"
    and s: "s = format_datetime (datetime_from_epoch_secs t)"
    by (auto simp: format_rfc3339_def format_rfc3339_datetime_def split: if_splits)
  note parse = parse_format_datetime [OF datetime_from_epoch_secs_valid y, folded s]
  from parse show "length s = 20" by simp
  from parse show "parse_rfc3339_utc s = Some t" by (simp add: parse_rfc3339_utc_def epoch_of_rfc3339_year [OF y])
next
  assume "parse_rfc3339_utc s = Some t"
  then obtain dt where "parse_rfc3339_utc_datetime s = Some dt" "epoch_secs_from_datetime dt = Some t"
    by (auto simp: parse_rfc3339_utc_def bind_eq_Some_conv)
  then show "format_rfc3339 t = Some (canonical s)"
    using format_parse_datetime datetime_from_epoch_secs_from by (simp add: format_rfc3339_def)
qed

theorem rfc3339_roundtrip_witness:
  "parse_rfc3339_utc ''2023-11-14T22:13:20Z'' = Some 1700000000"
proof -
  have "format_rfc3339 1700000000 = Some ''2023-11-14T22:13:20Z''"
    by code_simp
  with rfc3339_roundtrip show ?thesis by blast
qed

end
