(* ===== verification/Duration_Text.thy ===== *)
theory Duration_Text
  imports Errors Backoff
begin

text \<open>
  Text forms of durations and decimal numbers: \<^verbatim>\<open>core/rskit-util/src/decimal.rs\<close>, the lossless formatter and
  the parser of \<^verbatim>\<open>time/duration.rs\<close>, the serde adapter over them (\<^verbatim>\<open>time/serde_duration.rs\<close>) and the
  parser of byte sizes (\<^verbatim>\<open>bytes.rs\<close>). A duration is its number of nanoseconds. \<^verbatim>\<open>u128\<close>, \<^verbatim>\<open>u64\<close> and \<^verbatim>\<open>u32\<close>
  operations are checked against their range, as in the code.
\<close>

section \<open>Decimal numbers\<close>

definition is_digit :: "char \<Rightarrow> bool" where
  "is_digit c \<longleftrightarrow> 48 \<le> (of_char c :: nat) \<and> (of_char c :: nat) \<le> 57"

definition digit_value :: "char \<Rightarrow> nat" where
  "digit_value c = of_char c - 48"

definition u128_of :: "nat \<Rightarrow> nat option" where
  "u128_of n = (if n < 2 ^ 128 then Some n else None)"

text \<open>\<^verbatim>\<open>str::parse::<u128>\<close> on a nonempty string of ASCII digits.\<close>

definition digits_value :: "string \<Rightarrow> nat" where
  "digits_value s = foldl (\<lambda>acc c. acc * 10 + digit_value c) 0 s"

definition parse_u128 :: "string \<Rightarrow> nat option" where
  "parse_u128 s = u128_of (digits_value s)"

definition split_dot :: "string \<Rightarrow> string \<times> string" where
  "split_dot s =
     (case dropWhile (\<lambda>c. c \<noteq> CHR ''.'') s of
        [] \<Rightarrow> (s, [])
      | _ # rest \<Rightarrow> (takeWhile (\<lambda>c. c \<noteq> CHR ''.'') s, rest))"

definition parse_decimal_scaled :: "string \<Rightarrow> nat \<Rightarrow> nat option" where
  "parse_decimal_scaled value multiplier =
     (if value = [] \<or> hd value = CHR ''-'' \<or> hd value = CHR ''+'' then None
      else
        case split_dot value of (whole, fraction) \<Rightarrow>
          if whole = [] \<and> fraction = [] then None
          else if \<not> list_all is_digit whole \<or> \<not> list_all is_digit fraction then None
          else
            Option.bind (if whole = [] then Some 0 else parse_u128 whole) (\<lambda>w.
            Option.bind (u128_of (w * multiplier)) (\<lambda>whole_scaled.
              if fraction = [] then Some whole_scaled
              else
                Option.bind (if length fraction < 2 ^ 32 then u128_of (10 ^ length fraction) else None) (\<lambda>scale.
                Option.bind (parse_u128 fraction) (\<lambda>f.
                Option.bind (u128_of (f * multiplier)) (\<lambda>fs. u128_of (whole_scaled + fs div scale)))))))"

section \<open>Splitting a quantity\<close>

text \<open>
  \<^verbatim>\<open>str::to_lowercase\<close> and \<^verbatim>\<open>char::is_alphabetic\<close>, as far as the results below depend on them: ASCII letters,
  the capital Mu, which becomes the letter of the microsecond, and the Kelvin sign, which becomes an
  ASCII \<open>k\<close>. Any other non-ASCII character makes the parsers below fail, in the number as well as
  in the unit, whether it is taken as alphabetic or not.
\<close>

definition ascii_letter :: "char \<Rightarrow> bool" where
  "ascii_letter c \<longleftrightarrow> 97 \<le> (of_char c :: nat) \<and> (of_char c :: nat) \<le> 122 \<or> 65 \<le> (of_char c :: nat) \<and> (of_char c :: nat) \<le> 90"

definition mu :: string where
  "mu = utf8_bytes [206, 188]"

definition capital_mu :: string where
  "capital_mu = utf8_bytes [206, 156]"

definition kelvin :: string where
  "kelvin = utf8_bytes [226, 132, 170]"

function to_lowercase :: "string \<Rightarrow> string" where
  "to_lowercase s =
     (if s = [] then []
      else if prefix capital_mu s then mu @ to_lowercase (drop 2 s)
      else if prefix kelvin s then CHR ''k'' # to_lowercase (drop 3 s)
      else to_ascii_lowercase (hd s) # to_lowercase (tl s))"
  by pat_completeness auto
termination by (relation "measure length") auto

declare to_lowercase.simps [simp del]

text \<open>The position of the first alphabetic character, the length of the string if there is none.\<close>

fun unit_start :: "string \<Rightarrow> nat" where
  "unit_start [] = 0"
| "unit_start (c # s) = (if ascii_letter c \<or> prefix mu (c # s) then 0 else Suc (unit_start s))"

definition split_quantity :: "string \<Rightarrow> string \<times> string" where
  "split_quantity s = (let s = to_lowercase (trim s); i = unit_start s in (take i s, drop i s))"

section \<open>Durations\<close>

definition duration_unit :: "string \<Rightarrow> nat option" where
  "duration_unit u =
     (if u = ''ns'' then Some 1
      else if u = ''us'' \<or> u = mu @ ''s'' then Some 1000
      else if u = ''ms'' then Some 1000000
      else if u = ''s'' \<or> u = [] then Some 1000000000
      else if u = ''m'' \<or> u = ''min'' then Some (60 * 1000000000)
      else if u = ''h'' \<or> u = ''hr'' then Some (3600 * 1000000000)
      else if u = ''d'' \<or> u = ''day'' then Some (86400 * 1000000000)
      else None)"

text \<open>
  The parser of durations. The seconds of a duration up to the largest one fit \<^verbatim>\<open>u64\<close> and the rest
  fits \<^verbatim>\<open>u32\<close>, as checked at the end of the code.
\<close>

definition parse_duration :: "string \<Rightarrow> nat option" where
  "parse_duration s =
     (case split_quantity s of (num_part, unit_part) \<Rightarrow>
       Option.bind (duration_unit (trim unit_part)) (\<lambda>nanos_per_unit.
       Option.bind (parse_decimal_scaled (trim num_part) nanos_per_unit) (\<lambda>nanos.
         if duration_max < nanos then None
         else
           let secs = nanos div 1000000000; subsec_nanos = nanos mod 1000000000 in
           if secs < 2 ^ 64 \<and> subsec_nanos < 2 ^ 32 then Some (secs * 1000000000 + subsec_nanos) else None)))"

definition format_duration_exact :: "nat \<Rightarrow> string" where
  "format_duration_exact nanos =
     (if nanos = 0 then ''0s''
      else if nanos mod (3600 * 1000000000) = 0 then show_nat (nanos div (3600 * 1000000000)) @ ''h''
      else if nanos mod (60 * 1000000000) = 0 then show_nat (nanos div (60 * 1000000000)) @ ''m''
      else if nanos mod 1000000000 = 0 then show_nat (nanos div 1000000000) @ ''s''
      else if nanos mod 1000000 = 0 then show_nat (nanos div 1000000) @ ''ms''
      else if nanos mod 1000 = 0 then show_nat (nanos div 1000) @ ''us''
      else show_nat nanos @ ''ns'')"

text \<open>The serde adapters; the error text is what \<^verbatim>\<open>serde::de::Error::custom\<close> is given.\<close>

definition serialize_duration :: "nat \<Rightarrow> string" where
  "serialize_duration d = format_duration_exact d"

definition deserialize_duration :: "string \<Rightarrow> string + nat" where
  "deserialize_duration raw =
     (case parse_duration raw of
        Some d \<Rightarrow> Inr d
      | None \<Rightarrow> Inl (''invalid duration string: '' @ raw))"

section \<open>Byte sizes\<close>

definition size_unit :: "string \<Rightarrow> nat option" where
  "size_unit u =
     (if u = ''b'' \<or> u = [] then Some 1
      else if u = ''kb'' \<or> u = ''k'' \<or> u = ''ki'' then Some 1024
      else if u = ''mb'' \<or> u = ''m'' \<or> u = ''mi'' then Some (1024 ^ 2)
      else if u = ''gb'' \<or> u = ''g'' \<or> u = ''gi'' then Some (1024 ^ 3)
      else if u = ''tb'' \<or> u = ''t'' \<or> u = ''ti'' then Some (1024 ^ 4)
      else if u = ''pb'' \<or> u = ''p'' \<or> u = ''pi'' then Some (1024 ^ 5)
      else None)"

definition parse_bytes :: "string \<Rightarrow> nat option" where
  "parse_bytes s =
     (case split_quantity s of (num_part, unit_part) \<Rightarrow>
       Option.bind (size_unit (trim unit_part)) (\<lambda>multiplier.
       Option.bind (parse_decimal_scaled (trim num_part) multiplier) (\<lambda>bytes.
         if bytes < 2 ^ 64 then Some bytes else None)))"

section \<open>Plain quantities\<close>

text \<open>A number followed by a lower-case ASCII unit passes through the splitting unchanged.\<close>

definition lower_letter :: "char \<Rightarrow> bool" where
  "lower_letter c \<longleftrightarrow> 97 \<le> (of_char c :: nat) \<and> (of_char c :: nat) \<le> 122"

definition plain_char :: "char \<Rightarrow> bool" where
  "plain_char c \<longleftrightarrow> is_digit c \<or> lower_letter c"

lemma plain_char_graphic: "plain_char c \<Longrightarrow> graphic c"
  by (auto simp: plain_char_def is_digit_def lower_letter_def graphic_def)

lemma trim_plain: "list_all plain_char s \<Longrightarrow> trim s = s"
  by (cases "s = []") (auto intro!: trim_graphic plain_char_graphic simp: list_all_iff)

lemma to_lowercase_plain: "list_all plain_char s \<Longrightarrow> to_lowercase s = s"
proof (induction s)
  case (Cons c s)
  then have c: "plain_char c" by simp
  then have "\<not> prefix capital_mu (c # s)" "\<not> prefix kelvin (c # s)" "to_ascii_lowercase c = c"
    by (auto simp: capital_mu_def kelvin_def utf8_bytes_def plain_char_def is_digit_def lower_letter_def
        to_ascii_lowercase_def)
  with Cons show ?case by (subst to_lowercase.simps) simp
qed (simp add: to_lowercase.simps)

lemma unit_start_plain:
  "list_all is_digit ds \<Longrightarrow> u = [] \<or> lower_letter (hd u) \<Longrightarrow> unit_start (ds @ u) = length ds"
proof (induction ds)
  case Nil
  then show ?case by (cases u) (auto simp: ascii_letter_def lower_letter_def)
next
  case (Cons c ds)
  then have "\<not> ascii_letter c" "\<not> prefix mu (c # ds @ u)"
    by (auto simp: ascii_letter_def is_digit_def mu_def utf8_bytes_def)
  with Cons show ?case by simp
qed

lemma split_quantity_plain:
  assumes "list_all is_digit ds" "list_all lower_letter u"
  shows "split_quantity (ds @ u) = (ds, u)"
proof -
  have "list_all plain_char (ds @ u)" using assms by (auto simp: list_all_iff plain_char_def)
  moreover have "u = [] \<or> lower_letter (hd u)" using assms(2) by (cases u) auto
  ultimately show ?thesis
    using unit_start_plain [OF assms(1)] by (simp add: split_quantity_def trim_plain to_lowercase_plain Let_def)
qed

section \<open>Decimal renderings\<close>

lemma digit_char_facts [simp]: "d < 10 \<Longrightarrow> is_digit (digit_char d) \<and> digit_value (digit_char d) = d"
  by (simp add: is_digit_def digit_value_def digit_char_def)

lemma show_nat_digits: "list_all is_digit (show_nat n) \<and> digits_value (show_nat n) = n \<and> show_nat n \<noteq> []"
proof (induction n rule: show_nat.induct)
  case (1 n)
  then show ?case by (subst (1 2 3) show_nat.simps) (auto simp: digits_value_def)
qed

lemma is_digit_not_sign: "is_digit c \<Longrightarrow> c \<noteq> CHR ''-'' \<and> c \<noteq> CHR ''+'' \<and> c \<noteq> CHR ''.''"
  by (auto simp: is_digit_def)

lemma split_dot_digits: "list_all is_digit s \<Longrightarrow> split_dot s = (s, [])"
proof -
  assume "list_all is_digit s"
  then have none: "dropWhile (\<lambda>c. c \<noteq> CHR ''.'') s = []" by (auto simp: list_all_iff dest: is_digit_not_sign)
  show ?thesis unfolding split_dot_def none by simp
qed

lemma parse_decimal_scaled_digits:
  assumes "k < 2 ^ 128" "k * m < 2 ^ 128"
  shows "parse_decimal_scaled (show_nat k) m = Some (k * m)"
proof -
  note d = show_nat_digits [of k]
  then have "hd (show_nat k) \<noteq> CHR ''-''" "hd (show_nat k) \<noteq> CHR ''+''"
    by (auto simp: list_all_iff dest!: bspec [OF _ hd_in_set] is_digit_not_sign)
  with d assms show ?thesis
    by (simp add: parse_decimal_scaled_def split_dot_digits parse_u128_def u128_of_def)
qed

text \<open>A whole number of a unit.\<close>

lemma parse_duration_whole:
  assumes "duration_unit u = Some m" "list_all lower_letter u" "k * m \<le> duration_max" "0 < m"
  shows "parse_duration (show_nat k @ u) = Some (k * m)"
proof -
  have max: "k * m < 2 ^ 64 * 1000000000" using assms(3) by (simp add: duration_max_def)
  moreover have "k \<le> k * m" using assms(4) by simp
  moreover have "2 ^ 64 * 1000000000 < (2 ^ 128 :: nat)" by simp
  ultimately have "k < 2 ^ 128" "k * m < 2 ^ 128" by linarith+
  then have dec: "parse_decimal_scaled (show_nat k) m = Some (k * m)" by (rule parse_decimal_scaled_digits)
  have split: "split_quantity (show_nat k @ u) = (show_nat k, u)"
    using show_nat_digits assms(2) by (intro split_quantity_plain) auto
  have trims: "trim u = u" "trim (show_nat k) = show_nat k"
    using assms(2) show_nat_digits [of k] by (auto intro!: trim_plain simp: list_all_iff plain_char_def)
  have secs: "k * m div 1000000000 < 2 ^ 64" using max by (simp add: less_mult_imp_div_less)
  have sub: "k * m mod 1000000000 < 2 ^ 32" by (rule less_trans [of _ 1000000000]) simp_all
  show ?thesis
    unfolding parse_duration_def split
    using assms(1,3) dec trims secs sub by (simp add: Let_def)
qed

section \<open>Property of duration texts\<close>

text \<open>
  C20. Every duration survives its text form. The exact formatter picks the largest unit that divides the
  duration, and the parser, which accepts whole and fractional numbers of seven units with optional
  blanks, gives the same duration back, through the serde adapter as well; and whatever the parser
  accepts is within the range of \<^verbatim>\<open>Duration\<close>.
\<close>

theorem duration_text_roundtrip:
  "(d \<le> duration_max \<longrightarrow>
      parse_duration (format_duration_exact d) = Some d \<and>
      deserialize_duration (serialize_duration d) = Inr d) \<and>
   (parse_duration s = Some d \<longrightarrow> d \<le> duration_max)"
proof (intro conjI impI)
  assume d: "d \<le> duration_max"
  have whole: "parse_duration (show_nat (d div m) @ u) = Some d"
    if "d mod m = 0" "duration_unit u = Some m" "list_all lower_letter u" "0 < m" for m u
    using parse_duration_whole [of u m "d div m"] that d by (auto simp: mod_0_imp_dvd)
  have lower: "list_all lower_letter ''h''" "list_all lower_letter ''m''" "list_all lower_letter ''s''"
    "list_all lower_letter ''ms''" "list_all lower_letter ''us''" "list_all lower_letter ''ns''"
    by (simp_all add: lower_letter_def)
  have unit: "duration_unit ''h'' = Some (3600 * 1000000000)" "duration_unit ''m'' = Some (60 * 1000000000)"
    "duration_unit ''s'' = Some 1000000000" "duration_unit ''ms'' = Some 1000000"
    "duration_unit ''us'' = Some 1000" "duration_unit ''ns'' = Some 1"
    by (simp_all add: duration_unit_def mu_def utf8_bytes_def)
  have zero: "''0s'' = show_nat (0 div 1000000000) @ ''s''" by (simp add: show_nat.simps digit_char_def char_of_def bit_Suc_0_iff)
  have same: "parse_duration (format_duration_exact d) = Some d"
  proof (cases "d = 0")
    case True
    then have "format_duration_exact d = show_nat (d div 1000000000) @ ''s''"
      using zero by (simp add: format_duration_exact_def)
    with whole [OF _ unit(3) lower(3)] True show ?thesis by simp
  next
    case False
    with whole [OF _ unit(1) lower(1)] whole [OF _ unit(2) lower(2)] whole [OF _ unit(3) lower(3)]
      whole [OF _ unit(4) lower(4)] whole [OF _ unit(5) lower(5)] whole [OF _ unit(6) lower(6)]
    show ?thesis by (simp add: format_duration_exact_def)
  qed
  then show "parse_duration (format_duration_exact d) = Some d" .
  from same show "deserialize_duration (serialize_duration d) = Inr d"
    by (simp add: deserialize_duration_def serialize_duration_def)
next
  assume "parse_duration s = Some d"
  then show "d \<le> duration_max"
    by (auto simp: parse_duration_def bind_eq_Some_conv Let_def split: prod.splits if_splits)
qed

theorem duration_text_roundtrip_witness:
  "parse_duration (format_duration_exact 3601000000250) = Some 3601000000250"
  using duration_text_roundtrip [of 3601000000250] by (simp add: duration_max_def)

end
