(* ===== verification/Glob.thy ===== *)
theory Glob
  imports Prelude
begin

text \<open>
  Glob matching, \<^verbatim>\<open>core/rskit-util/src/glob.rs\<close>: the two-pointer matcher with constant backtracking state, and
  the compiled pattern. Strings are sequences of Unicode scalar values, as \<^verbatim>\<open>chars()\<close> yields them.
\<close>

type_synonym scalars = "nat list"

abbreviation star_char :: nat where "star_char \<equiv> 42"
abbreviation any_char :: nat where "any_char \<equiv> 63"

definition has_wildcard :: "scalars \<Rightarrow> bool" where
  "has_wildcard pattern = list_ex (\<lambda>ch. ch = star_char \<or> ch = any_char) pattern"

text \<open>The last loop of the matcher: skip the stars that remain.\<close>

function skip_stars :: "scalars \<Rightarrow> nat \<Rightarrow> nat" where
  "skip_stars pattern p =
     (if p < length pattern \<and> pattern ! p = star_char then skip_stars pattern (p + 1) else p)"
  by pat_completeness auto
termination by (relation "measure (\<lambda>(pattern, p). length pattern - p)") auto

declare skip_stars.simps [simp del]

partial_function (option) wildcard_loop ::
    "scalars \<Rightarrow> scalars \<Rightarrow> nat \<Rightarrow> nat \<Rightarrow> nat option \<Rightarrow> nat \<Rightarrow> bool option" where
  "wildcard_loop pattern text p t star mark =
     (if t < length text then
        if p < length pattern \<and> (pattern ! p = any_char \<or> pattern ! p = text ! t) then
          wildcard_loop pattern text (p + 1) (t + 1) star mark
        else if p < length pattern \<and> pattern ! p = star_char then
          wildcard_loop pattern text (p + 1) t (Some p) t
        else
          (case star of
             Some star_pos \<Rightarrow> wildcard_loop pattern text (star_pos + 1) (mark + 1) star (mark + 1)
           | None \<Rightarrow> Some False)
      else Some (skip_stars pattern p = length pattern))"

definition wildcard :: "scalars \<Rightarrow> scalars \<Rightarrow> bool option" where
  "wildcard pattern text = wildcard_loop pattern text 0 0 None 0"

definition glob_match :: "scalars \<Rightarrow> scalars \<Rightarrow> bool option" where
  "glob_match pattern text = (if \<not> has_wildcard pattern then Some (pattern = text) else wildcard pattern text)"

record glob =
  gl_pattern :: scalars
  gl_parsed :: "scalars option"

definition glob_new :: "scalars \<Rightarrow> glob" where
  "glob_new pattern = \<lparr>gl_pattern = pattern, gl_parsed = (if has_wildcard pattern then Some pattern else None)\<rparr>"

definition is_literal :: "glob \<Rightarrow> bool" where
  "is_literal g = (gl_parsed g = None)"

definition glob_matches :: "glob \<Rightarrow> scalars \<Rightarrow> bool option" where
  "glob_matches g text =
     (case gl_parsed g of None \<Rightarrow> Some (gl_pattern g = text) | Some chars \<Rightarrow> wildcard chars text)"

section \<open>The meaning of a pattern\<close>

fun glob_spec :: "scalars \<Rightarrow> scalars \<Rightarrow> bool" where
  "glob_spec [] ts \<longleftrightarrow> ts = []"
| "glob_spec (c # ps) ts \<longleftrightarrow>
     (if c = star_char then \<exists>k\<le>length ts. glob_spec ps (drop k ts)
      else ts \<noteq> [] \<and> (c = any_char \<or> c = hd ts) \<and> glob_spec ps (tl ts))"

text \<open>\<open>rest_matches P T p t\<close>: what is left of the pattern matches what is left of the text.\<close>

definition rest_matches :: "scalars \<Rightarrow> scalars \<Rightarrow> nat \<Rightarrow> nat \<Rightarrow> bool" where
  "rest_matches P T p t \<longleftrightarrow> t \<le> length T \<and> glob_spec (drop p P) (drop t T)"

lemma rest_matches_end: "t < length T \<Longrightarrow> length P \<le> p \<Longrightarrow> \<not> rest_matches P T p t"
  by (simp add: rest_matches_def)

lemma rest_matches_char:
  assumes "p < length P" "P ! p \<noteq> star_char"
  shows "rest_matches P T p t \<longleftrightarrow>
     t < length T \<and> (P ! p = any_char \<or> P ! p = T ! t) \<and> rest_matches P T (p + 1) (t + 1)"
  using assms
  by (cases "t < length T") (auto simp: rest_matches_def Cons_nth_drop_Suc [symmetric])

lemma rest_matches_star:
  assumes "p < length P" "P ! p = star_char" "t \<le> length T"
  shows "rest_matches P T p t \<longleftrightarrow> (\<exists>k\<ge>t. rest_matches P T (p + 1) k)"
proof -
  have "rest_matches P T p t \<longleftrightarrow> (\<exists>k\<le>length T - t. glob_spec (drop (p + 1) P) (drop (t + k) T))"
    using assms by (simp add: rest_matches_def Cons_nth_drop_Suc [symmetric] add.commute)
  also have "\<dots> \<longleftrightarrow> (\<exists>k\<ge>t. rest_matches P T (p + 1) k)"
  proof
    assume "\<exists>k\<le>length T - t. glob_spec (drop (p + 1) P) (drop (t + k) T)"
    then obtain k where "k \<le> length T - t" "glob_spec (drop (p + 1) P) (drop (t + k) T)" by blast
    with assms(3) show "\<exists>k\<ge>t. rest_matches P T (p + 1) k"
      by (intro exI [of _ "t + k"]) (simp add: rest_matches_def)
  next
    assume "\<exists>k\<ge>t. rest_matches P T (p + 1) k"
    then obtain k where "t \<le> k" "rest_matches P T (p + 1) k" by blast
    then show "\<exists>k\<le>length T - t. glob_spec (drop (p + 1) P) (drop (t + k) T)"
      by (intro exI [of _ "k - t"]) (auto simp: rest_matches_def)
  qed
  finally show ?thesis .
qed

lemma skip_stars_rest: "p \<le> length P \<Longrightarrow> skip_stars P p = length P \<longleftrightarrow> rest_matches P T p (length T)"
proof (induction P p rule: skip_stars.induct)
  case (1 P p)
  show ?case
  proof (cases "p < length P \<and> P ! p = star_char")
    case True
    have "(\<exists>k\<ge>length T. rest_matches P T (p + 1) k) \<longleftrightarrow> rest_matches P T (p + 1) (length T)"
      by (auto simp: rest_matches_def)
    with True 1 show ?thesis
      by (subst skip_stars.simps) (simp add: rest_matches_star)
  next
    case False
    then have skip: "skip_stars P p = p" by (subst skip_stars.simps) auto
    show ?thesis
    proof (cases "p < length P")
      case True
      with False skip show ?thesis using rest_matches_char [of p P T "length T"] by simp
    next
      case False
      with 1(2) skip show ?thesis by (simp add: rest_matches_def)
    qed
  qed
qed

text \<open>A run of the pattern without stars consumes as many characters of the text as it has.\<close>

lemma rest_matches_run:
  assumes "\<forall>i. s \<le> i \<and> i < s + n \<longrightarrow> P ! i \<noteq> star_char" "s + n \<le> length P" "rest_matches P T s k"
  shows "rest_matches P T (s + n) (k + n)"
  using assms
proof (induction n)
  case (Suc n)
  then have "rest_matches P T (s + n) (k + n)" by simp
  with Suc.prems show ?case using rest_matches_char [of "s + n" P T "k + n"] by simp
qed simp

section \<open>The matcher\<close>

text \<open>
  The state of the loop. With a star behind it, everything between the star and the current position is a
  run without stars that has matched the text from the mark on, and a match exists exactly if the
  star can take the text up to the mark or further.
\<close>

definition glob_inv :: "scalars \<Rightarrow> scalars \<Rightarrow> nat \<Rightarrow> nat \<Rightarrow> nat option \<Rightarrow> nat \<Rightarrow> bool" where
  "glob_inv P T p t star mark \<longleftrightarrow>
     p \<le> length P \<and> t \<le> length T \<and>
     (case star of
        None \<Rightarrow> glob_spec P T = rest_matches P T p t
      | Some s \<Rightarrow>
          s < p \<and> t + (s + 1) = mark + p \<and> (\<forall>i. s < i \<and> i < p \<longrightarrow> P ! i \<noteq> star_char) \<and>
          (rest_matches P T (s + 1) mark \<longleftrightarrow> rest_matches P T p t) \<and>
          (glob_spec P T \<longleftrightarrow> (\<exists>k\<ge>mark. rest_matches P T (s + 1) k)))"

lemma glob_inv_advance:
  assumes "glob_inv P T p t star mark" "t < length T" "p < length P" "P ! p = any_char \<or> P ! p = T ! t"
    "star_char \<notin> set T"
  shows "glob_inv P T (p + 1) (t + 1) star mark"
proof -
  have no: "P ! p \<noteq> star_char" using assms(2,4,5) nth_mem by fastforce
  have "rest_matches P T p t \<longleftrightarrow> rest_matches P T (p + 1) (t + 1)"
    using rest_matches_char [OF assms(3) no] assms(2,4) by simp
  with assms no show ?thesis by (auto simp: glob_inv_def less_Suc_eq split: option.splits)
qed

lemma glob_inv_star:
  assumes inv: "glob_inv P T p t star mark" and p: "t < length T" "p < length P" "P ! p = star_char"
  shows "glob_inv P T (p + 1) t (Some p) t"
proof -
  have here: "rest_matches P T p t \<longleftrightarrow> (\<exists>k\<ge>t. rest_matches P T (p + 1) k)" using rest_matches_star p by simp
  have "glob_spec P T \<longleftrightarrow> rest_matches P T p t"
  proof (cases star)
    case None
    with inv show ?thesis by (simp add: glob_inv_def)
  next
    case (Some s)
    with inv have s: "s < p" "t + (s + 1) = mark + p" "\<forall>i. s < i \<and> i < p \<longrightarrow> P ! i \<noteq> star_char"
      "rest_matches P T (s + 1) mark \<longleftrightarrow> rest_matches P T p t"
      "glob_spec P T \<longleftrightarrow> (\<exists>k\<ge>mark. rest_matches P T (s + 1) k)" by (simp_all add: glob_inv_def)
    have "rest_matches P T p t" if k: "k \<ge> mark" "rest_matches P T (s + 1) k" for k
    proof -
      have "rest_matches P T p (k + (p - (s + 1)))"
        using rest_matches_run [of "s + 1" "p - (s + 1)" P T k] s(1,3) p(2) k(2) by simp
      moreover from this have "k + (p - (s + 1)) \<le> length T" by (simp add: rest_matches_def)
      ultimately have "\<exists>j\<ge>k + (p - (s + 1)). rest_matches P T (p + 1) j"
        using rest_matches_star [OF p(2,3)] by blast
      moreover have "t \<le> k + (p - (s + 1))" using s(1,2) k(1) by simp
      ultimately show ?thesis unfolding here by (meson le_trans)
    qed
    with s(4,5) show ?thesis by blast
  qed
  with here p show ?thesis by (auto simp: glob_inv_def)
qed

lemma glob_inv_back:
  assumes inv: "glob_inv P T p t (Some s) mark" and t: "t < length T"
    and no: "\<not> rest_matches P T p t"
  shows "glob_inv P T (s + 1) (mark + 1) (Some s) (mark + 1)"
proof -
  from inv no have here: "\<not> rest_matches P T (s + 1) mark" and mark: "mark \<le> t"
    and spec: "glob_spec P T \<longleftrightarrow> (\<exists>k\<ge>mark. rest_matches P T (s + 1) k)" and s: "s < length P"
    by (auto simp: glob_inv_def)
  have "mark + 1 \<le> k" if "mark \<le> k" "rest_matches P T (s + 1) k" for k
    using that here by (cases "k = mark") auto
  with spec have "glob_spec P T \<longleftrightarrow> (\<exists>k\<ge>mark + 1. rest_matches P T (s + 1) k)"
    by (meson add_leD1)
  with mark s t show ?thesis by (simp add: glob_inv_def)
qed

lemma glob_inv_done:
  assumes "glob_inv P T p t star mark" "\<not> t < length T"
  shows "glob_spec P T \<longleftrightarrow> skip_stars P p = length P"
proof -
  have t: "t = length T" "p \<le> length P" using assms by (auto simp: glob_inv_def)
  have "glob_spec P T \<longleftrightarrow> rest_matches P T p t"
  proof (cases star)
    case (Some s)
    with assms(1) have s: "s < p" "t + (s + 1) = mark + p" "\<forall>i. s < i \<and> i < p \<longrightarrow> P ! i \<noteq> star_char"
      "rest_matches P T (s + 1) mark \<longleftrightarrow> rest_matches P T p t"
      "glob_spec P T \<longleftrightarrow> (\<exists>k\<ge>mark. rest_matches P T (s + 1) k)" by (simp_all add: glob_inv_def)
    have "k = mark" if k: "k \<ge> mark" "rest_matches P T (s + 1) k" for k
    proof -
      have "rest_matches P T p (k + (p - (s + 1)))"
        using rest_matches_run [of "s + 1" "p - (s + 1)" P T k] s(1,3) t(2) k(2) by simp
      then have "k + (p - (s + 1)) \<le> t" by (simp add: rest_matches_def t(1))
      with s(1,2) k(1) show ?thesis by simp
    qed
    with s(4,5) show ?thesis by auto
  qed (use assms(1) in \<open>simp add: glob_inv_def\<close>)
  with t skip_stars_rest [of p P T] show ?thesis by simp
qed

text \<open>
  The loop ends on every input: backtracking moves the mark forward, and between two backtracks every round
  consumes a character of the text or of the pattern.
\<close>

definition glob_measure :: "scalars \<Rightarrow> scalars \<Rightarrow> nat \<times> nat \<times> nat \<Rightarrow> nat \<times> nat" where
  "glob_measure P T = (\<lambda>(p, t, mark). (length T - mark, (length T - t) + (length P - p)))"

abbreviation glob_order :: "scalars \<Rightarrow> scalars \<Rightarrow> ((nat \<times> nat \<times> nat) \<times> nat \<times> nat \<times> nat) set" where
  "glob_order P T \<equiv> inv_image (less_than <*lex*> less_than) (glob_measure P T)"

lemma wf_glob_order: "wf (glob_order P T)"
  by (intro wf_inv_image wf_lex_prod wf_less_than)

lemma no_match_here:
  assumes "t < length T" "\<not> (p < length P \<and> (P ! p = any_char \<or> P ! p = T ! t))"
    "\<not> (p < length P \<and> P ! p = star_char)"
  shows "\<not> rest_matches P T p t"
  using assms rest_matches_end [of t T P p] rest_matches_char [of p P T t] by (cases "p < length P") auto

lemma wildcard_loop_correct:
  assumes "mark \<le> t" "t \<le> length T"
  shows "\<exists>b. wildcard_loop P T p t star mark = Some b \<and>
     (star_char \<notin> set T \<and> glob_inv P T p t star mark \<longrightarrow> (b \<longleftrightarrow> glob_spec P T))"
  using assms
proof (induction "(p, t, mark)" arbitrary: p t star mark rule: wf_induct_rule [OF wf_glob_order [of P T]])
  case (1 p t mark star)
  let ?eq = "p < length P \<and> (P ! p = any_char \<or> P ! p = T ! t)" and ?star = "p < length P \<and> P ! p = star_char"
  consider (finished) "\<not> t < length T" | (advance) "t < length T" ?eq | (star) "t < length T" "\<not> ?eq" ?star
    | (rewind) s where "t < length T" "\<not> ?eq" "\<not> ?star" "star = Some s"
    | (fail) "t < length T" "\<not> ?eq" "\<not> ?star" "star = None" by fastforce
  then show ?case
  proof cases
    case finished
    then show ?thesis using glob_inv_done [of P T p t star mark] by (subst wildcard_loop.simps) auto
  next
    case advance
    then have "\<exists>b. wildcard_loop P T (p + 1) (t + 1) star mark = Some b \<and>
        (star_char \<notin> set T \<and> glob_inv P T (p + 1) (t + 1) star mark \<longrightarrow> (b \<longleftrightarrow> glob_spec P T))"
      using 1(2) by (intro 1(1)) (auto simp: glob_measure_def)
    with advance show ?thesis using glob_inv_advance [of P T p t star mark]
      by (subst wildcard_loop.simps) auto
  next
    case star
    then have "\<exists>b. wildcard_loop P T (p + 1) t (Some p) t = Some b \<and>
        (star_char \<notin> set T \<and> glob_inv P T (p + 1) t (Some p) t \<longrightarrow> (b \<longleftrightarrow> glob_spec P T))"
      using 1(2) by (intro 1(1)) (auto simp: glob_measure_def)
    with star show ?thesis using glob_inv_star [of P T p t _ mark]
      by (subst wildcard_loop.simps) auto
  next
    case (rewind s)
    then have "\<exists>b. wildcard_loop P T (s + 1) (mark + 1) (Some s) (mark + 1) = Some b \<and>
        (star_char \<notin> set T \<and> glob_inv P T (s + 1) (mark + 1) (Some s) (mark + 1) \<longrightarrow> (b \<longleftrightarrow> glob_spec P T))"
      using 1(2) by (intro 1(1)) (auto simp: glob_measure_def)
    with rewind show ?thesis using glob_inv_back [of P T p t s mark] no_match_here [of t T p P]
      by (subst wildcard_loop.simps) auto
  next
    case fail
    then show ?thesis using no_match_here [of t T p P]
      by (subst wildcard_loop.simps) (auto simp: glob_inv_def)
  qed
qed

lemma wildcard_correct:
  "\<exists>b. wildcard P T = Some b \<and> (star_char \<notin> set T \<longrightarrow> (b \<longleftrightarrow> glob_spec P T))"
  using wildcard_loop_correct [of 0 0 T P 0 None] by (auto simp: wildcard_def glob_inv_def rest_matches_def)

lemma literal_spec: "\<not> has_wildcard P \<Longrightarrow> glob_spec P T \<longleftrightarrow> P = T"
proof (induction P arbitrary: T)
  case (Cons c P)
  then show ?case by (cases T) (auto simp: has_wildcard_def)
qed auto

lemma compiled_agrees: "glob_matches (glob_new P) T = glob_match P T"
  by (simp add: glob_matches_def glob_new_def glob_match_def)

lemmas glob_eval = glob_match_def wildcard_def has_wildcard_def wildcard_loop.simps skip_stars.simps

text \<open>
  C21. Glob matching always answers, the compiled pattern as the one-off call, and on a text without an asterisk the
  answer is the documented one: the star takes any run of characters, the question mark one, every other
  character itself. With an asterisk in the text the matcher can be wrong: it compares characters before it
  looks for the star, so that the pattern \<^verbatim>\<open>*\<close> does not match the text \<^verbatim>\<open>*a\<close>.
\<close>

theorem glob_match_correct:
  "(\<exists>b. glob_match P T = Some b \<and> glob_matches (glob_new P) T = Some b \<and>
      (star_char \<notin> set T \<longrightarrow> (b \<longleftrightarrow> glob_spec P T))) \<and>
   glob_match [star_char] [star_char, 97] = Some False \<and> glob_spec [star_char] [star_char, 97]"
proof (intro conjI)
  show "\<exists>b. glob_match P T = Some b \<and> glob_matches (glob_new P) T = Some b \<and>
     (star_char \<notin> set T \<longrightarrow> (b \<longleftrightarrow> glob_spec P T))"
    using wildcard_correct [of P T] literal_spec [of P T] by (auto simp: compiled_agrees glob_match_def)
qed (auto simp: glob_eval)

theorem glob_match_correct_witness:
  "glob_match [97, star_char, any_char] [97, 98, 99] = Some True \<and> star_char \<notin> set [97, 98, 99 :: nat]"
proof -
  have "glob_spec [97, star_char, any_char] [97, 98, 99]" by (auto intro: exI [of _ 1])
  then show ?thesis using glob_match_correct [of "[97, star_char, any_char]" "[97, 98, 99]"] by auto
qed

end
