(* ===== verification/Suggest.thy ===== *)
theory Suggest
  imports Prelude "HOL-Library.Sublist" "HOL-Library.List_Lexorder" "HOL-Library.Product_Lexorder"
begin

text \<open>
  Nearest-match suggestions, \<^verbatim>\<open>core/rskit-util/src/strings/suggest.rs\<close>, and the resolution of a shorthand to a unique candidate,
  \<^verbatim>\<open>resolve.rs\<close>. Strings are sequences of Unicode scalar values; their order as strings is the
  lexicographic order of these sequences, which UTF-8 keeps. The Unicode tables of lower case are
  a parameter: \<open>str_lower\<close> for strings and \<open>char_lower\<close> for single characters.
\<close>

section \<open>The distance\<close>

text \<open>
  The inner step of \<^verbatim>\<open>osa_distance\<close>: the value of column \<open>j\<close> of row \<open>i\<close>, from the two rows before and the columns to the left. The
  rows are mutable vectors of \<open>length b + 1\<close> entries, none larger than the sum of the lengths.
\<close>

definition osa_value :: "nat list \<Rightarrow> nat list \<Rightarrow> nat \<Rightarrow> nat list \<Rightarrow> nat list \<Rightarrow> nat list \<Rightarrow> nat \<Rightarrow> nat" where
  "osa_value a b i two_prev prev current j =
     (let cost = (if a ! (i - 1) \<noteq> b ! (j - 1) then 1 else 0);
          value = min (min (prev ! j + 1) (current ! (j - 1) + 1)) (prev ! (j - 1) + cost)
      in if i > 1 \<and> j > 1 \<and> a ! (i - 1) = b ! (j - 2) \<and> a ! (i - 2) = b ! (j - 1)
         then min value (two_prev ! (j - 2) + 1) else value)"

definition osa_row :: "nat list \<Rightarrow> nat list \<Rightarrow> nat \<Rightarrow> nat list \<Rightarrow> nat list \<Rightarrow> nat list \<Rightarrow> nat list" where
  "osa_row a b i two_prev prev current =
     foldl (\<lambda>current j. current[j := osa_value a b i two_prev prev current j]) (current[0 := i]) [1..<length b + 1]"

text \<open>One round of the outer loop; the swaps rotate the three rows.\<close>

definition osa_round ::
    "nat list \<Rightarrow> nat list \<Rightarrow> nat list \<times> nat list \<times> nat list \<Rightarrow> nat \<Rightarrow> nat list \<times> nat list \<times> nat list" where
  "osa_round a b = (\<lambda>(two_prev, prev, current) i. (prev, osa_row a b i two_prev prev current, two_prev))"

definition osa_distance :: "nat list \<Rightarrow> nat list \<Rightarrow> nat" where
  "osa_distance a b =
     (if a = [] then length b
      else if b = [] then length a
      else
        let cols = length b + 1
        in case foldl (osa_round a b) (replicate cols 0, [0..<cols], replicate cols 0) [1..<length a + 1] of
             (_, prev, _) \<Rightarrow> prev ! length b)"

section \<open>Suggestions\<close>

definition default_suggestion_distance :: nat where
  "default_suggestion_distance = 2"

text \<open>\<^verbatim>\<open>is_subsequence\<close>: \<^verbatim>\<open>any\<close> consumes the haystack through the first hit.\<close>

fun is_subsequence :: "nat list \<Rightarrow> nat list \<Rightarrow> bool" where
  "is_subsequence [] haystack = True"
| "is_subsequence (target # needle) haystack =
     (case dropWhile (\<lambda>c. c \<noteq> target) haystack of [] \<Rightarrow> False | _ # chars \<Rightarrow> is_subsequence needle chars)"

definition usize_max :: nat where "usize_max = 2 ^ 64 - 1"

definition match_score :: "nat list \<Rightarrow> nat list \<Rightarrow> nat \<Rightarrow> nat option" where
  "match_score input candidate max_distance =
     (let input_len = length input; candidate_len = length candidate;
          distance = osa_distance input candidate
      in if max input_len candidate_len - min input_len candidate_len \<le> max_distance \<and> distance \<le> max_distance
         then Some distance
         else if input_len \<ge> 2 \<and> candidate_len \<le> min usize_max (input_len * 4) \<and> is_subsequence input candidate
         then Some max_distance
         else None)"

definition leading_char_matches :: "(nat \<Rightarrow> nat list) \<Rightarrow> nat list \<Rightarrow> nat \<Rightarrow> bool" where
  "leading_char_matches char_lower s leading =
     (case s of [] \<Rightarrow> False | first # _ \<Rightarrow> char_lower first = char_lower leading)"

definition prefix_matches :: "(nat \<Rightarrow> nat list) \<Rightarrow> nat list \<Rightarrow> nat list \<Rightarrow> bool" where
  "prefix_matches char_lower lower_input candidate =
     (case lower_input of [] \<Rightarrow> False | c # _ \<Rightarrow> leading_char_matches char_lower candidate c)"

definition prefers :: "(nat \<Rightarrow> nat list) \<Rightarrow> nat list \<Rightarrow> nat list \<Rightarrow> nat list \<Rightarrow> bool" where
  "prefers char_lower candidate incumbent lower_input =
     (case (prefix_matches char_lower lower_input candidate, prefix_matches char_lower lower_input incumbent) of
        (True, False) \<Rightarrow> True
      | (False, True) \<Rightarrow> False
      | _ \<Rightarrow> candidate < incumbent)"

definition nearest_step ::
    "(nat list \<Rightarrow> nat list) \<Rightarrow> (nat \<Rightarrow> nat list) \<Rightarrow> nat list \<Rightarrow> nat \<Rightarrow>
     (nat list \<times> nat) option \<Rightarrow> nat list \<Rightarrow> (nat list \<times> nat) option" where
  "nearest_step str_lower char_lower lower_input max_distance best candidate =
     (case match_score lower_input (str_lower candidate) max_distance of
        None \<Rightarrow> best
      | Some score \<Rightarrow>
          (case best of
             None \<Rightarrow> Some (candidate, score)
           | Some (best_candidate, best_score) \<Rightarrow>
               if score < best_score \<or> score = best_score \<and> prefers char_lower candidate best_candidate lower_input
               then Some (candidate, score) else best))"

definition nearest_within ::
    "(nat list \<Rightarrow> nat list) \<Rightarrow> (nat \<Rightarrow> nat list) \<Rightarrow> nat list \<Rightarrow> nat list list \<Rightarrow> nat \<Rightarrow> nat list option" where
  "nearest_within str_lower char_lower input candidates max_distance =
     map_option fst (foldl (nearest_step str_lower char_lower (str_lower input) max_distance) None candidates)"

definition nearest :: "(nat list \<Rightarrow> nat list) \<Rightarrow> (nat \<Rightarrow> nat list) \<Rightarrow> nat list \<Rightarrow> nat list list \<Rightarrow> nat list option" where
  "nearest str_lower char_lower input candidates =
     nearest_within str_lower char_lower input candidates default_suggestion_distance"

section \<open>Resolution of a shorthand\<close>

record 'a ambiguity =
  amb_input :: "nat list"
  amb_matches :: "'a list"

definition resolve_unique ::
    "nat list \<Rightarrow> 'a list \<Rightarrow> ('a \<Rightarrow> nat list) \<Rightarrow> 'a ambiguity + 'a option" where
  "resolve_unique input candidates key_of =
     (case filter (\<lambda>candidate. key_of candidate = input) candidates of
        [] \<Rightarrow> Inr None
      | [first] \<Rightarrow> Inr (Some first)
      | first # second # hits \<Rightarrow> Inl \<lparr>amb_input = input, amb_matches = [first, second] @ hits\<rparr>)"

section \<open>What the distance means\<close>

text \<open>
  \<open>osa_edits a b n\<close>: an alignment of \<open>a\<close> with \<open>b\<close> that edits \<open>n\<close> characters, where an exchange of two adjacent characters is one edit and
  no part is edited twice.
\<close>

inductive osa_edits :: "'a list \<Rightarrow> 'a list \<Rightarrow> nat \<Rightarrow> bool" where
  nothing: "osa_edits [] [] 0"
| keep: "osa_edits a b n \<Longrightarrow> osa_edits (x # a) (x # b) n"
| substitute: "osa_edits a b n \<Longrightarrow> osa_edits (x # a) (y # b) (Suc n)"
| delete: "osa_edits a b n \<Longrightarrow> osa_edits (x # a) b (Suc n)"
| insert: "osa_edits a b n \<Longrightarrow> osa_edits a (y # b) (Suc n)"
| transpose: "osa_edits a b n \<Longrightarrow> osa_edits (x # y # a) (y # x # b) (Suc n)"

lemma osa_edits_append:
  "osa_edits a b n \<Longrightarrow> osa_edits c d m \<Longrightarrow> osa_edits (a @ c) (b @ d) (n + m)"
  by (induction rule: osa_edits.induct) (simp_all add: osa_edits.intros)

lemma osa_edits_rev: "osa_edits a b n \<Longrightarrow> osa_edits (rev a) (rev b) n"
proof (induction rule: osa_edits.induct)
  case (keep a b n x)
  show ?case using osa_edits_append [OF keep.IH osa_edits.keep [OF osa_edits.nothing, where x = x]] by simp
next
  case (substitute a b n x y)
  show ?case using osa_edits_append [OF substitute.IH osa_edits.substitute [OF osa_edits.nothing, where x = x and y = y]] by simp
next
  case (delete a b n x)
  show ?case using osa_edits_append [OF delete.IH osa_edits.delete [OF osa_edits.nothing, where x = x]] by simp
next
  case (insert a b n y)
  show ?case using osa_edits_append [OF insert.IH osa_edits.insert [OF osa_edits.nothing, where y = y]] by simp
next
  case (transpose a b n x y)
  show ?case using osa_edits_append [OF transpose.IH osa_edits.transpose [OF osa_edits.nothing, where x = y and y = x]] by simp
qed (simp add: osa_edits.nothing)

lemma osa_edits_lengths: "osa_edits a b n \<Longrightarrow> length a \<le> length b + n \<and> length b \<le> length a + n"
  by (induction rule: osa_edits.induct) auto

lemma osa_edits_delete_all: "osa_edits a [] (length a)"
  by (induction a) (simp_all add: osa_edits.nothing osa_edits.delete)

lemma osa_edits_insert_all: "osa_edits [] b (length b)"
  by (induction b) (simp_all add: osa_edits.nothing osa_edits.insert)

text \<open>The recursion that the table computes, on the reversed prefixes.\<close>

fun osa_rec :: "'a list \<Rightarrow> 'a list \<Rightarrow> nat" where
  "osa_rec [] b = length b"
| "osa_rec (x # a) [] = Suc (length a)"
| "osa_rec (x # a) (y # b) =
     (let value = min (min (osa_rec a (y # b) + 1) (osa_rec (x # a) b + 1)) (osa_rec a b + (if x \<noteq> y then 1 else 0))
      in case (a, b) of
           (x' # a', y' # b') \<Rightarrow> if x = y' \<and> x' = y then min value (osa_rec a' b' + 1) else value
         | _ \<Rightarrow> value)"

declare osa_rec.simps(3) [simp del]

lemma osa_rec_Nil: "osa_rec a [] = length a"
  by (cases a) simp_all

lemma osa_rec_le_value:
  "osa_rec (x # a) (y # b) \<le>
     min (min (osa_rec a (y # b) + 1) (osa_rec (x # a) b + 1)) (osa_rec a b + (if x \<noteq> y then 1 else 0))"
  unfolding osa_rec.simps(3) [of x a y b] Let_def
  by (cases a; cases b) (simp_all only: prod.case list.case min.cobounded1 order.refl split: if_splits, simp)

lemma osa_rec_step:
  "osa_rec (x # a) b \<le> Suc (osa_rec a b)" "osa_rec a (y # b) \<le> Suc (osa_rec a b)"
  "osa_rec (x # a) (y # b) \<le> osa_rec a b + (if x \<noteq> y then 1 else 0)"
  "osa_rec (x # y # a) (y # x # b) \<le> Suc (osa_rec a b)"
  subgoal by (cases b) (use osa_rec_le_value [of x a "hd b" "tl b"] in \<open>auto simp: osa_rec_Nil\<close>)
  subgoal by (cases a) (use osa_rec_le_value [of "hd a" "tl a" y b] in auto)
  subgoal using osa_rec_le_value [of x a y b] by simp
  subgoal unfolding osa_rec.simps(3) [of x "y # a" y "x # b"] by (simp add: Let_def)
  done

lemma osa_rec_least: "osa_edits a b n \<Longrightarrow> osa_rec a b \<le> n"
proof (induction rule: osa_edits.induct)
  case (keep a b n x)
  then show ?case using osa_rec_step(3) [of x a x b] by simp
next
  case (substitute a b n x y)
  then show ?case using osa_rec_step(3) [of x a y b] by (simp split: if_splits)
next
  case (delete a b n x)
  then show ?case using osa_rec_step(1) [of x a b] by simp
next
  case (insert a b n y)
  then show ?case using osa_rec_step(2) [of a y b] by simp
next
  case (transpose a b n x y)
  then show ?case using osa_rec_step(4) [of x y a b] by simp
qed simp

lemma min_either: "min (m :: nat) n = m \<or> min m n = n"
  by (simp add: min_def)

lemma osa_rec_cases:
  obtains "osa_rec (x # a) (y # b) = Suc (osa_rec a (y # b))"
  | "osa_rec (x # a) (y # b) = Suc (osa_rec (x # a) b)"
  | "osa_rec (x # a) (y # b) = Suc (osa_rec a b)"
  | "x = y" "osa_rec (x # a) (y # b) = osa_rec a b"
  | a' b' where "a = y # a'" "b = x # b'" "osa_rec (x # a) (y # b) = Suc (osa_rec a' b')"
proof -
  let ?cost = "if x \<noteq> y then 1 else 0 :: nat"
  let ?v = "min (min (osa_rec a (y # b) + 1) (osa_rec (x # a) b + 1)) (osa_rec a b + ?cost)"
  have "?v = osa_rec a (y # b) + 1 \<or> ?v = osa_rec (x # a) b + 1 \<or> ?v = osa_rec a b + ?cost"
    using min_either [of "osa_rec a (y # b) + 1" "osa_rec (x # a) b + 1"]
      min_either [of "min (osa_rec a (y # b) + 1) (osa_rec (x # a) b + 1)" "osa_rec a b + ?cost"] by argo
  moreover have "osa_rec (x # a) (y # b) = ?v \<or>
      (\<exists>a' b'. a = y # a' \<and> b = x # b' \<and> osa_rec (x # a) (y # b) = Suc (osa_rec a' b'))"
  proof (cases "\<exists>a' b'. a = y # a' \<and> b = x # b'")
    case True
    then obtain a' b' where ab: "a = y # a'" "b = x # b'" by blast
    have "osa_rec (x # a) (y # b) = min ?v (osa_rec a' b' + 1)"
      unfolding osa_rec.simps(3) [of x a y b] by (simp only: ab Let_def prod.case list.case simp_thms if_True)
    with ab min_either [of ?v "osa_rec a' b' + 1"] show ?thesis by (metis Suc_eq_plus1)
  next
    case False
    then have "osa_rec (x # a) (y # b) = ?v"
      unfolding osa_rec.simps(3) [of x a y b] Let_def by (auto split: list.split)
    then show ?thesis ..
  qed
  ultimately show thesis using that by (cases "x = y") auto
qed

lemma osa_rec_edits: "osa_edits a b (osa_rec a b)"
proof (induction "length a + length b" arbitrary: a b rule: less_induct)
  case less
  show ?case
  proof (cases a)
    case Nil
    then show ?thesis by (simp add: osa_edits_insert_all)
  next
    case a: (Cons x as)
    show ?thesis
    proof (cases b)
      case Nil
      then show ?thesis using osa_edits_delete_all [of a] by (simp add: osa_rec_Nil)
    next
      case b: (Cons y bs)
      have IH: "osa_edits a' b' (osa_rec a' b')" if "length a' + length b' < length a + length b"
        for a' b' :: "'a list"
        using less that by blast
      show ?thesis unfolding a b
      proof (rule osa_rec_cases [of x as y bs])
        assume "osa_rec (x # as) (y # bs) = Suc (osa_rec as (y # bs))"
        then show "osa_edits (x # as) (y # bs) (osa_rec (x # as) (y # bs))"
          using IH a b by (simp add: osa_edits.delete)
      next
        assume "osa_rec (x # as) (y # bs) = Suc (osa_rec (x # as) bs)"
        then show "osa_edits (x # as) (y # bs) (osa_rec (x # as) (y # bs))"
          using IH a b by (simp add: osa_edits.insert)
      next
        assume "osa_rec (x # as) (y # bs) = Suc (osa_rec as bs)"
        then show "osa_edits (x # as) (y # bs) (osa_rec (x # as) (y # bs))"
          using IH a b by (simp add: osa_edits.substitute)
      next
        assume "x = y" "osa_rec (x # as) (y # bs) = osa_rec as bs"
        then show "osa_edits (x # as) (y # bs) (osa_rec (x # as) (y # bs))"
          using IH a b by (simp add: osa_edits.keep)
      next
        fix a' b'
        assume "as = y # a'" "bs = x # b'" "osa_rec (x # as) (y # bs) = Suc (osa_rec a' b')"
        then show "osa_edits (x # as) (y # bs) (osa_rec (x # as) (y # bs))"
          using IH [of a' b'] a b by (simp add: osa_edits.transpose)
      qed
    qed
  qed
qed

section \<open>The table computes the distance\<close>

definition osa_cell :: "nat list \<Rightarrow> nat list \<Rightarrow> nat \<Rightarrow> nat \<Rightarrow> nat" where
  "osa_cell a b i j = osa_rec (rev (take i a)) (rev (take j b))"

definition osa_row_ok :: "nat list \<Rightarrow> nat list \<Rightarrow> nat \<Rightarrow> nat list \<Rightarrow> bool" where
  "osa_row_ok a b i row \<longleftrightarrow> length row = length b + 1 \<and> (\<forall>j\<le>length b. row ! j = osa_cell a b i j)"

lemma rev_take_Suc: "i < length a \<Longrightarrow> rev (take (Suc i) a) = a ! i # rev (take i a)"
  by (simp add: take_Suc_conv_app_nth)

lemma osa_cell_0: "i \<le> length a \<Longrightarrow> osa_cell a b i 0 = i" "j \<le> length b \<Longrightarrow> osa_cell a b 0 j = j"
  by (simp_all add: osa_cell_def osa_rec_Nil)

lemma case_no_second:
  "(case (as, []) of (x' # a', y' # b') \<Rightarrow> f x' a' y' b' | _ \<Rightarrow> v) = v"
  "(case ([], bs) of (x' # a', y' # b') \<Rightarrow> f x' a' y' b' | _ \<Rightarrow> v) = v"
  by (simp_all split: list.split)

lemma osa_cell_Suc:
  assumes "i < length a" "j < length b"
  shows "osa_cell a b (Suc i) (Suc j) =
    (let value = min (min (osa_cell a b i (Suc j) + 1) (osa_cell a b (Suc i) j + 1))
                   (osa_cell a b i j + (if a ! i \<noteq> b ! j then 1 else 0))
     in if i > 0 \<and> j > 0 \<and> a ! i = b ! (j - 1) \<and> a ! (i - 1) = b ! j
        then min value (osa_cell a b (i - 1) (j - 1) + 1) else value)"
proof -
  note suc = rev_take_Suc [OF assms(1)] rev_take_Suc [OF assms(2)]
  show ?thesis
  proof (cases "i = 0 \<or> j = 0")
    case True
    then show ?thesis unfolding osa_cell_def suc osa_rec.simps(3) Let_def
      by (elim disjE) (simp_all only: take_0 rev.simps case_no_second less_irrefl simp_thms if_False)
  next
    case False
    then obtain i' j' where ij: "i = Suc i'" "j = Suc j'" by (cases i; cases j) auto
    have "rev (take i a) = a ! i' # rev (take i' a)" "rev (take j b) = b ! j' # rev (take j' b)"
      using assms ij by (auto simp: rev_take_Suc)
    then show ?thesis unfolding osa_cell_def suc osa_rec.simps(3) [of "a ! i" _ "b ! j"] Let_def
      by (simp add: ij)
  qed
qed

lemma osa_value_cell:
  assumes "i < length a" "j < length b" "osa_row_ok a b i prev" "i > 0 \<longrightarrow> osa_row_ok a b (i - 1) two_prev"
    "current ! j = osa_cell a b (Suc i) j"
  shows "osa_value a b (Suc i) two_prev prev current (Suc j) = osa_cell a b (Suc i) (Suc j)"
  using assms unfolding osa_cell_Suc [OF assms(1,2)]
  by (auto simp: osa_value_def osa_row_ok_def Let_def)

lemma osa_row_prefix:
  assumes "i < length a" "osa_row_ok a b i prev" "i > 0 \<longrightarrow> osa_row_ok a b (i - 1) two_prev"
    "length current = length b + 1" "m \<le> length b"
  shows "\<exists>row. foldl (\<lambda>current j. current[j := osa_value a b (Suc i) two_prev prev current j]) (current[0 := Suc i])
       [1..<m + 1] = row \<and> length row = length b + 1 \<and> (\<forall>j\<le>m. row ! j = osa_cell a b (Suc i) j)"
  using assms(5)
proof (induction m)
  case 0
  then show ?case using assms(1,4) by (simp add: osa_cell_0)
next
  case (Suc m)
  let ?f = "\<lambda>current j. current[j := osa_value a b (Suc i) two_prev prev current j]"
  define row where "row = foldl ?f (current[0 := Suc i]) [1..<m + 1]"
  have row: "length row = length b + 1" "\<forall>j\<le>m. row ! j = osa_cell a b (Suc i) j"
    using Suc.IH Suc.prems by (simp_all add: row_def del: upt_Suc)
  have "osa_value a b (Suc i) two_prev prev row (Suc m) = osa_cell a b (Suc i) (Suc m)"
    using Suc.prems row(2) assms(1-3) by (intro osa_value_cell) auto
  moreover have "foldl ?f (current[0 := Suc i]) [1..<Suc m + 1] =
      row[Suc m := osa_value a b (Suc i) two_prev prev row (Suc m)]" by (simp add: row_def)
  ultimately show ?case using row Suc.prems by (simp add: nth_list_update le_Suc_eq del: upt_Suc)
qed

lemma osa_row_correct:
  assumes "i < length a" "osa_row_ok a b i prev" "i > 0 \<longrightarrow> osa_row_ok a b (i - 1) two_prev"
    "length current = length b + 1"
  shows "osa_row_ok a b (Suc i) (osa_row a b (Suc i) two_prev prev current)"
  using osa_row_prefix [OF assms, of "length b"] by (auto simp: osa_row_ok_def osa_row_def)

lemma osa_rounds_correct:
  assumes "m \<le> length a"
  shows "\<exists>two_prev prev current.
     foldl (osa_round a b) (replicate (length b + 1) 0, [0..<length b + 1], replicate (length b + 1) 0) [1..<m + 1] =
       (two_prev, prev, current) \<and>
     osa_row_ok a b m prev \<and> (m > 0 \<longrightarrow> osa_row_ok a b (m - 1) two_prev) \<and>
     length two_prev = length b + 1 \<and> length current = length b + 1"
  using assms
proof (induction m)
  case 0
  then show ?case by (simp add: osa_row_ok_def osa_cell_0 del: upt_Suc)
next
  case (Suc m)
  then obtain two_prev prev current where st:
    "foldl (osa_round a b) (replicate (length b + 1) 0, [0..<length b + 1], replicate (length b + 1) 0) [1..<m + 1] =
       (two_prev, prev, current)" "osa_row_ok a b m prev" "m > 0 \<longrightarrow> osa_row_ok a b (m - 1) two_prev"
    "length two_prev = length b + 1" "length current = length b + 1" by auto
  have "osa_row_ok a b (Suc m) (osa_row a b (Suc m) two_prev prev current)"
    using Suc.prems st by (intro osa_row_correct) auto
  moreover have "[1..<Suc m + 1] = [1..<m + 1] @ [Suc m]" by simp
  ultimately show ?case using st by (simp add: osa_round_def osa_row_ok_def del: upt_Suc)
qed

lemma osa_distance_rec: "osa_distance a b = osa_rec (rev a) (rev b)"
proof (cases "a = [] \<or> b = []")
  case True
  then show ?thesis by (auto simp: osa_distance_def osa_rec_Nil)
next
  case False
  with osa_rounds_correct [of "length a" a b] show ?thesis
    by (auto simp: osa_distance_def Let_def osa_row_ok_def osa_cell_def simp del: upt_Suc)
qed

lemma osa_distance_edits: "osa_edits a b (osa_distance a b)"
  using osa_edits_rev [OF osa_rec_edits [of "rev a" "rev b"]] by (simp add: osa_distance_rec)

lemma osa_distance_least: "osa_edits a b n \<Longrightarrow> osa_distance a b \<le> n"
  using osa_rec_least [OF osa_edits_rev] by (simp add: osa_distance_rec)

lemma osa_distance_Least: "osa_distance a b = (LEAST n. osa_edits a b n)"
  using osa_distance_edits osa_distance_least by (intro Least_equality [symmetric])

lemma osa_distance_0: "osa_distance a b = 0 \<longleftrightarrow> a = b"
proof
  have "osa_edits a b n \<Longrightarrow> n = 0 \<Longrightarrow> a = b" for n by (induction rule: osa_edits.induct) auto
  then show "osa_distance a b = 0 \<Longrightarrow> a = b" using osa_distance_edits [of a b] by auto
  have "osa_edits a a 0" by (induction a) (auto intro: osa_edits.nothing osa_edits.keep)
  then show "a = b \<Longrightarrow> osa_distance a b = 0" using osa_distance_least [of a b 0] by simp
qed

section \<open>The best candidate\<close>

text \<open>
  What a candidate is worth: its edit distance, if that is small enough, else the largest distance for
  an abbreviation. Among equal scores a shared first character wins, then the smaller name.
\<close>

definition suggestion_score :: "nat list \<Rightarrow> nat list \<Rightarrow> nat \<Rightarrow> nat option" where
  "suggestion_score input candidate max_distance =
     (if (LEAST n. osa_edits input candidate n) \<le> max_distance then Some (LEAST n. osa_edits input candidate n)
      else if 2 \<le> length input \<and> length candidate \<le> min usize_max (4 * length input) \<and> subseq input candidate
      then Some max_distance
      else None)"

definition suggestion_key ::
    "(nat list \<Rightarrow> nat list) \<Rightarrow> (nat \<Rightarrow> nat list) \<Rightarrow> nat list \<Rightarrow> nat \<Rightarrow> nat list \<Rightarrow> (nat \<times> nat \<times> nat list) option" where
  "suggestion_key str_lower char_lower input max_distance candidate =
     map_option (\<lambda>score. (score, if prefix_matches char_lower (str_lower input) candidate then 0 else 1, candidate))
       (suggestion_score (str_lower input) (str_lower candidate) max_distance)"

lemma dropWhile_subseq: "subseq (x # xs) (dropWhile (\<lambda>c. c \<noteq> x) ys) = subseq (x # xs) ys"
  by (induction ys) auto

lemma is_subsequence_subseq: "is_subsequence needle haystack = subseq needle haystack"
proof (induction needle haystack rule: is_subsequence.induct)
  case (2 target needle haystack)
  show ?case
  proof (cases "dropWhile (\<lambda>c. c \<noteq> target) haystack")
    case Nil
    have "\<not> subseq (target # needle) haystack" using dropWhile_subseq [of target needle haystack] unfolding Nil by simp
    then show ?thesis unfolding is_subsequence.simps Nil by simp
  next
    case (Cons c chars)
    moreover from Cons have "c = target" by (metis (mono_tags) hd_dropWhile list.distinct(1) list.sel(1))
    ultimately show ?thesis using dropWhile_subseq [of target needle haystack] 2 by simp
  qed
qed simp

lemma match_score_suggestion: "match_score input candidate max_distance = suggestion_score input candidate max_distance"
proof -
  have "max (length input) (length candidate) - min (length input) (length candidate) \<le> osa_distance input candidate"
    using osa_edits_lengths [OF osa_distance_edits [of input candidate]] by auto
  then show ?thesis
    by (auto simp: match_score_def suggestion_score_def Let_def osa_distance_Least [symmetric] is_subsequence_subseq
        mult.commute)
qed

definition candidate_key :: "(nat \<Rightarrow> nat list) \<Rightarrow> nat list \<Rightarrow> nat list \<times> nat \<Rightarrow> nat \<times> nat \<times> nat list" where
  "candidate_key char_lower lower_input =
     (\<lambda>(c, score). (score, if prefix_matches char_lower lower_input c then 0 else 1, c))"

lemma prefers_key:
  "score < best_score \<or> score = best_score \<and> prefers char_lower c d lower_input \<longleftrightarrow>
     candidate_key char_lower lower_input (c, score) < candidate_key char_lower lower_input (d, best_score)"
  by (auto simp: prefers_def candidate_key_def less_prod_def split: bool.splits)

lemma finite_these: "finite S \<Longrightarrow> finite (Option.these S)"
  by (simp add: Option.these_def)

lemma suggestion_key_candidate:
  "suggestion_key str_lower char_lower input max_distance c =
     map_option (\<lambda>score. candidate_key char_lower (str_lower input) (c, score))
       (match_score (str_lower input) (str_lower c) max_distance)"
  by (simp add: suggestion_key_def candidate_key_def match_score_suggestion)

lemma nearest_fold:
  "map_option (candidate_key char_lower (str_lower input))
     (foldl (nearest_step str_lower char_lower (str_lower input) max_distance) None candidates) =
   (let ks = Option.these (suggestion_key str_lower char_lower input max_distance ` set candidates)
    in if ks = {} then None else Some (Min ks))"
proof (induction candidates rule: rev_induct)
  case (snoc c cs)
  let ?key = "candidate_key char_lower (str_lower input)"
  define best where "best = foldl (nearest_step str_lower char_lower (str_lower input) max_distance) None cs"
  define ks where "ks = Option.these (suggestion_key str_lower char_lower input max_distance ` set cs)"
  have ks: "finite ks" "map_option ?key best = (if ks = {} then None else Some (Min ks))"
    using snoc by (simp_all add: ks_def best_def Let_def finite_these)
  define new where "new = Option.these (suggestion_key str_lower char_lower input max_distance ` set (cs @ [c]))"
  have "map_option ?key (nearest_step str_lower char_lower (str_lower input) max_distance best c) =
      (if new = {} then None else Some (Min new))"
  proof (cases "match_score (str_lower input) (str_lower c) max_distance")
    case None
    then have "new = ks" by (simp add: new_def ks_def suggestion_key_candidate)
    with None ks(2) show ?thesis by (simp add: nearest_step_def)
  next
    case (Some score)
    then have new: "new = insert (?key (c, score)) ks"
      by (simp add: new_def ks_def suggestion_key_candidate)
    show ?thesis
    proof (cases best)
      case None
      with ks(2) have "ks = {}" by (simp split: if_splits)
      with None Some new show ?thesis by (simp add: nearest_step_def)
    next
      case b: (Some b)
      obtain d best_score where d: "b = (d, best_score)" by (cases b)
      from b ks(2) have "ks \<noteq> {}" "Min ks = ?key b" by (auto split: if_splits)
      then have "Min new = min (?key (c, score)) (?key b)" using ks(1) new by simp
      with b d Some new show ?thesis by (auto simp: nearest_step_def prefers_key min_def not_less order.order_iff_strict)
    qed
  qed
  then show ?case by (simp add: best_def new_def Let_def)
qed simp

text \<open>
  C22. Suggestions are the best ones. The table of three rolling rows computes the least number of
  edits of an alignment, the length test in front of it never loses a candidate, and the loop returns the
  candidate with the least score, shared first characters first and then in the order of strings,
  so that the answer does not depend on the order of the candidates.
\<close>

theorem nearest_is_best_match:
  "osa_distance a b = (LEAST n. osa_edits a b n) \<and>
   nearest_within str_lower char_lower input candidates max_distance =
     (let ks = Option.these (suggestion_key str_lower char_lower input max_distance ` set candidates)
      in if ks = {} then None else Some (snd (snd (Min ks))))"
proof (rule conjI [OF osa_distance_Least])
  have "map_option fst r = map_option (\<lambda>k. snd (snd k)) (map_option (candidate_key char_lower (str_lower input)) r)" for r
    by (cases r) (auto simp: candidate_key_def)
  then show "nearest_within str_lower char_lower input candidates max_distance =
     (let ks = Option.these (suggestion_key str_lower char_lower input max_distance ` set candidates)
      in if ks = {} then None else Some (snd (snd (Min ks))))"
    unfolding nearest_within_def by (simp only: nearest_fold) (simp add: Let_def)
qed

end
