(* ===== verification/Messaging.thy ===== *)
theory Messaging
  imports Retry
begin

text \<open>
  Messages, handlers and the handler middleware of \<^verbatim>\<open>core/rskit-messaging/src\<close>: \<^verbatim>\<open>message.rs\<close>, \<^verbatim>\<open>handler.rs\<close>, \<^verbatim>\<open>router.rs\<close> and
  \<^verbatim>\<open>middleware/\<close> (deduplication, dead letters, retry, circuit breaker, metrics, the stack builder). A handler acts on a
  world, in which a stateful middleware keeps its shared state in a cell. Time stamps and identifiers
  come from the world or are arguments.
\<close>

section \<open>Messages and handlers\<close>

record 't message =
  msg_topic :: string
  msg_key :: "string option"
  msg_payload :: 't
  msg_headers :: "(string, string) hashmap"
  msg_timestamp :: instant
  msg_partition :: "int option"
  msg_offset :: "int option"

definition message_new :: "instant \<Rightarrow> string \<Rightarrow> 't \<Rightarrow> 't message" where
  "message_new now topic payload =
     \<lparr>msg_topic = topic, msg_key = None, msg_payload = payload, msg_headers = [], msg_timestamp = now,
      msg_partition = None, msg_offset = None\<rparr>"

definition with_key :: "string \<Rightarrow> 't message \<Rightarrow> 't message" where
  "with_key key msg = msg\<lparr>msg_key := Some key\<rparr>"

definition with_header :: "string \<Rightarrow> string \<Rightarrow> 't message \<Rightarrow> 't message" where
  "with_header key v msg = msg\<lparr>msg_headers := hm_insert key v (msg_headers msg)\<rparr>"

definition with_message_id :: "string \<Rightarrow> 't message \<Rightarrow> 't message" where
  "with_message_id uuid msg = with_header ''message-id'' uuid msg"

type_synonym ('w, 't) handler = "'t message \<Rightarrow> 'w \<Rightarrow> 'w \<times> unit app_result"

type_synonym ('w, 't) middleware = "('w, 't) handler \<Rightarrow> ('w, 't) handler"

definition chain_handlers :: "('w, 't) handler \<Rightarrow> ('w, 't) middleware list \<Rightarrow> ('w, 't) handler" where
  "chain_handlers base middlewares = foldl (\<lambda>handler mw. mw handler) base (rev middlewares)"

definition middleware_fn :: "(('w, 't) handler \<Rightarrow> ('w, 't) handler) \<Rightarrow> ('w, 't) middleware" where
  "middleware_fn f = (\<lambda>next. f next)"

definition fn_handler :: "('t message \<Rightarrow> 'w \<Rightarrow> 'w \<times> unit app_result) \<Rightarrow> ('w, 't) handler" where
  "fn_handler f = (\<lambda>msg. f msg)"

record ('w, 't) stack_builder =
  sb_base :: "('w, 't) handler"
  sb_middlewares :: "('w, 't) middleware list"

definition stack_new :: "('w, 't) handler \<Rightarrow> ('w, 't) stack_builder" where
  "stack_new base = \<lparr>sb_base = base, sb_middlewares = []\<rparr>"

definition stack_with :: "('w, 't) middleware \<Rightarrow> ('w, 't) stack_builder \<Rightarrow> ('w, 't) stack_builder" where
  "stack_with mw sb = sb\<lparr>sb_middlewares := sb_middlewares sb @ [mw]\<rparr>"

definition stack_build :: "('w, 't) stack_builder \<Rightarrow> ('w, 't) handler" where
  "stack_build sb = chain_handlers (sb_base sb) (sb_middlewares sb)"

lemma chain_handlers_Nil [simp]: "chain_handlers base [] = base"
  by (simp add: chain_handlers_def)

lemma chain_handlers_Cons [simp]: "chain_handlers base (mw # mws) = mw (chain_handlers base mws)"
  by (simp add: chain_handlers_def)

text \<open>The shared state of a middleware, a place in the world.\<close>

record ('w, 's) cell =
  cell_get :: "'w \<Rightarrow> 's"
  cell_put :: "'s \<Rightarrow> 'w \<Rightarrow> 'w"

definition cell_ok :: "('w, 's) cell \<Rightarrow> bool" where
  "cell_ok c \<longleftrightarrow> (\<forall>s w. cell_get c (cell_put c s w) = s)"

section \<open>Deduplication\<close>

record dedup_config =
  window_size :: nat
  dd_ttl :: duration

definition dedup_config_default :: dedup_config where
  "dedup_config_default = \<lparr>window_size = 10000, dd_ttl = 5 * 60 * 1000000000\<rparr>"

text \<open>
  The entries in the order in which the map happens to be iterated, which \<open>rank\<close> decides for every content
  of the map.
\<close>

type_synonym map_order = "(string, instant) hashmap \<Rightarrow> string \<Rightarrow> nat"

definition iter_seen :: "map_order \<Rightarrow> (string, instant) hashmap \<Rightarrow> (string \<times> instant) list" where
  "iter_seen rank seen = sort_key (\<lambda>(k, _). rank seen k) seen"

lemma set_iter_seen [simp]: "set (iter_seen rank seen) = set seen"
  by (simp add: iter_seen_def)

lemma iter_seen_Nil [simp]: "iter_seen rank seen = [] \<longleftrightarrow> seen = []"
  by (metis set_empty set_iter_seen)

lemma hm_remove_shorter: "k \<in> hm_keys m \<Longrightarrow> length (hm_remove k m) < length m"
  by (auto simp: AList.delete_eq hm_keys_def length_filter_less)

function evict_loop :: "map_order \<Rightarrow> nat \<Rightarrow> (string, instant) hashmap \<Rightarrow> (string, instant) hashmap" where
  "evict_loop rank window seen =
     (if window \<le> length seen then
        (case min_by_key snd (iter_seen rank seen) of
           Some (key, _) \<Rightarrow> evict_loop rank window (hm_remove key seen)
         | None \<Rightarrow> seen)
      else seen)"
  by pat_completeness auto
termination
proof (relation "measure (\<lambda>(_, _, seen). length seen)", goal_cases)
  case (2 rank window seen kt key ts)
  then have "(key, ts) \<in> set seen" using min_by_key_mem [of snd "iter_seen rank seen" "(key, ts)"] by simp
  then show ?case by (auto intro!: hm_remove_shorter simp: hm_keys_def image_iff Bex_def)
qed simp

declare evict_loop.simps [simp del]

text \<open>The section under the lock: the new map, and whether the message goes on.\<close>

definition dedup_admit ::
    "map_order \<Rightarrow> dedup_config \<Rightarrow> instant \<Rightarrow> string \<Rightarrow> (string, instant) hashmap \<Rightarrow>
     (string, instant) hashmap \<times> bool" where
  "dedup_admit rank config now mid seen =
     (let seen1 = filter (\<lambda>(_, ts). now - ts < dd_ttl config) seen
      in if hm_contains seen1 mid then (seen1, False)
         else (hm_insert mid now (evict_loop rank (window_size config) seen1), True))"

definition dedup_handle ::
    "map_order \<Rightarrow> dedup_config \<Rightarrow> ('w \<Rightarrow> instant) \<Rightarrow> ('w, (string, instant) hashmap) cell \<Rightarrow> ('w, 't) middleware" where
  "dedup_handle rank config now_of c next msg w =
     (case hm_get (msg_headers msg) ''message-id'' of
        Some mid \<Rightarrow>
          (case dedup_admit rank config (now_of w) mid (cell_get c w) of
             (seen, False) \<Rightarrow> (cell_put c seen w, Inr ())
           | (seen, True) \<Rightarrow> next msg (cell_put c seen w))
      | None \<Rightarrow> next msg w)"

section \<open>Dead letters\<close>

definition redacted :: string where "redacted = ''<redacted>''"

definition max_dlq_payload_chars :: nat where "max_dlq_payload_chars = 4096"

definition max_binary_preview_bytes :: nat where "max_binary_preview_bytes = 32"

definition sensitive_parts :: "string list" where
  "sensitive_parts =
     [''authorization'', ''cookie'', ''token'', ''secret'', ''password'', ''credential'', ''api-key'', ''apikey'']"

record dead_letter_config =
  dlq_suffix :: string

definition dead_letter_config_default :: dead_letter_config where
  "dead_letter_config_default = \<lparr>dlq_suffix = ''.dlq''\<rparr>"

record 't dead_letter_envelope =
  dle_original_topic :: string
  dle_error :: string
  dle_retry_count :: nat
  dle_timestamp :: instant
  dle_headers :: "(string, string) hashmap"
  dle_payload :: 't
  dle_payload_summary :: string

definition is_sensitive :: "string \<Rightarrow> bool" where
  "is_sensitive v = list_ex (\<lambda>part. sublist part (map to_ascii_lowercase v)) sensitive_parts"

fun take_chars :: "nat \<Rightarrow> string \<Rightarrow> string" where
  "take_chars n [] = []"
| "take_chars n (c # cs) =
     (if is_continuation c then c # take_chars n cs
      else if n = 0 then [] else c # take_chars (n - 1) cs)"

definition ellipsis :: string where "ellipsis = utf8_bytes [226, 128, 166]"

definition truncate_summary :: "string \<Rightarrow> string" where
  "truncate_summary v =
     (if length (filter (\<lambda>c. \<not> is_continuation c) v) \<le> max_dlq_payload_chars then v
      else take_chars max_dlq_payload_chars v @ ellipsis)"

definition sanitize_summary :: "string \<Rightarrow> string" where
  "sanitize_summary v = (if is_sensitive v then redacted else truncate_summary v)"

definition hex_digit :: "nat \<Rightarrow> char" where
  "hex_digit d = (if d < 10 then char_of (48 + d) else char_of (87 + d))"

definition hex_byte :: "char \<Rightarrow> string" where
  "hex_byte c = [hex_digit (of_char c div 16), hex_digit (of_char c mod 16)]"

definition binary_payload_summary :: "char list \<Rightarrow> string" where
  "binary_payload_summary v =
     (let preview = concat (map hex_byte (take max_binary_preview_bytes v))
      in if length v > max_binary_preview_bytes
         then ''binary payload: '' @ show_nat (length v) @ '' bytes, hex preview: '' @ preview @ ellipsis
         else ''binary payload: '' @ show_nat (length v) @ '' bytes, hex: '' @ preview)"

text \<open>\<^verbatim>\<open>str::parse::<u32>\<close>: digits after an optional plus sign, in range.\<close>

definition parse_u32 :: "string \<Rightarrow> nat option" where
  "parse_u32 s =
     (let digits = (case s of c # rest \<Rightarrow> if c = CHR ''+'' then rest else s | [] \<Rightarrow> s);
          n = foldl (\<lambda>acc c. acc * 10 + (of_char c - 48)) 0 digits
      in if digits \<noteq> [] \<and> list_all (\<lambda>c. 48 \<le> (of_char c :: nat) \<and> (of_char c :: nat) \<le> 57) digits \<and> n < 2 ^ 32
         then Some n else None)"

definition retry_count :: "(string, string) hashmap \<Rightarrow> nat" where
  "retry_count headers =
     (case Option.bind (hm_get headers ''x-retry-count'') parse_u32 of Some n \<Rightarrow> n | None \<Rightarrow> 0)"

definition redact_headers :: "(string, string) hashmap \<Rightarrow> (string, string) hashmap" where
  "redact_headers headers =
     map (\<lambda>(key, v). if is_sensitive key \<or> is_sensitive v then (key, redacted) else (key, v)) headers"

definition dead_letter_envelope_of ::
    "('t \<Rightarrow> string) \<Rightarrow> instant \<Rightarrow> 't message \<Rightarrow> app_error \<Rightarrow> 't dead_letter_envelope" where
  "dead_letter_envelope_of summary now backup e =
     \<lparr>dle_original_topic = msg_topic backup, dle_error = sanitize_summary (app_error_display e),
      dle_retry_count = retry_count (msg_headers backup), dle_timestamp = now,
      dle_headers = redact_headers (msg_headers backup), dle_payload = msg_payload backup,
      dle_payload_summary = summary (msg_payload backup)\<rparr>"

text \<open>
  \<open>summary\<close> is the payload type's \<^verbatim>\<open>dead_letter_payload_summary\<close>, \<open>send\<close> the producer of the dead-letter topic.
\<close>

definition dead_letter_handle ::
    "('t \<Rightarrow> string) \<Rightarrow> ('t dead_letter_envelope message \<Rightarrow> 'w \<Rightarrow> 'w \<times> unit app_result) \<Rightarrow> ('w \<Rightarrow> instant) \<Rightarrow>
     dead_letter_config \<Rightarrow> ('w, 't) middleware" where
  "dead_letter_handle summary send now_of config next msg w =
     (case next msg w of
        (w1, Inr _) \<Rightarrow> (w1, Inr ())
      | (w1, Inl e) \<Rightarrow>
          let envelope = dead_letter_envelope_of summary (now_of w1) msg e;
              dlq_msg = message_new (now_of w1) (msg_topic msg @ dlq_suffix config) envelope
          in send (dlq_msg\<lparr>msg_key := (case msg_key msg of Some k \<Rightarrow> Some k | None \<Rightarrow> Some ''dlq'')\<rparr>) w1)"

section \<open>Retry, circuit breaker and metrics\<close>

record retry_config =
  rc_policy :: retry_policy

definition retry_config_default :: retry_config where
  "retry_config_default = \<lparr>rc_policy = with_retry_if (\<lambda>_. True) retry_policy_default\<rparr>"

definition retry_handle ::
    "'w time_env \<Rightarrow> ('w, unit app_result) timeout_fn \<Rightarrow> (nat \<Rightarrow> duration) \<Rightarrow> retry_config \<Rightarrow> ('w, 't) middleware" where
  "retry_handle env tmo delay_of config next msg w =
     (case retry_execute env tmo delay_of (rc_policy config) (next msg) w of
        (w', _, Inr v) \<Rightarrow> (w', Inr v)
      | (w', _, Inl err) \<Rightarrow> (w', Inl (re_last_error err)))"

record circuit_breaker_config =
  cbm_threshold :: nat
  cbm_timeout :: duration
  cbm_half_open_max :: nat

definition circuit_breaker_config_default :: circuit_breaker_config where
  "circuit_breaker_config_default =
     \<lparr>cbm_threshold = 5, cbm_timeout = 30 * 1000000000, cbm_half_open_max = 2\<rparr>"

definition circuit_breaker_middleware :: "circuit_breaker_config \<Rightarrow> (cb_inner \<times> cb_config) app_result" where
  "circuit_breaker_middleware config =
     circuit_breaker_new
       (with_half_open_max_calls (cbm_half_open_max config)
         (with_cb_timeout (cbm_timeout config)
           (with_max_failures (cbm_threshold config) (cb_config_new ''messaging-cb''))))"

text \<open>The breaker's state is shared by the clones of the middleware; the call runs between its two sections.\<close>

definition circuit_breaker_handle ::
    "cb_config \<Rightarrow> ('w \<Rightarrow> instant) \<Rightarrow> ('w, cb_inner) cell \<Rightarrow> ('w, 't) middleware" where
  "circuit_breaker_handle config now_of c next msg w =
     (case cb_execute config now_of (next msg) (cell_get c w, w) of
        ((cb, w'), _, r) \<Rightarrow> (cell_put c cb w', r))"

definition instrument_handle ::
    "(string \<Rightarrow> duration \<Rightarrow> bool \<Rightarrow> 'w \<Rightarrow> 'w) \<Rightarrow> ('w \<Rightarrow> instant) \<Rightarrow> string \<Rightarrow> ('w, 't) middleware" where
  "instrument_handle record_consume now_of topic next msg w =
     (case next msg w of (w1, result) \<Rightarrow>
       (record_consume topic (now_of w1 - now_of w) (is_ok result) w1, result))"

section \<open>Routing\<close>

record ('w, 't) router =
  rt_routes :: "(string \<times> ('w, 't) handler) list"
  rt_default :: "('w, 't) handler option"

definition router_new :: "('w, 't) router" where
  "router_new = \<lparr>rt_routes = [], rt_default = None\<rparr>"

definition router_handle :: "string \<Rightarrow> ('w, 't) handler \<Rightarrow> ('w, 't) router \<Rightarrow> ('w, 't) router" where
  "router_handle pattern handler r = r\<lparr>rt_routes := rt_routes r @ [(pattern, handler)]\<rparr>"

definition default_handler :: "('w, 't) handler \<Rightarrow> ('w, 't) router \<Rightarrow> ('w, 't) router" where
  "default_handler handler r = r\<lparr>rt_default := Some handler\<rparr>"

abbreviation star :: char where "star \<equiv> CHR ''*''"

fun wildcard_match :: "string \<Rightarrow> string \<Rightarrow> bool" where
  "wildcard_match [] [] = True"
| "wildcard_match [] (t # ts) = False"
| "wildcard_match (p # ps) [] = (if p = star then wildcard_match ps [] else list_all (\<lambda>b. b = star) (p # ps))"
| "wildcard_match (p # ps) (t # ts) =
     (if p = star then wildcard_match ps (t # ts) \<or> wildcard_match (p # ps) ts
      else if p = t then wildcard_match ps ts else False)"

definition matches_pattern :: "string \<Rightarrow> string \<Rightarrow> bool" where
  "matches_pattern pattern topic = (if star \<notin> set pattern then pattern = topic else wildcard_match pattern topic)"

fun route :: "(string \<times> ('w, 't) handler) list \<Rightarrow> string \<Rightarrow> ('w, 't) handler option" where
  "route [] topic = None"
| "route ((pattern, handler) # routes) topic =
     (if matches_pattern pattern topic then Some handler else route routes topic)"

definition router_build :: "('w, 't) router \<Rightarrow> ('w, 't) handler" where
  "router_build r msg w =
     (case route (rt_routes r) (msg_topic msg) of
        Some handler \<Rightarrow> handler msg w
      | None \<Rightarrow>
          (case rt_default r of
             Some handler \<Rightarrow> handler msg w
           | None \<Rightarrow> (w, Inl (app_error_new NotFound (''no handler for topic '' @ quoted (msg_topic msg))))))"

subsection \<open>What is forwarded twice\<close>

text \<open>The messages with an identifier that arrive one after the other, and which of them go on.\<close>

definition dedup_step ::
    "map_order \<Rightarrow> dedup_config \<Rightarrow> (string, instant) hashmap \<times> (string \<times> instant) list \<Rightarrow> string \<times> instant \<Rightarrow>
     (string, instant) hashmap \<times> (string \<times> instant) list" where
  "dedup_step rank config = (\<lambda>(seen, fwd) (mid, now).
     case dedup_admit rank config now mid seen of (seen', go) \<Rightarrow> (seen', if go then fwd @ [(mid, now)] else fwd))"

definition dedup_forwarded ::
    "map_order \<Rightarrow> dedup_config \<Rightarrow> (string \<times> instant) list \<Rightarrow> (string \<times> instant) list" where
  "dedup_forwarded rank config arrivals = snd (foldl (dedup_step rank config) ([], []) arrivals)"

text \<open>The other identifiers forwarded since an instant.\<close>

definition others_since :: "(string \<times> instant) list \<Rightarrow> string \<Rightarrow> instant \<Rightarrow> string set" where
  "others_since fwd k t = fst ` {e \<in> set fwd. t \<le> snd e \<and> fst e \<noteq> k}"

lemma finite_others_since [simp]: "finite (others_since fwd k t)"
  by (simp add: others_since_def)

lemma others_since_mono: "set fwd \<subseteq> set fwd' \<Longrightarrow> others_since fwd k t \<subseteq> others_since fwd' k t"
  by (auto simp: others_since_def)

lemma others_since_full:
  assumes "hm_wf seen" "hm_get seen k = Some t" "\<forall>e\<in>set seen. t \<le> snd e"
  shows "length seen \<le> Suc (card (others_since seen k t))"
proof -
  have "others_since seen k t = hm_keys seen - {k}"
    using assms(3) by (force simp: others_since_def hm_keys_def)
  moreover have "k \<in> hm_keys seen" using assms(2) hm_get_None_iff [of seen k] by auto
  moreover have "card (hm_keys seen) = length seen"
    using assms(1) by (simp add: hm_keys_def hm_wf_def distinct_card flip: set_map)
  ultimately show ?thesis by (simp add: card_Diff_singleton)
qed

lemma evict_loop_props:
  "hm_wf seen \<Longrightarrow>
     hm_wf (evict_loop rank window seen) \<and> set (evict_loop rank window seen) \<subseteq> set seen \<and>
     (\<forall>k t. hm_get seen k = Some t \<and> k \<notin> hm_keys (evict_loop rank window seen) \<longrightarrow>
        window \<le> Suc (card (others_since seen k t)))"
proof (induction rank window seen rule: evict_loop.induct)
  case (1 rank window seen)
  show ?case
  proof (cases "window \<le> length seen \<and> min_by_key snd (iter_seen rank seen) \<noteq> None")
    case False
    then have "evict_loop rank window seen = seen" by (subst evict_loop.simps) (metis option.simps(4))
    with 1(2) show ?thesis by (auto dest: hm_get_None_iff [THEN iffD2])
  next
    case True
    then obtain key ts where oldest: "min_by_key snd (iter_seen rank seen) = Some (key, ts)" by fastforce
    let ?rest = "hm_remove key seen"
    have step: "evict_loop rank window seen = evict_loop rank window ?rest"
      using True oldest by (subst evict_loop.simps) simp
    have IH: "hm_wf (evict_loop rank window ?rest)" "set (evict_loop rank window ?rest) \<subseteq> set ?rest"
      "\<forall>k t. hm_get ?rest k = Some t \<and> k \<notin> hm_keys (evict_loop rank window ?rest) \<longrightarrow>
         window \<le> Suc (card (others_since ?rest k t))"
      using 1(1) [OF _ oldest refl] True 1(2) by auto
    have sub: "set ?rest \<subseteq> set seen" by (auto simp: AList.delete_eq)
    have least: "hm_get seen key = Some ts" "\<forall>e\<in>set seen. ts \<le> snd e"
      using min_by_key_mem [OF oldest] 1(2) by (auto simp: hm_wf_def)
    have "window \<le> Suc (card (others_since seen k t))"
      if "hm_get seen k = Some t" "k \<notin> hm_keys (evict_loop rank window ?rest)" for k t
    proof (cases "k = key")
      case True
      with that least others_since_full [OF 1(2) least] \<open>window \<le> length seen \<and> _\<close> show ?thesis by simp
    next
      case False
      with that IH(3) have "window \<le> Suc (card (others_since ?rest k t))" by simp
      also have "\<dots> \<le> Suc (card (others_since seen k t))"
        by (simp add: card_mono others_since_mono [OF sub])
      finally show ?thesis .
    qed
    with IH sub step show ?thesis by auto
  qed
qed

text \<open>
  The state of the deduplication at an instant: every tracked entry was forwarded; every forwarded identifier is
  tracked, or has expired, or was pushed out by enough others; and so is every identifier that was
  forwarded twice.
\<close>

definition dedup_gone :: "dedup_config \<Rightarrow> (string \<times> instant) list \<Rightarrow> instant \<Rightarrow> string \<Rightarrow> instant \<Rightarrow> bool" where
  "dedup_gone config fwd now k t \<longleftrightarrow> dd_ttl config \<le> now - t \<or> window_size config \<le> card (others_since fwd k t)"

definition dedup_inv ::
    "dedup_config \<Rightarrow> instant \<Rightarrow> (string, instant) hashmap \<times> (string \<times> instant) list \<Rightarrow> bool" where
  "dedup_inv config now = (\<lambda>(seen, fwd).
     hm_wf seen \<and> set seen \<subseteq> set fwd \<and> (\<forall>e\<in>set fwd. snd e \<le> now) \<and>
     (\<forall>(k, t)\<in>set fwd. (\<exists>t'\<ge>t. hm_get seen k = Some t') \<or> dedup_gone config fwd now k t) \<and>
     (\<forall>j<length fwd. \<forall>i<j. fst (fwd ! i) = fst (fwd ! j) \<longrightarrow>
        dedup_gone config (take j fwd) (snd (fwd ! j)) (fst (fwd ! i)) (snd (fwd ! i))))"

lemma dedup_invI:
  assumes "hm_wf seen" "set seen \<subseteq> set fwd" "\<And>e. e \<in> set fwd \<Longrightarrow> snd e \<le> now"
    "\<And>k t. (k, t) \<in> set fwd \<Longrightarrow> (\<exists>t'\<ge>t. hm_get seen k = Some t') \<or> dedup_gone config fwd now k t"
    "\<And>j i. j < length fwd \<Longrightarrow> i < j \<Longrightarrow> fst (fwd ! i) = fst (fwd ! j) \<Longrightarrow>
        dedup_gone config (take j fwd) (snd (fwd ! j)) (fst (fwd ! i)) (snd (fwd ! i))"
  shows "dedup_inv config now (seen, fwd)"
  using assms unfolding dedup_inv_def by blast

lemma dedup_gone_mono:
  "dedup_gone config fwd now k t \<Longrightarrow> now \<le> now' \<Longrightarrow> set fwd \<subseteq> set fwd' \<Longrightarrow> t' \<le> t \<Longrightarrow> dedup_gone config fwd' now' k t'"
proof -
  assume *: "dedup_gone config fwd now k t" "now \<le> now'" "set fwd \<subseteq> set fwd'" "t' \<le> t"
  have "others_since fwd k t \<subseteq> others_since fwd' k t'" using *(3,4) by (force simp: others_since_def)
  then have "card (others_since fwd k t) \<le> card (others_since fwd' k t')" by (simp add: card_mono)
  with * show ?thesis by (auto simp: dedup_gone_def)
qed

lemma hm_get_filter:
  assumes "hm_wf m"
  shows "hm_get (filter P m) k = (case hm_get m k of None \<Rightarrow> None | Some v \<Rightarrow> if P (k, v) then Some v else None)"
  using assms
proof (induction m)
  case (Cons kv m)
  obtain k' v where kv: "kv = (k', v)" by (cases kv)
  with Cons.prems have "hm_get m k' = None" by (auto simp: hm_wf_def map_of_eq_None_iff)
  with Cons kv show ?case by (auto simp: hm_wf_def split: option.splits)
qed simp

lemma hm_get_sub: "hm_wf m \<Longrightarrow> set m' \<subseteq> set m \<Longrightarrow> k \<in> hm_keys m' \<Longrightarrow> hm_get m k = Some v \<Longrightarrow> hm_get m' k = Some v"
proof -
  assume *: "hm_wf m" "set m' \<subseteq> set m" "k \<in> hm_keys m'" "hm_get m k = Some v"
  from *(3) obtain v' where "hm_get m' k = Some v'" using hm_get_None_iff [of m' k] by auto
  moreover from this *(2) have "(k, v') \<in> set m" using map_of_SomeD by fastforce
  ultimately show ?thesis using *(1,4) by (simp add: hm_wf_def)
qed

lemma set_hm_insert: "set (hm_insert k v m) \<subseteq> insert (k, v) (set m)"
  by (induction m) auto

lemma dedup_inv_step:
  assumes inv: "dedup_inv config t0 (seen, fwd)" and later: "t0 \<le> now"
  shows "dedup_inv config now (dedup_step rank config (seen, fwd) (mid, now))"
proof -
  define seen1 where "seen1 = filter (\<lambda>(_, ts). now - ts < dd_ttl config) seen"
  define seen2 where "seen2 = evict_loop rank (window_size config) seen1"
  from inv have wf: "hm_wf seen" "set seen \<subseteq> set fwd" and old: "\<forall>e\<in>set fwd. snd e \<le> now"
    and pairs: "\<forall>j<length fwd. \<forall>i<j. fst (fwd ! i) = fst (fwd ! j) \<longrightarrow>
        dedup_gone config (take j fwd) (snd (fwd ! j)) (fst (fwd ! i)) (snd (fwd ! i))"
    using later by (auto simp: dedup_inv_def)
  have wf1: "hm_wf seen1" "set seen1 \<subseteq> set fwd" using wf by (auto simp: seen1_def hm_wf_def distinct_map_filter)
  have purged: "(\<exists>t'\<ge>t. hm_get seen1 k = Some t') \<or> dedup_gone config fwd now k t" if "(k, t) \<in> set fwd" for k t
  proof -
    from inv that have "(\<exists>t'\<ge>t. hm_get seen k = Some t') \<or> dedup_gone config fwd t0 k t"
      by (auto simp: dedup_inv_def)
    moreover have "hm_get seen1 k = Some t' \<or> dd_ttl config \<le> now - t" if "t \<le> t'" "hm_get seen k = Some t'" for t'
      using hm_get_filter [OF wf(1)] that by (auto simp: seen1_def)
    ultimately show ?thesis
      using dedup_gone_mono [of config fwd t0 k t now fwd t] later unfolding dedup_gone_def by auto
  qed
  show ?thesis
  proof (cases "mid \<in> hm_keys seen1")
    case True
    then have "dedup_step rank config (seen, fwd) (mid, now) = (seen1, fwd)"
      by (simp add: dedup_step_def dedup_admit_def seen1_def [symmetric] Let_def)
    then show ?thesis using wf1 old pairs purged by (simp only:) (rule dedup_invI, auto)
  next
    case new: False
    let ?fwd = "fwd @ [(mid, now)]" and ?seen = "hm_insert mid now seen2"
    have step: "dedup_step rank config (seen, fwd) (mid, now) = (?seen, ?fwd)"
      using new by (simp add: dedup_step_def dedup_admit_def seen1_def [symmetric] seen2_def Let_def)
    note evict = evict_loop_props [OF wf1(1), of rank "window_size config", folded seen2_def]
    have tracked: "(\<exists>t'\<ge>t. hm_get ?seen k = Some t') \<or> dedup_gone config ?fwd now k t" if "(k, t) \<in> set ?fwd" for k t
    proof (cases "k = mid")
      case True
      with that old show ?thesis by auto
    next
      case False
      with that have "(k, t) \<in> set fwd" by simp
      with purged consider (gone) "dedup_gone config fwd now k t"
        | (seen) t' where "t \<le> t'" "hm_get seen1 k = Some t'" by blast
      then show ?thesis
      proof cases
        case gone
        then show ?thesis using dedup_gone_mono [of config fwd now k t now ?fwd t] by auto
      next
        case seen
        show ?thesis
        proof (cases "k \<in> hm_keys seen2")
          case True
          then have "hm_get seen2 k = Some t'" using hm_get_sub evict seen wf1(1) by metis
          with seen False show ?thesis by auto
        next
          case gone: False
          have "others_since seen1 k t' \<union> {mid} \<subseteq> others_since ?fwd k t"
            using wf1(2) seen(1) old False that by (force simp: others_since_def)
          then have "card (others_since seen1 k t' \<union> {mid}) \<le> card (others_since ?fwd k t)" by (simp add: card_mono)
          moreover have "mid \<notin> others_since seen1 k t'" using new by (auto simp: others_since_def hm_keys_def)
          moreover have "window_size config \<le> Suc (card (others_since seen1 k t'))" using evict seen(2) gone by blast
          ultimately have "window_size config \<le> card (others_since ?fwd k t)" by simp
          then show ?thesis unfolding dedup_gone_def by blast
        qed
      qed
    qed
    have "dedup_gone config (take j ?fwd) (snd (?fwd ! j)) (fst (?fwd ! i)) (snd (?fwd ! i))"
      if "j < length ?fwd" "i < j" "fst (?fwd ! i) = fst (?fwd ! j)" for i j
    proof (cases "j < length fwd")
      case True
      with that pairs show ?thesis by (auto simp: nth_append)
    next
      case False
      with that have "j = length fwd" "i < length fwd" "fst (fwd ! i) = mid" by (auto simp: nth_append)
      moreover have "hm_get seen1 mid = None" using new hm_get_None_iff by metis
      ultimately show ?thesis using purged [of mid "snd (fwd ! i)"] nth_mem [of i fwd]
        by (auto simp: nth_append)
    qed
    moreover have "set ?seen \<subseteq> set ?fwd"
      using evict wf1(2) set_hm_insert [of mid now seen2] by auto
    moreover have "hm_wf ?seen" "\<And>e. e \<in> set ?fwd \<Longrightarrow> snd e \<le> now" using evict old by auto
    ultimately show ?thesis unfolding step using tracked by (intro dedup_invI)
  qed
qed

lemma dedup_run_inv:
  assumes "sorted (map snd arrivals)" "dedup_inv config t0 st" "\<forall>a\<in>set arrivals. t0 \<le> snd a"
  shows "\<exists>now. dedup_inv config now (foldl (dedup_step rank config) st arrivals)"
  using assms
proof (induction arrivals arbitrary: st t0)
  case (Cons a arrivals)
  obtain mid now where a: "a = (mid, now)" by (cases a)
  obtain seen fwd where st: "st = (seen, fwd)" by (cases st)
  have "dedup_inv config now (dedup_step rank config st a)"
    using Cons.prems dedup_inv_step [of config t0 seen fwd now rank mid] by (simp add: a st)
  with Cons.IH [of now] Cons.prems show ?case by (simp add: a)
qed auto

section \<open>What is put on the dead-letter topic\<close>

lemma take_chars_prefix: "prefix (take_chars n v) v"
  by (induction n v rule: take_chars.induct) auto

lemma sublist_append_disjoint:
  assumes "sublist p (xs @ ys)" "set p \<inter> set ys = {}"
  shows "sublist p xs"
proof -
  from assms(1) consider "sublist p xs" | "sublist p ys"
    | p1 p2 where "p = p1 @ p2" "suffix p1 xs" "prefix p2 ys" by (auto simp: sublist_append)
  then show ?thesis
  proof cases
    case 2
    with assms(2) have "p = []" by (metis inf.absorb1 set_empty set_mono_sublist)
    then show ?thesis by simp
  next
    case 3
    with assms(2) have "p2 = []" by (metis Int_iff Un_iff equals0D list.set_sel(1) set_append set_mono_prefix subsetD)
    with 3 show ?thesis by simp
  qed simp
qed

lemma not_sensitive_truncated: "\<not> is_sensitive v \<Longrightarrow> \<not> is_sensitive (truncate_summary v)"
proof -
  assume v: "\<not> is_sensitive v"
  have parts: "\<forall>p\<in>set sensitive_parts. set p \<inter> set (map to_ascii_lowercase ellipsis) = {}" by code_simp
  have "sublist p (map to_ascii_lowercase v)"
    if p: "p \<in> set sensitive_parts" "sublist p (map to_ascii_lowercase (take_chars n v @ ellipsis))" for p n
  proof -
    have "sublist p (map to_ascii_lowercase (take_chars n v))"
      using p(2) parts [rule_format, OF p(1)] unfolding map_append by (rule sublist_append_disjoint)
    moreover have "sublist (map to_ascii_lowercase (take_chars n v)) (map to_ascii_lowercase v)"
      using map_mono_prefix [OF take_chars_prefix [of n v]] by (rule prefix_imp_sublist)
    ultimately show ?thesis by (rule sublist_order.order.trans)
  qed
  with v show ?thesis by (auto simp: truncate_summary_def is_sensitive_def list_ex_iff)
qed

lemma redacted_not_sensitive: "\<not> is_sensitive redacted"
  by code_simp

lemma sanitized_not_sensitive: "\<not> is_sensitive (sanitize_summary v)"
  by (simp add: sanitize_summary_def redacted_not_sensitive not_sensitive_truncated)

text \<open>
  The summary of a binary payload is a fixed text with decimal and hexadecimal digits. A marker of secrets in it would have a letter
  that does not occur there, or a pair of letters of which the first occurs once only, before another one.
\<close>

lemma set_show_nat: "set (show_nat n) \<subseteq> set ''0123456789''"
proof (induction n rule: show_nat.induct)
  case (1 n)
  define D where "D = set ''0123456789''"
  have "list_all (\<lambda>d. digit_char d \<in> set ''0123456789'') [0..<10]" by code_simp
  then have "digit_char d \<in> D" if "d < 10" for d
    unfolding D_def using that by (simp add: list_all_iff del: upt_rec_numeral list.set)
  with 1 show ?case unfolding D_def [symmetric] by (subst show_nat.simps) auto
qed

lemma set_hex_byte: "set (hex_byte c) \<subseteq> set ''0123456789abcdef''"
proof -
  have "list_all (\<lambda>d. hex_digit d \<in> set ''0123456789abcdef'') [0..<16]" by code_simp
  then have "hex_digit d \<in> set ''0123456789abcdef''" if "d < 16" for d
    using that by (simp add: list_all_iff del: upt_rec_numeral list.set)
  moreover have "(of_char c :: nat) div 16 < 16" by (simp add: less_mult_imp_div_less)
  ultimately show ?thesis by (simp add: hex_byte_def)
qed

lemma unique_successor:
  assumes "sublist [x, y] (A @ x # z # B)" "x \<notin> set A" "x \<notin> set (z # B)"
  shows "y = z"
proof -
  from assms(1) obtain u v where "A @ x # z # B = u @ x # y # v" by (auto simp: sublist_def)
  with append_Cons_eq_iff [of x A "z # B" u "y # v"] assms(2,3) show ?thesis by simp
qed

lemma sensitive_marks:
  "p \<in> set sensitive_parts \<Longrightarrow> sublist ''se'' p \<or> sublist ''ss'' p \<or> sublist ''nt'' p \<or> (\<exists>c\<in>set ''uzk''. c \<in> set p)"
proof -
  have "list_all (\<lambda>p. sublist ''se'' p \<or> sublist ''ss'' p \<or> sublist ''nt'' p \<or> list_ex (\<lambda>c. c \<in> set p) ''uzk'') sensitive_parts"
    by code_simp
  then show "p \<in> set sensitive_parts \<Longrightarrow> ?thesis" by (auto simp: list_all_iff list_ex_iff)
qed

definition plain_chars :: string where
  "plain_chars = '' :,hexprviw0123456789abcdf'' @ ellipsis"

lemma fixed_text_not_sensitive:
  assumes "set digits \<subseteq> set plain_chars" "set rest \<subseteq> set plain_chars"
  shows "\<not> is_sensitive (''binary payload: '' @ digits @ '' bytes,'' @ rest)"
proof
  have plain: "\<forall>c\<in>set plain_chars. to_ascii_lowercase c = c \<and> c \<notin> set ''uzksn''" by code_simp
  then have same: "map to_ascii_lowercase digits = digits" "map to_ascii_lowercase rest = rest"
    using assms by (auto intro!: map_idI)
  have no: "c \<notin> set digits" "c \<notin> set rest" if "c \<in> set ''uzksn''" for c using plain assms that by blast+
  define word where "word = ''binary payload: '' @ digits @ '' bytes,'' @ rest"
  have s: "word = (''binary payload: '' @ digits @ '' byte'') @ CHR ''s'' # CHR '','' # rest"
    and n: "word = ''bi'' @ CHR ''n'' # CHR ''a'' # (''ry payload: '' @ digits @ '' bytes,'' @ rest)"
    by (simp_all add: word_def)
  assume "is_sensitive (''binary payload: '' @ digits @ '' bytes,'' @ rest)"
  moreover have "map to_ascii_lowercase (''binary payload: '' @ digits @ '' bytes,'' @ rest) = word"
    by (simp add: word_def same to_ascii_lowercase_def)
  ultimately obtain p where p: "p \<in> set sensitive_parts" "sublist p word" by (auto simp: is_sensitive_def list_ex_iff)
  from sensitive_marks [OF p(1)] consider "sublist ''se'' word" | "sublist ''ss'' word" | "sublist ''nt'' word"
    | c where "c \<in> set ''uzk''" "c \<in> set word"
    using p(2) set_mono_sublist [OF p(2)] sublist_order.order.trans by blast
  then show False
  proof cases
    case 1
    from unique_successor [OF this [unfolded s]] no [of "CHR ''s''"] show ?thesis by auto
  next
    case 2
    from unique_successor [OF this [unfolded s]] no [of "CHR ''s''"] show ?thesis by auto
  next
    case 3
    from unique_successor [OF this [unfolded n]] no [of "CHR ''n''"] show ?thesis by auto
  next
    case 4
    with no [of c] show ?thesis by (auto simp: word_def)
  qed
qed

lemma binary_summary_not_sensitive: "\<not> is_sensitive (binary_payload_summary v)"
proof -
  have plain: "set ''0123456789abcdef'' \<subseteq> set plain_chars" "set '' hex preview: '' \<subseteq> set plain_chars" "set '' hex: '' \<subseteq> set plain_chars"
    "set ellipsis \<subseteq> set plain_chars" "set ''0123456789'' \<subseteq> set plain_chars"
    by code_simp+
  let ?preview = "concat (map hex_byte (take max_binary_preview_bytes v))"
  have "set ?preview \<subseteq> set plain_chars" using set_hex_byte plain(1) by fastforce
  then have "set ('' hex preview: '' @ ?preview @ ellipsis) \<subseteq> set plain_chars" "set ('' hex: '' @ ?preview) \<subseteq> set plain_chars"
    using plain(2-4) by (simp_all only: set_append Un_subset_iff)
  moreover have "set (show_nat (length v)) \<subseteq> set plain_chars" using set_show_nat plain(5) by (rule subset_trans)
  moreover have "'' bytes, hex preview: '' = '' bytes,'' @ '' hex preview: ''" "'' bytes, hex: '' = '' bytes,'' @ '' hex: ''" by simp_all
  ultimately show ?thesis
    unfolding binary_payload_summary_def Let_def by (simp only: append_assoc fixed_text_not_sensitive split: if_split) simp
qed

text \<open>What becomes of a header: its name stays, its value is replaced if name or value contains a marker of secrets.\<close>

definition header_redacted :: "string \<times> string \<Rightarrow> string \<times> string \<Rightarrow> bool" where
  "header_redacted h h' \<longleftrightarrow>
     fst h' = fst h \<and> \<not> is_sensitive (snd h') \<and>
     (if is_sensitive (fst h) \<or> is_sensitive (snd h) then snd h' = redacted else snd h' = snd h)"

text \<open>
  C25. A message whose handler fails is put on the dead-letter topic, once, and the handler's error gives way to the result of
  that publication; a message whose handler succeeds is not. On the dead-letter topic the error text contains none of the words that mark a
  secret, every header keeps its name and loses its value if such a word is in the name or in the value, and only then,
  and the summary is the one of the payload's type; the summaries of texts and of bytes contain no such word
  either, whatever the message and the error.
\<close>

theorem dead_letters_redacted:
  "(case next msg w of
      (w1, Inr _) \<Rightarrow> dead_letter_handle summary send now_of config next msg w = (w1, Inr ())
    | (w1, Inl e) \<Rightarrow>
        (\<exists>dlq. dead_letter_handle summary send now_of config next msg w = send dlq w1 \<and>
           msg_topic dlq = msg_topic msg @ dlq_suffix config \<and>
           dle_original_topic (msg_payload dlq) = msg_topic msg \<and> dle_payload (msg_payload dlq) = msg_payload msg \<and>
           \<not> is_sensitive (dle_error (msg_payload dlq)) \<and> dle_payload_summary (msg_payload dlq) = summary (msg_payload msg) \<and>
           list_all2 header_redacted (msg_headers msg) (dle_headers (msg_payload dlq)))) \<and>
   \<not> is_sensitive (sanitize_summary text_payload) \<and> \<not> is_sensitive (binary_payload_summary binary_payload)"
proof -
  have headers: "list_all2 header_redacted hs (redact_headers hs)" for hs
    by (auto simp: redact_headers_def list_all2_map2 header_redacted_def redacted_not_sensitive intro: list_all2_refl)
  obtain w1 r where call: "next msg w = (w1, r)" by (cases "next msg w")
  show ?thesis
  proof (cases r)
    case (Inl e)
    let ?dlq = "message_new (now_of w1) (msg_topic msg @ dlq_suffix config)
        (dead_letter_envelope_of summary (now_of w1) msg e)
        \<lparr>msg_key := (case msg_key msg of Some k \<Rightarrow> Some k | None \<Rightarrow> Some ''dlq'')\<rparr>"
    have "dead_letter_handle summary send now_of config next msg w = send ?dlq w1"
      by (simp add: dead_letter_handle_def call Inl Let_def)
    with Inl call show ?thesis
      by (auto simp: message_new_def dead_letter_envelope_of_def headers sanitized_not_sensitive binary_summary_not_sensitive
          intro!: exI [of _ ?dlq])
  qed (simp add: call dead_letter_handle_def sanitized_not_sensitive binary_summary_not_sensitive)
qed

section \<open>Routing by pattern\<close>

fun pattern_spec :: "string \<Rightarrow> string \<Rightarrow> bool" where
  "pattern_spec [] ts \<longleftrightarrow> ts = []"
| "pattern_spec (p # ps) ts \<longleftrightarrow>
     (if p = star then \<exists>k\<le>length ts. pattern_spec ps (drop k ts)
      else ts \<noteq> [] \<and> p = hd ts \<and> pattern_spec ps (tl ts))"

lemma ex_le_Suc: "(\<exists>k\<le>Suc n. P k) \<longleftrightarrow> P 0 \<or> (\<exists>k\<le>n. P (Suc k))"
  by (metis (no_types) Suc_le_mono le0 not0_implies_Suc)

lemma wildcard_match_spec: "wildcard_match p t \<longleftrightarrow> pattern_spec p t"
  by (induction p t rule: wildcard_match.induct) (auto simp: ex_le_Suc)

lemma matches_pattern_spec: "matches_pattern pattern topic \<longleftrightarrow> pattern_spec pattern topic"
proof -
  have "star \<notin> set p \<Longrightarrow> pattern_spec p t \<longleftrightarrow> p = t" for p t
  proof (induction p arbitrary: t)
    case (Cons c p)
    then show ?case by (cases t) auto
  qed auto
  then show ?thesis by (simp add: matches_pattern_def wildcard_match_spec)
qed

lemma route_first_match:
  "route routes topic = map_option snd (find (\<lambda>(pattern, _). pattern_spec pattern topic) routes)"
  by (induction routes topic rule: route.induct) (auto simp: matches_pattern_spec)

section \<open>Deduplication below a retry\<close>

text \<open>
  A world with a clock, the identifiers seen, and the calls of the innermost handler, whose outcomes
  \<open>out\<close> lists. Calls take no time and run to their end under a timeout.
\<close>

record 't mw_world =
  mw_clock :: instant
  mw_seen :: "(string, instant) hashmap"
  mw_calls :: "'t message list"

definition seen_cell :: "('t mw_world, (string, instant) hashmap) cell" where
  "seen_cell = \<lparr>cell_get = mw_seen, cell_put = (\<lambda>s w. w\<lparr>mw_seen := s\<rparr>)\<rparr>"

definition mw_time :: "'t mw_world time_env" where
  "mw_time = \<lparr>clock = mw_clock, sleep = (\<lambda>d w. w\<lparr>mw_clock := mw_clock w + d\<rparr>)\<rparr>"

definition mw_timeout :: "('t mw_world, unit app_result) timeout_fn" where
  "mw_timeout d f w = (case f w of (w', r) \<Rightarrow> (w', Some r))"

definition scripted :: "(nat \<Rightarrow> unit app_result) \<Rightarrow> ('t mw_world, 't) handler" where
  "scripted out msg w = (w\<lparr>mw_calls := mw_calls w @ [msg]\<rparr>, out (length (mw_calls w)))"

lemma dedup_admit_new:
  assumes "mid \<notin> hm_keys seen"
  obtains seen' where "dedup_admit rank config now mid seen = (seen', True)" "hm_get seen' mid = Some now"
proof -
  have "mid \<notin> hm_keys (filter (\<lambda>(_, ts). now - ts < dd_ttl config) seen)" using assms by (auto simp: hm_keys_def)
  then show thesis
    by (intro that [of "hm_insert mid now (evict_loop rank (window_size config) (filter (\<lambda>(_, ts). now - ts < dd_ttl config) seen))"])
      (simp_all add: dedup_admit_def Let_def update_conv')
qed

lemma dedup_admit_again:
  assumes "hm_get seen mid = Some t" "now - t < dd_ttl config"
  obtains seen' where "dedup_admit rank config now mid seen = (seen', False)"
proof -
  have "(mid, t) \<in> set (filter (\<lambda>(_, ts). now - ts < dd_ttl config) seen)" using assms map_of_SomeD by fastforce
  then have "mid \<in> hm_keys (filter (\<lambda>(_, ts). now - ts < dd_ttl config) seen)" by (force simp: hm_keys_def)
  then show thesis by (intro that) (simp add: dedup_admit_def Let_def)
qed

text \<open>
  C24. The documented stack puts the retry outside of the deduplication. When the handler fails, the retry's second
  attempt is a duplicate for the deduplication: it is dropped, the stack reports success, and the
  handler is not called again, so that the message is lost. In the other order the retry calls the
  handler itself.
\<close>

theorem retry_over_dedup_loses_message:
  fixes w :: "'t mw_world"
  assumes "hm_get (msg_headers msg) ''message-id'' = Some mid" "mid \<notin> hm_keys (mw_seen w)"
    and "retry_validate (rc_policy rc) = Inr ()" "2 \<le> max_attempts (rc_policy rc)" "should_retry (rc_policy rc) e"
    and "delay_of 1 < max_elapsed_time (rc_policy rc)" "delay_of 1 < dd_ttl dc"
    and "out (length (mw_calls w)) = Inl e"
  shows "\<exists>w'. stack_build (stack_with (dedup_handle rank dc mw_clock seen_cell)
             (stack_with (retry_handle mw_time mw_timeout delay_of rc) (stack_new (scripted out)))) msg w = (w', Inr ()) \<and>
           mw_calls w' = mw_calls w @ [msg] \<and>
         (\<exists>w1. mw_calls w1 = mw_calls w \<and>
           stack_build (stack_with (retry_handle mw_time mw_timeout delay_of rc)
             (stack_with (dedup_handle rank dc mw_clock seen_cell) (stack_new (scripted out)))) msg w =
           retry_handle mw_time mw_timeout delay_of rc (scripted out) msg w1)"
proof -
  let ?dedup = "dedup_handle rank dc mw_clock seen_cell" and ?retry = "retry_handle mw_time mw_timeout delay_of rc"
  let ?p = "rc_policy rc" and ?now = "mw_clock w"
  obtain seen where seen: "dedup_admit rank dc ?now mid (mw_seen w) = (seen, True)" "hm_get seen mid = Some ?now"
    using assms(2) by (rule dedup_admit_new)
  define w1 where "w1 = w\<lparr>mw_seen := seen, mw_calls := mw_calls w @ [msg]\<rparr>"
  define w2 where "w2 = w1\<lparr>mw_clock := ?now + delay_of 1\<rparr>"
  obtain seen' where again: "dedup_admit rank dc (?now + delay_of 1) mid seen = (seen', False)"
    using dedup_admit_again [OF seen(2), of "?now + delay_of 1" dc rank] assms(7) by auto
  have first: "?dedup (scripted out) msg w = (w1, Inl e)"
    by (simp add: dedup_handle_def assms(1,8) seen seen_cell_def scripted_def w1_def)
  have second: "?dedup (scripted out) msg w2 = (w2\<lparr>mw_seen := seen'\<rparr>, Inr ())"
    by (simp add: dedup_handle_def assms(1) again [unfolded One_nat_def] seen_cell_def w2_def w1_def)
  have r1: "\<exists>told. retry_round mw_time mw_timeout delay_of ?p (?dedup (scripted out) msg) ?now 0 w = (w2, told, None)"
    using assms(4-6) by (simp add: retry_round_def Let_def mw_time_def mw_timeout_def first w2_def) (simp add: w1_def)
  have r2: "retry_round mw_time mw_timeout delay_of ?p (?dedup (scripted out) msg) ?now (Suc 0) w2 =
      (w2\<lparr>mw_seen := seen'\<rparr>, [], Some (Inr ()))"
    using assms(6) second by (simp add: retry_round_def Let_def mw_time_def mw_timeout_def) (simp add: w2_def w1_def)
  have "retry_loop mw_time mw_timeout delay_of ?p (?dedup (scripted out) msg) ?now (Suc 0) w2 told =
      (w2\<lparr>mw_seen := seen'\<rparr>, told, Inr ())" for told
    by (subst retry_loop.simps) (simp add: r2)
  with r1 have "\<exists>told. retry_loop mw_time mw_timeout delay_of ?p (?dedup (scripted out) msg) ?now 0 w [] =
      (w2\<lparr>mw_seen := seen'\<rparr>, told, Inr ())"
    by (subst retry_loop.simps) auto
  then have "?retry (?dedup (scripted out)) msg w = (w2\<lparr>mw_seen := seen'\<rparr>, Inr ())"
    by (auto simp: retry_handle_def retry_execute_def assms(3) mw_time_def)
  moreover have "?dedup (?retry (scripted out)) msg w = ?retry (scripted out) msg (w\<lparr>mw_seen := seen\<rparr>)"
    by (simp add: dedup_handle_def assms(1) seen seen_cell_def)
  ultimately show ?thesis
    by (auto simp: stack_build_def stack_with_def stack_new_def w2_def w1_def intro: exI [of _ "w\<lparr>mw_seen := seen\<rparr>"])
qed

text \<open>
  C23. A message identifier is forwarded a second time only after its time to live has passed since the first time,
  or when at least as many other identifiers as the window holds have been forwarded since. This
  holds for every order in which the map is iterated when it looks for the oldest entry.
\<close>

theorem dedup_forwards_once:
  assumes "sorted (map snd arrivals)" "fwd = dedup_forwarded rank config arrivals"
    "i < j" "j < length fwd" "fst (fwd ! i) = fst (fwd ! j)"
  shows "dd_ttl config \<le> snd (fwd ! j) - snd (fwd ! i) \<or>
    window_size config \<le> card (others_since (take j fwd) (fst (fwd ! i)) (snd (fwd ! i)))"
proof -
  have "dedup_inv config 0 ([], [])" by (simp add: dedup_inv_def)
  then obtain now where "dedup_inv config now (foldl (dedup_step rank config) ([], []) arrivals)"
    using dedup_run_inv [OF assms(1)] by blast
  then have "dedup_gone config (take j fwd) (snd (fwd ! j)) (fst (fwd ! i)) (snd (fwd ! i))"
    using assms(2-) by (cases "foldl (dedup_step rank config) ([], []) arrivals")
      (auto simp: dedup_inv_def dedup_forwarded_def)
  then show ?thesis by (simp add: dedup_gone_def)
qed

theorem dedup_forwards_once_witness:
  "dedup_forwarded (\<lambda>_ _. 0) \<lparr>window_size = 1, dd_ttl = 100\<rparr> [(''a'', 0), (''b'', 1), (''a'', 2)] =
     [(''a'', 0), (''b'', 1), (''a'', 2)] \<and>
   1 \<le> card (others_since [(''a'', 0), (''b'', 1)] ''a'' 0)"
proof -
  let ?rank = "\<lambda>_ _. 0 :: nat" and ?c = "\<lparr>window_size = 1, dd_ttl = 100\<rparr>"
  let ?a = "[(''a'', 0), (''b'', 1), (''a'', 2 :: nat)]"
  have run: "dedup_forwarded ?rank ?c ?a = ?a" by code_simp
  have "dd_ttl ?c \<le> snd (?a ! 2) - snd (?a ! 0) \<or>
      window_size ?c \<le> card (others_since (take 2 ?a) (fst (?a ! 0)) (snd (?a ! 0)))"
    by (rule dedup_forwards_once [OF _ run [symmetric]]) simp_all
  with run show ?thesis by simp
qed

definition eager_retry :: retry_config where
  "eager_retry = \<lparr>rc_policy = with_retry_if (\<lambda>_. True) (with_jitter (Fin 0) (preset_policy Fast))\<rparr>"

theorem retry_over_dedup_loses_message_witness:
  "\<exists>w'. stack_build (stack_with (dedup_handle (\<lambda>_ _. 0) dedup_config_default mw_clock seen_cell)
       (stack_with (retry_handle mw_time mw_timeout (\<lambda>_. 1) eager_retry)
         (stack_new (scripted (\<lambda>_. Inl (timeout_error ''db''))))))
       (with_message_id ''m1'' (message_new 0 ''orders'' ''payload'')) \<lparr>mw_clock = 0, mw_seen = [], mw_calls = []\<rparr> = (w', Inr ()) \<and>
     length (mw_calls w') = 1"
proof -
  have valid: "retry_validate (rc_policy eager_retry) = Inr ()"
    by (simp add: eager_retry_def with_retry_if_def with_jitter_def with_max_elapsed_time_def
        with_constant_backoff_def with_max_attempts_def retry_policy_default_def retry_validate_def f64_le_def)
  show ?thesis
    using retry_over_dedup_loses_message [of "with_message_id ''m1'' (message_new 0 ''orders'' ''payload'')" "''m1''"
        "\<lparr>mw_clock = 0, mw_seen = [], mw_calls = []\<rparr>" eager_retry "timeout_error ''db''" "\<lambda>_. 1"
        dedup_config_default "\<lambda>_. Inl (timeout_error ''db'')" "\<lambda>_ _. 0", OF _ _ valid]
    by (auto simp: with_message_id_def with_header_def message_new_def eager_retry_def with_retry_if_def with_jitter_def
        with_max_elapsed_time_def with_constant_backoff_def with_max_attempts_def
        retry_policy_default_def should_retry_def dedup_config_default_def)
qed

end
