(* ===== verification/Broker.thy ===== *)
theory Broker
  imports Messaging "HOL-Library.Multiset" "HOL-Library.List_Lexorder" "HOL-Library.Char_ord"
begin

text \<open>
  Producers of \<^verbatim>\<open>core/rskit-messaging/src\<close>: the in-memory broker's published state (\<^verbatim>\<open>memory/state.rs\<close>, \<^verbatim>\<open>broker.rs\<close>, \<^verbatim>\<open>producer.rs\<close>), the
  batching producer (\<^verbatim>\<open>batch.rs\<close>) and the managed producer (\<^verbatim>\<open>managed_producer.rs\<close>). The broadcast channel and the wrapped producer are
  third-party or injected code: \<open>tx_send\<close>, \<open>send\<close>, \<open>send_batch\<close>, \<open>flush\<close> and \<open>close\<close> are parameters.
\<close>

section \<open>The in-memory broker\<close>

record ('t, 'c) publish_state =
  ps_tx :: 'c
  ps_history :: "'t message list"
  ps_history_limit :: "nat option"
  ps_topics :: "string list"

text \<open>\<open>channel\<close> creates a broadcast channel of a capacity.\<close>

definition publish_state_new :: "(nat \<Rightarrow> 'c) \<Rightarrow> nat \<Rightarrow> nat \<Rightarrow> ('t, 'c) publish_state" where
  "publish_state_new channel capacity history_limit =
     \<lparr>ps_tx = channel (max capacity 1), ps_history = [], ps_history_limit = Some (max history_limit 1), ps_topics = []\<rparr>"

definition broker_new :: "(nat \<Rightarrow> 'c) \<Rightarrow> nat \<Rightarrow> ('t, 'c) publish_state" where
  "broker_new channel capacity = (let limit = max capacity 1 in publish_state_new channel limit limit)"

definition with_history_limit :: "(nat \<Rightarrow> 'c) \<Rightarrow> nat \<Rightarrow> nat \<Rightarrow> ('t, 'c) publish_state" where
  "with_history_limit channel capacity limit = publish_state_new channel capacity limit"

definition publish :: "('t message \<Rightarrow> 'c \<Rightarrow> 'c) \<Rightarrow> 't message \<Rightarrow> ('t, 'c) publish_state \<Rightarrow> ('t, 'c) publish_state \<times> unit app_result" where
  "publish tx_send msg s =
     (let hist = (if ps_history_limit s = Some (length (ps_history s)) then tl (ps_history s) else ps_history s)
      in (s\<lparr>ps_history := hist @ [msg], ps_topics := List.insert (msg_topic msg) (ps_topics s),
            ps_tx := tx_send msg (ps_tx s)\<rparr>, Inr ()))"

fun publish_batch ::
    "('t message \<Rightarrow> 'c \<Rightarrow> 'c) \<Rightarrow> 't message list \<Rightarrow> ('t, 'c) publish_state \<Rightarrow> ('t, 'c) publish_state \<times> unit app_result" where
  "publish_batch tx_send [] s = (s, Inr ())"
| "publish_batch tx_send (msg # msgs) s =
     (case publish tx_send msg s of
        (s', Inl e) \<Rightarrow> (s', Inl e)
      | (s', Inr _) \<Rightarrow> publish_batch tx_send msgs s')"

definition broker_messages :: "string \<Rightarrow> ('t, 'c) publish_state \<Rightarrow> 't message list" where
  "broker_messages topic s = filter (\<lambda>m. msg_topic m = topic) (ps_history s)"

definition all_messages :: "('t, 'c) publish_state \<Rightarrow> 't message list" where
  "all_messages s = ps_history s"

definition message_count :: "string \<Rightarrow> ('t, 'c) publish_state \<Rightarrow> nat" where
  "message_count topic s = length (filter (\<lambda>m. msg_topic m = topic) (ps_history s))"

definition broker_reset :: "('t, 'c) publish_state \<Rightarrow> ('t, 'c) publish_state" where
  "broker_reset s = s\<lparr>ps_history := []\<rparr>"

definition create_topic :: "string \<Rightarrow> ('t, 'c) publish_state \<Rightarrow> ('t, 'c) publish_state" where
  "create_topic topic s = s\<lparr>ps_topics := List.insert topic (ps_topics s)\<rparr>"

definition topic_names :: "('t, 'c) publish_state \<Rightarrow> string list" where
  "topic_names s = sort (remdups (ps_topics s @ map msg_topic (ps_history s)))"

section \<open>Batching\<close>

record batch_config =
  bc_max_size :: nat
  bc_max_wait :: duration
  bc_max_bytes :: "nat option"

definition batch_config_default :: batch_config where
  "batch_config_default = \<lparr>bc_max_size = 100, bc_max_wait = 5 * 1000000000, bc_max_bytes = None\<rparr>"

definition batch_validate :: "batch_config \<Rightarrow> unit app_result" where
  "batch_validate c =
     (if bc_max_size c = 0 then Inl (app_error_new InvalidInput ''batch max_size must be greater than zero'')
      else if bc_max_wait c = 0 then Inl (app_error_new InvalidInput ''batch max_wait must be greater than zero'')
      else Inr ())"

record 't batch_producer =
  bp_config :: batch_config
  bp_buffer :: "'t message list"
  bp_flush_task :: bool

definition batch_producer_new :: "batch_config \<Rightarrow> 't batch_producer app_result" where
  "batch_producer_new config =
     try_result (batch_validate config) (\<lambda>_. Inr \<lparr>bp_config = config, bp_buffer = [], bp_flush_task = True\<rparr>)"

text \<open>The two sections under the lock of the buffer: pushing a message, which tells whether to flush, and taking the buffer.\<close>

definition batch_push :: "'t message \<Rightarrow> 't batch_producer \<Rightarrow> 't batch_producer \<times> bool" where
  "batch_push msg bp =
     (let buf = bp_buffer bp @ [msg] in (bp\<lparr>bp_buffer := buf\<rparr>, length buf \<ge> bc_max_size (bp_config bp)))"

definition batch_take :: "'t batch_producer \<Rightarrow> 't batch_producer \<times> 't message list" where
  "batch_take bp = (bp\<lparr>bp_buffer := []\<rparr>, bp_buffer bp)"

text \<open>The calls, for a caller that nobody interrupts between these sections.\<close>

definition batch_flush ::
    "('t message list \<Rightarrow> 'w \<Rightarrow> 'w \<times> unit app_result) \<Rightarrow> 't batch_producer \<times> 'w \<Rightarrow> ('t batch_producer \<times> 'w) \<times> unit app_result" where
  "batch_flush send_batch st =
     (case st of (bp, w) \<Rightarrow>
       case batch_take bp of (bp', msgs) \<Rightarrow>
         if msgs \<noteq> [] then (case send_batch msgs w of (w', r) \<Rightarrow> ((bp', w'), r)) else ((bp', w), Inr ()))"

definition batch_send ::
    "('t message list \<Rightarrow> 'w \<Rightarrow> 'w \<times> unit app_result) \<Rightarrow> 't message \<Rightarrow> 't batch_producer \<times> 'w \<Rightarrow>
     ('t batch_producer \<times> 'w) \<times> unit app_result" where
  "batch_send send_batch msg st =
     (case st of (bp, w) \<Rightarrow>
       case batch_push msg bp of (bp', should_flush) \<Rightarrow>
         if should_flush then batch_flush send_batch (bp', w) else ((bp', w), Inr ()))"

text \<open>One tick of the background task, whose errors are only logged, and the shutdown.\<close>

definition batch_tick ::
    "('t message list \<Rightarrow> 'w \<Rightarrow> 'w \<times> unit app_result) \<Rightarrow> 't batch_producer \<times> 'w \<Rightarrow> 't batch_producer \<times> 'w" where
  "batch_tick send_batch st = (if bp_flush_task (fst st) then fst (batch_flush send_batch st) else st)"

definition batch_close ::
    "('t message list \<Rightarrow> 'w \<Rightarrow> 'w \<times> unit app_result) \<Rightarrow> 't batch_producer \<times> 'w \<Rightarrow> ('t batch_producer \<times> 'w) \<times> unit app_result" where
  "batch_close send_batch st =
     (case batch_flush send_batch st of
        (st', Inl e) \<Rightarrow> (st', Inl e)
      | ((bp, w), Inr _) \<Rightarrow> ((bp\<lparr>bp_flush_task := False\<rparr>, w), Inr ()))"

section \<open>The managed producer\<close>

record managed_producer =
  mp_name :: string
  mp_running :: bool

definition managed_producer_build :: "string \<Rightarrow> managed_producer" where
  "managed_producer_build name = \<lparr>mp_name = name, mp_running = False\<rparr>"

definition managed_start :: "managed_producer \<Rightarrow> managed_producer \<times> unit app_result" where
  "managed_start p =
     (p\<lparr>mp_running := True\<rparr>,
      if mp_running p then Inl (app_error_new InvalidInput (''producer '' @ quoted (mp_name p) @ '' is already running''))
      else Inr ())"

definition not_running_error :: "managed_producer \<Rightarrow> app_error" where
  "not_running_error p = app_error_new InvalidInput (''producer '' @ quoted (mp_name p) @ '' is not running'')"

definition managed_stop ::
    "('w \<Rightarrow> 'w \<times> unit app_result) \<Rightarrow> managed_producer \<times> 'w \<Rightarrow> (managed_producer \<times> 'w) \<times> unit app_result" where
  "managed_stop close st =
     (case st of (p, w) \<Rightarrow>
       if \<not> mp_running p then ((p, w), Inl (not_running_error p))
       else ((p\<lparr>mp_running := False\<rparr>, fst (close w)), Inr ()))"

definition managed_send ::
    "('t message \<Rightarrow> 'w \<Rightarrow> 'w \<times> unit app_result) \<Rightarrow> (string \<Rightarrow> duration \<Rightarrow> bool \<Rightarrow> 'w \<Rightarrow> 'w) \<Rightarrow> ('w \<Rightarrow> instant) \<Rightarrow>
     't message \<Rightarrow> managed_producer \<times> 'w \<Rightarrow> 'w \<times> unit app_result" where
  "managed_send send record_publish now_of msg st =
     (case st of (p, w) \<Rightarrow>
       if \<not> mp_running p then (w, Inl (not_running_error p))
       else case send msg w of (w', r) \<Rightarrow> (record_publish (msg_topic msg) (now_of w' - now_of w) (is_ok r) w', r))"

definition managed_send_batch ::
    "('t message list \<Rightarrow> 'w \<Rightarrow> 'w \<times> unit app_result) \<Rightarrow> (string \<Rightarrow> duration \<Rightarrow> bool \<Rightarrow> 'w \<Rightarrow> 'w) \<Rightarrow> ('w \<Rightarrow> instant) \<Rightarrow>
     't message list \<Rightarrow> managed_producer \<times> 'w \<Rightarrow> 'w \<times> unit app_result" where
  "managed_send_batch send_batch record_publish now_of msgs st =
     (case st of (p, w) \<Rightarrow>
       if \<not> mp_running p then (w, Inl (not_running_error p))
       else
         let topic = (case msgs of m # _ \<Rightarrow> msg_topic m | [] \<Rightarrow> ''unknown'')
         in case send_batch msgs w of (w', r) \<Rightarrow> (record_publish topic (now_of w' - now_of w) (is_ok r) w', r))"

definition managed_flush ::
    "(duration \<Rightarrow> 'w \<Rightarrow> 'w \<times> unit app_result) \<Rightarrow> duration \<Rightarrow> managed_producer \<times> 'w \<Rightarrow> 'w \<times> unit app_result" where
  "managed_flush flush timeout st =
     (case st of (p, w) \<Rightarrow> if \<not> mp_running p then (w, Inl (not_running_error p)) else flush timeout w)"

section \<open>The broker remembers the latest messages\<close>

lemma publish_history:
  "ps_history_limit s = Some n \<Longrightarrow> n > 0 \<Longrightarrow> ps_history s = drop (length ms - n) ms \<Longrightarrow>
     ps_history (fst (publish tx_send m s)) = drop (length (ms @ [m]) - n) (ms @ [m])"
  by (auto simp: publish_def Let_def drop_Suc tl_drop Suc_diff_le)

text \<open>
  The history after publishing is the published messages up to the limit, the oldest forgotten first, and every topic ever used
  is listed, once and in order.
\<close>

lemma publish_batch_history:
  assumes "ps_history_limit s = Some n" "n > 0" "ps_history s = drop (length ms - n) ms"
  shows "snd (publish_batch tx_send ms' s) = Inr () \<and>
    ps_history (fst (publish_batch tx_send ms' s)) = drop (length (ms @ ms') - n) (ms @ ms') \<and>
    set (ps_topics (fst (publish_batch tx_send ms' s))) = set (ps_topics s) \<union> msg_topic ` set ms'"
  using assms
proof (induction ms' arbitrary: s ms)
  case (Cons m ms')
  have step: "publish_batch tx_send (m # ms') s = publish_batch tx_send ms' (fst (publish tx_send m s))"
    by (simp add: publish_def Let_def)
  have "ps_history_limit (fst (publish tx_send m s)) = Some n"
    "set (ps_topics (fst (publish tx_send m s))) = insert (msg_topic m) (set (ps_topics s))"
    using Cons.prems by (simp_all add: publish_def Let_def)
  with Cons.IH [of "fst (publish tx_send m s)" "ms @ [m]"] publish_history [OF Cons.prems] Cons.prems(2)
  show ?case unfolding step by (simp del: drop_append)
qed simp

section \<open>Every message is in one batch\<close>

text \<open>
  A batching producer with its callers, which interleave between their sections: a send that found the buffer full flushes later, and
  what a flush took is given to the wrapped producer later still. \<open>by_due\<close> counts the sends that are yet to flush, \<open>by_taken\<close> are
  the batches that were taken and not yet given on, \<open>by_sent\<close> those given on. For the record, \<open>by_pushed\<close> lists the messages and
  \<open>by_takes\<close> the batches taken, each with the number of sends that were yet to flush.
\<close>

record 't batch_system =
  by_producer :: "'t batch_producer"
  by_due :: nat
  by_taken :: "'t message list list"
  by_sent :: "'t message list list"
  by_pushed :: "'t message list"
  by_takes :: "(nat \<times> 't message list) list"

datatype 't batch_label = Push "'t message" | SenderTake | FlushTake | TimerTake | StopTimer | Hand nat

definition take_batch :: "'t batch_system \<Rightarrow> 't batch_system" where
  "take_batch y =
     (case batch_take (by_producer y) of
        (bp, msgs) \<Rightarrow>
          if msgs = [] then y\<lparr>by_producer := bp\<rparr>
          else y\<lparr>by_producer := bp, by_taken := by_taken y @ [msgs], by_takes := by_takes y @ [(by_due y, msgs)]\<rparr>)"

text \<open>\<open>FlushTake\<close> is a call of \<^verbatim>\<open>flush\<close> or \<^verbatim>\<open>close\<close>, \<open>TimerTake\<close> a tick of the background task, which \<^verbatim>\<open>close\<close> stops.\<close>

fun batch_fire :: "'t batch_label \<Rightarrow> 't batch_system \<Rightarrow> 't batch_system option" where
  "batch_fire (Push m) y =
     (case batch_push m (by_producer y) of
        (bp, should_flush) \<Rightarrow>
          Some (y\<lparr>by_producer := bp, by_due := by_due y + of_bool should_flush, by_pushed := by_pushed y @ [m]\<rparr>))"
| "batch_fire SenderTake y = (if 0 < by_due y then Some ((take_batch y)\<lparr>by_due := by_due y - 1\<rparr>) else None)"
| "batch_fire FlushTake y = Some (take_batch y)"
| "batch_fire TimerTake y = (if bp_flush_task (by_producer y) then Some (take_batch y) else None)"
| "batch_fire StopTimer y = Some (y\<lparr>by_producer := (by_producer y)\<lparr>bp_flush_task := False\<rparr>\<rparr>)"
| "batch_fire (Hand i) y =
     (if i < length (by_taken y)
      then Some (y\<lparr>by_taken := take i (by_taken y) @ drop (Suc i) (by_taken y), by_sent := by_sent y @ [by_taken y ! i]\<rparr>)
      else None)"

definition batch_start :: "batch_config \<Rightarrow> 't batch_system \<Rightarrow> bool" where
  "batch_start config y \<longleftrightarrow>
     (\<exists>bp. batch_producer_new config = Inr bp \<and>
        y = \<lparr>by_producer = bp, by_due = 0, by_taken = [], by_sent = [], by_pushed = [], by_takes = []\<rparr>)"

definition batch_inv :: "batch_config \<Rightarrow> 't batch_system \<Rightarrow> bool" where
  "batch_inv config y \<longleftrightarrow>
     0 < bc_max_size config \<and> bp_config (by_producer y) = config \<and>
     concat (map snd (by_takes y)) @ bp_buffer (by_producer y) = by_pushed y \<and>
     mset (by_taken y) + mset (by_sent y) = mset (map snd (by_takes y)) \<and>
     length (bp_buffer (by_producer y)) < bc_max_size config + by_due y \<and>
     list_all (\<lambda>(due, b). b \<noteq> [] \<and> length b < bc_max_size config + due) (by_takes y)"

lemma batch_inv_take: "batch_inv config y \<Longrightarrow> batch_inv config ((take_batch y)\<lparr>by_due := n\<rparr>)"
  by (auto simp: batch_inv_def take_batch_def batch_take_def)

lemma take_batch_due: "(take_batch y)\<lparr>by_due := by_due y\<rparr> = take_batch y"
  by (simp add: take_batch_def split: prod.split)

lemma batch_inv_step: "batch_inv config y \<Longrightarrow> batch_fire l y = Some y' \<Longrightarrow> batch_inv config y'"
proof (induction l y rule: batch_fire.induct)
  case (1 m y)
  then show ?case by (auto simp: batch_inv_def batch_push_def Let_def)
next
  case (2 y)
  with batch_inv_take [of config y "by_due y - 1"] show ?case by (simp split: if_splits)
next
  case (6 i y)
  then have i: "i < length (by_taken y)" by (simp split: if_splits)
  then have "mset (by_taken y) = add_mset (by_taken y ! i) (mset (take i (by_taken y)) + mset (drop (Suc i) (by_taken y)))"
    by (subst id_take_nth_drop [OF i]) simp
  with 6 i show ?case by (auto simp: batch_inv_def)
next
  case (3 y)
  with batch_inv_take [of config y "by_due y", unfolded take_batch_due] show ?case by simp
next
  case (4 y)
  with batch_inv_take [of config y "by_due y", unfolded take_batch_due] show ?case by (simp split: if_splits)
qed (auto simp: batch_inv_def)

interpretation batch_runs: invariant_system "batch_start config" "fire_step batch_fire" "batch_inv config" for config
proof
  show "batch_start config y \<Longrightarrow> batch_inv config y" for y :: "'t batch_system"
    by (auto simp: batch_start_def batch_inv_def batch_producer_new_def batch_validate_def split: if_splits)
  show "batch_inv config y \<Longrightarrow> fire_step batch_fire y y' \<Longrightarrow> batch_inv config y'" for y y' :: "'t batch_system"
    by (auto simp: fire_step_def intro: batch_inv_step)
qed

text \<open>
  C26. In every interleaving of concurrent sends, flushes, timer ticks and closes, the batches in the order they were taken, followed by the
  buffer, are the messages in the order they were pushed: no message is skipped, repeated or moved. Every batch that was taken is given to
  the wrapped producer at most once, and is still to be given to it otherwise; no batch is empty. A batch has fewer messages than the configured
  size and the sends that were yet to flush when it was taken: the configured size at most, unless other sends pushed in
  between.
\<close>

theorem batches_are_the_messages:
  assumes "reach (batch_start config) (fire_step batch_fire) y"
  shows "concat (map snd (by_takes y)) @ bp_buffer (by_producer y) = by_pushed y \<and>
    mset (by_taken y) + mset (by_sent y) = mset (map snd (by_takes y)) \<and>
    list_all (\<lambda>(due, b). b \<noteq> [] \<and> length b < bc_max_size config + due) (by_takes y) \<and>
    length (bp_buffer (by_producer y)) < bc_max_size config + by_due y"
  using batch_runs.inv_reach [OF assms] by (simp add: batch_inv_def)

text \<open>
  Batches of two and two senders: both push before either flushes, so that one batch of three is taken, and the other
  flush finds nothing. A timer tick takes the fourth message.
\<close>

definition batches_of_two :: batch_config where
  "batches_of_two = \<lparr>bc_max_size = 2, bc_max_wait = 1, bc_max_bytes = None\<rparr>"

theorem batches_are_the_messages_witness:
  "\<exists>(y :: nat batch_system) m1 m2 m3 m4. reach (batch_start batches_of_two) (fire_step batch_fire) y \<and> by_pushed y = [m1, m2, m3, m4] \<and>
     concat (map snd (by_takes y)) = [m1, m2, m3, m4] \<and> by_takes y = [(2, [m1, m2, m3]), (0, [m4])] \<and> by_sent y = [[m4], [m1, m2, m3]]"
proof -
  let ?m = "message_new 0 ''t'' :: nat \<Rightarrow> nat message"
  let ?ls = "[Push (?m 1), Push (?m 2), Push (?m 3), SenderTake, SenderTake, Push (?m 4), TimerTake, Hand 1, Hand 0]"
  define y0 :: "nat batch_system" where "y0 = \<lparr>by_producer = \<lparr>bp_config = batches_of_two, bp_buffer = [], bp_flush_task = True\<rparr>,
    by_due = 0, by_taken = [], by_sent = [], by_pushed = [], by_takes = []\<rparr>"
  have "batch_start batches_of_two y0"
    by (simp add: batch_start_def y0_def batch_producer_new_def batch_validate_def batches_of_two_def)
  then have start: "reach (batch_start batches_of_two) (fire_step batch_fire) y0" by (rule reach.reach_init)
  obtain y where y: "run_events batch_fire ?ls y0 = Some y" "by_pushed y = [?m 1, ?m 2, ?m 3, ?m 4]" "bp_buffer (by_producer y) = []"
    "by_takes y = [(2, [?m 1, ?m 2, ?m 3]), (0, [?m 4])]" "by_sent y = [[?m 4], [?m 1, ?m 2, ?m 3]]"
    by (simp add: y0_def batches_of_two_def batch_push_def take_batch_def batch_take_def Let_def)
  from run_events_reach [OF y(1) start] have reached: "reach (batch_start batches_of_two) (fire_step batch_fire) y" .
  from batches_are_the_messages [OF this] y reached show ?thesis
    by (intro exI [of _ y] exI [of _ "?m 1"] exI [of _ "?m 2"] exI [of _ "?m 3"] exI [of _ "?m 4"]) simp
qed

end
