(* ===== verification/Worker.thy ===== *)
theory Worker
  imports Errors "HOL-Library.Multiset" "HOL-Library.Word"
begin

text \<open>
  The worker pool, \<^verbatim>\<open>core/rskit-worker/src\<close>: the bounded submit queue (\<^verbatim>\<open>pool/queue.rs\<close>), the pool with its runner loop
  (\<^verbatim>\<open>pool/runtime.rs\<close>, \<^verbatim>\<open>pool/config.rs\<close>), task events (\<^verbatim>\<open>event.rs\<close>), the round-robin dispatcher (\<^verbatim>\<open>dispatch.rs\<close>) and the scheduler
  (\<^verbatim>\<open>scheduler.rs\<close>). Submitters, the runner and the running tasks interleave freely between their
  atomic sections.
\<close>

section \<open>The submit queue\<close>

record 'a submit_queue =
  sq_items :: "'a list"
  sq_capacity :: nat
  sq_closed :: bool

datatype 'a push_reject_error = Closed 'a | Full 'a

definition submit_queue_new :: "nat \<Rightarrow> 'a submit_queue" where
  "submit_queue_new capacity = \<lparr>sq_items = [], sq_capacity = max capacity 1, sq_closed = False\<rparr>"

text \<open>
  One pass of the loop of \<^verbatim>\<open>push_block\<close> under the lock; \<open>None\<close> waits for a notification and tries again.
\<close>

definition push_block :: "'a \<Rightarrow> 'a submit_queue \<Rightarrow> 'a submit_queue \<times> ('a + unit) option" where
  "push_block item q =
     (if sq_closed q then (q, Some (Inl item))
      else if length (sq_items q) < sq_capacity q then (q\<lparr>sq_items := sq_items q @ [item]\<rparr>, Some (Inr ()))
      else (q, None))"

definition push_reject :: "'a \<Rightarrow> 'a submit_queue \<Rightarrow> 'a submit_queue \<times> ('a push_reject_error + unit)" where
  "push_reject item q =
     (if sq_closed q then (q, Inl (Closed item))
      else if length (sq_items q) \<ge> sq_capacity q then (q, Inl (Full item))
      else (q\<lparr>sq_items := sq_items q @ [item]\<rparr>, Inr ()))"

definition push_drop_oldest :: "'a \<Rightarrow> 'a submit_queue \<Rightarrow> 'a submit_queue \<times> ('a + 'a option)" where
  "push_drop_oldest item q =
     (if sq_closed q then (q, Inl item)
      else
        case (if length (sq_items q) \<ge> sq_capacity q
              then (case sq_items q of [] \<Rightarrow> ([], None) | x # xs \<Rightarrow> (xs, Some x))
              else (sq_items q, None)) of
          (items, dropped) \<Rightarrow> (q\<lparr>sq_items := items @ [item]\<rparr>, Inr dropped))"

definition queue_close :: "'a submit_queue \<Rightarrow> 'a submit_queue" where
  "queue_close q = q\<lparr>sq_closed := True\<rparr>"

text \<open>One pass of \<^verbatim>\<open>recv\<close>: \<open>None\<close> waits, \<open>Some None\<close> is the end of a closed queue.\<close>

definition queue_recv :: "'a submit_queue \<Rightarrow> 'a submit_queue \<times> 'a option option" where
  "queue_recv q =
     (case sq_items q of
        x # xs \<Rightarrow> (q\<lparr>sq_items := xs\<rparr>, Some (Some x))
      | [] \<Rightarrow> (q, if sq_closed q then Some None else None))"

section \<open>Configuration and events\<close>

datatype overflow_policy = Block | Reject | DropOldest

datatype dispatch_strategy = RoundRobin | LeastLoaded

record pool_config =
  pc_name :: string
  pc_size :: nat
  pc_queue_size :: nat
  pc_event_buffer :: nat
  pc_grace_period :: nat
  pc_dispatch :: dispatch_strategy
  pc_overflow_policy :: overflow_policy

text \<open>\<open>parallelism\<close> is what the operating system reports, if it does.\<close>

definition available_parallelism :: "nat option \<Rightarrow> nat" where
  "available_parallelism parallelism = (case parallelism of Some n \<Rightarrow> n | None \<Rightarrow> 4)"

definition pool_config_default :: "nat option \<Rightarrow> pool_config" where
  "pool_config_default parallelism =
     \<lparr>pc_name = ''pool'', pc_size = available_parallelism parallelism, pc_queue_size = 256, pc_event_buffer = 64,
      pc_grace_period = 30 * 1000000000, pc_dispatch = RoundRobin, pc_overflow_policy = Block\<rparr>"

definition pool_config_new :: "nat option \<Rightarrow> string \<Rightarrow> pool_config" where
  "pool_config_new parallelism name = (pool_config_default parallelism)\<lparr>pc_name := name\<rparr>"

definition with_size :: "nat \<Rightarrow> pool_config \<Rightarrow> pool_config" where
  "with_size n c = c\<lparr>pc_size := n\<rparr>"

definition with_queue_size :: "nat \<Rightarrow> pool_config \<Rightarrow> pool_config" where
  "with_queue_size n c = c\<lparr>pc_queue_size := n\<rparr>"

definition with_grace_period :: "nat \<Rightarrow> pool_config \<Rightarrow> pool_config" where
  "with_grace_period d c = c\<lparr>pc_grace_period := d\<rparr>"

definition with_overflow_policy :: "overflow_policy \<Rightarrow> pool_config \<Rightarrow> pool_config" where
  "with_overflow_policy p c = c\<lparr>pc_overflow_policy := p\<rparr>"

datatype event_kind = ProgressEvent | PartialEvent | LogEvent | ResultEvent | ErrorEvent

record 'o worker_event =
  ev_kind :: event_kind
  ev_task_id :: string
  ev_worker_id :: string
  ev_data :: "'o option"
  ev_error :: "string option"
  ev_timestamp :: nat

definition event_partial :: "nat \<Rightarrow> string \<Rightarrow> string \<Rightarrow> 'o \<Rightarrow> 'o worker_event" where
  "event_partial now task_id worker_id data =
     \<lparr>ev_kind = PartialEvent, ev_task_id = task_id, ev_worker_id = worker_id, ev_data = Some data, ev_error = None,
      ev_timestamp = now\<rparr>"

definition event_log :: "nat \<Rightarrow> string \<Rightarrow> string \<Rightarrow> string \<Rightarrow> 'o worker_event" where
  "event_log now task_id worker_id message =
     \<lparr>ev_kind = LogEvent, ev_task_id = task_id, ev_worker_id = worker_id, ev_data = None, ev_error = Some message,
      ev_timestamp = now\<rparr>"

definition event_result :: "nat \<Rightarrow> string \<Rightarrow> string \<Rightarrow> 'o \<Rightarrow> 'o worker_event" where
  "event_result now task_id worker_id data =
     \<lparr>ev_kind = ResultEvent, ev_task_id = task_id, ev_worker_id = worker_id, ev_data = Some data, ev_error = None,
      ev_timestamp = now\<rparr>"

definition event_error :: "nat \<Rightarrow> string \<Rightarrow> string \<Rightarrow> string \<Rightarrow> 'o worker_event" where
  "event_error now task_id worker_id err =
     \<lparr>ev_kind = ErrorEvent, ev_task_id = task_id, ev_worker_id = worker_id, ev_data = None, ev_error = Some err,
      ev_timestamp = now\<rparr>"

section \<open>The pool\<close>

record 'i envelope =
  env_id :: string
  env_input :: 'i
  env_event_buffer :: nat

text \<open>
  Where the runner is: in its first \<^verbatim>\<open>select!\<close>, waiting for a permit for an envelope, emptying the queue, waiting for the
  running tasks, or gone.
\<close>

datatype 'i runner = Receiving | Dequeued "'i envelope" | Draining | Joining | Exited

text \<open>
  The pool, and what its users can observe: \<open>pl_accepted\<close> are the tasks for which a handle was returned, \<open>pl_spawned\<close> those
  that the runner spawned and \<open>pl_started\<close> those whose handler was called, each in order, \<open>pl_events\<close> the events
  broadcast, and \<open>pl_results\<close> what arrived at the handle of a task, \<open>None\<close> being a sender that was dropped. \<open>pl_running\<close> are the
  spawned tasks that have not ended, and \<open>pl_aborted\<close> tells that the runner was aborted, which aborts them.
\<close>

record ('i, 'o) pool =
  pl_name :: string
  pl_queue :: "'i envelope submit_queue"
  pl_permits :: nat
  pl_capacity :: nat
  pl_event_buffer :: nat
  pl_policy :: overflow_policy
  pl_grace_period :: nat
  pl_shutdown :: bool
  pl_runner :: "'i runner"
  pl_running :: "'i envelope list"
  pl_now :: nat
  pl_accepted :: "string list"
  pl_dropping :: "'i envelope list"
  pl_aborted :: bool
  pl_spawned :: "string list"
  pl_started :: "string list"
  pl_events :: "'o worker_event list"
  pl_results :: "(string \<times> 'o app_result option) list"

definition pool_new :: "pool_config \<Rightarrow> nat \<Rightarrow> ('i, 'o) pool" where
  "pool_new config now =
     (let size = (if pc_size config = 0 then 1 else pc_size config)
      in \<lparr>pl_name = pc_name config, pl_queue = submit_queue_new (pc_queue_size config), pl_permits = size,
          pl_capacity = size, pl_event_buffer = pc_event_buffer config, pl_policy = pc_overflow_policy config,
          pl_grace_period = pc_grace_period config, pl_shutdown = False, pl_runner = Receiving, pl_running = [],
          pl_now = now, pl_accepted = [], pl_dropping = [], pl_aborted = False, pl_spawned = [], pl_started = [], pl_events = [], pl_results = []\<rparr>)"

definition pool_stats :: "('i, 'o) pool \<Rightarrow> string \<times> nat \<times> nat" where
  "pool_stats p = (pl_name p, pl_capacity p - pl_permits p, pl_capacity p)"

definition available_permits :: "('i, 'o) pool \<Rightarrow> nat" where
  "available_permits p = pl_permits p"

definition notify_dropped_task :: "'i envelope \<Rightarrow> ('i, 'o) pool \<Rightarrow> ('i, 'o) pool" where
  "notify_dropped_task env p =
     (let error = with_detail ''overflow_policy'' (JString ''drop_oldest'')
                    (with_detail ''pool'' (JString (pl_name p)) rate_limited)
      in p\<lparr>pl_events := pl_events p @ [event_error (pl_now p) (env_id env) (pl_name p @ ''/queue'') (err_message error)],
           pl_results := pl_results p @ [(env_id env, Some (Inl error))]\<rparr>)"

definition fail_envelope_shutdown :: "'i envelope \<Rightarrow> ('i, 'o) pool \<Rightarrow> ('i, 'o) pool" where
  "fail_envelope_shutdown env p =
     (let error = cancelled_error (''queued task in pool '' @ quoted (pl_name p))
      in p\<lparr>pl_events := pl_events p @ [event_error (pl_now p) (env_id env) (pl_name p @ ''/shutdown'') (err_message error)],
           pl_results := pl_results p @ [(env_id env, Some (Inl error))]\<rparr>)"

definition pool_shut_down_error :: "('i, 'o) pool \<Rightarrow> app_error" where
  "pool_shut_down_error p = app_error_new ServiceUnavailable (''pool '' @ quoted (pl_name p) @ '' is shut down'')"

text \<open>
  \<open>submit\<close> with the task's fresh identifier; \<open>None\<close> is a submission that waits for room. A task that it pushed out of the queue is
  left in \<open>pl_dropping\<close>: the submitter tells its handle after it has released the queue, by \<open>notify_dropped_task\<close>.
\<close>

definition pool_submit :: "string \<Rightarrow> 'i \<Rightarrow> ('i, 'o) pool \<Rightarrow> ('i, 'o) pool \<times> string app_result option" where
  "pool_submit task input p =
     (let env = \<lparr>env_id = task, env_input = input, env_event_buffer = max (pl_event_buffer p) 1\<rparr>;
          accept = (\<lambda>q. p\<lparr>pl_queue := q, pl_accepted := pl_accepted p @ [task]\<rparr>)
      in case pl_policy p of
           Block \<Rightarrow>
             (case push_block env (pl_queue p) of
                (q, None) \<Rightarrow> (p, None)
              | (q, Some (Inl _)) \<Rightarrow> (p, Some (Inl (pool_shut_down_error p)))
              | (q, Some (Inr _)) \<Rightarrow> (accept q, Some (Inr task)))
         | Reject \<Rightarrow>
             (case push_reject env (pl_queue p) of
                (q, Inl (Closed _)) \<Rightarrow> (p, Some (Inl (pool_shut_down_error p)))
              | (q, Inl (Full _)) \<Rightarrow>
                  (p, Some (Inl (with_detail ''overflow_policy'' (JString ''reject'')
                                  (with_detail ''pool'' (JString (pl_name p)) rate_limited))))
              | (q, Inr _) \<Rightarrow> (accept q, Some (Inr task)))
         | DropOldest \<Rightarrow>
             (case push_drop_oldest env (pl_queue p) of
                (q, Inl _) \<Rightarrow> (p, Some (Inl (pool_shut_down_error p)))
              | (q, Inr None) \<Rightarrow> (accept q, Some (Inr task))
              | (q, Inr (Some dropped)) \<Rightarrow> ((accept q)\<lparr>pl_dropping := pl_dropping p @ [dropped]\<rparr>, Some (Inr task))))"

text \<open>What a handle's \<^verbatim>\<open>result()\<close> returns, once something arrived.\<close>

definition handle_result :: "string \<Rightarrow> ('i, 'o) pool \<Rightarrow> 'o app_result option" where
  "handle_result task p =
     map_option (\<lambda>r. case r of Some v \<Rightarrow> v | None \<Rightarrow> Inl (app_error_new Internal ''worker task dropped before completing''))
       (map_of (pl_results p) task)"

section \<open>Dispatch and scheduling\<close>

record round_robin =
  rr_counter :: "64 word"
  rr_slots :: nat

definition round_robin_new :: "nat \<Rightarrow> round_robin" where
  "round_robin_new slots = \<lparr>rr_counter = 0, rr_slots = slots\<rparr>"

definition rr_next :: "round_robin \<Rightarrow> round_robin \<times> nat" where
  "rr_next d =
     (if rr_slots d = 0 then (d, 0)
      else (d\<lparr>rr_counter := rr_counter d + 1\<rparr>, unat (rr_counter d) mod rr_slots d))"

record scheduler_config =
  sc_max_concurrent :: nat
  sc_queue_size :: nat

definition scheduler_config_default :: scheduler_config where
  "scheduler_config_default = \<lparr>sc_max_concurrent = 4, sc_queue_size = 256\<rparr>"

definition to_pool_config :: "nat option \<Rightarrow> string \<Rightarrow> scheduler_config \<Rightarrow> pool_config" where
  "to_pool_config parallelism name c =
     with_queue_size (max (sc_queue_size c) 1) (with_size (max (sc_max_concurrent c) 1) (pool_config_new parallelism name))"

record resource_requirements =
  cpu_units :: nat
  memory_mib :: nat

definition resource_requirements_default :: resource_requirements where
  "resource_requirements_default = \<lparr>cpu_units = 1, memory_mib = 128\<rparr>"

record task_spec =
  ts_name :: string
  ts_resources :: resource_requirements
  ts_labels :: "(string, string) hashmap"

definition task_spec_new :: "string \<Rightarrow> task_spec" where
  "task_spec_new name = \<lparr>ts_name = name, ts_resources = resource_requirements_default, ts_labels = []\<rparr>"

definition with_resources :: "resource_requirements \<Rightarrow> task_spec \<Rightarrow> task_spec" where
  "with_resources r t = t\<lparr>ts_resources := r\<rparr>"

definition with_label :: "string \<Rightarrow> string \<Rightarrow> task_spec \<Rightarrow> task_spec" where
  "with_label k v t = t\<lparr>ts_labels := hm_insert k v (ts_labels t)\<rparr>"

record scheduling_decision =
  sd_task :: string
  sd_pool :: string
  sd_reason :: string

record task_batch =
  tb_name :: string
  tb_tasks :: "task_spec list"

definition task_batch_new :: "string \<Rightarrow> task_batch" where
  "task_batch_new name = \<lparr>tb_name = name, tb_tasks = []\<rparr>"

definition with_task :: "task_spec \<Rightarrow> task_batch \<Rightarrow> task_batch" where
  "with_task t b = b\<lparr>tb_tasks := tb_tasks b @ [t]\<rparr>"

record execution_plan =
  ep_batch :: string
  ep_decisions :: "scheduling_decision list"

text \<open>The default method of the \<^verbatim>\<open>Scheduler\<close> trait, over any \<open>schedule\<close> with effects on a world.\<close>

fun plan_tasks ::
    "(task_spec \<Rightarrow> 'w \<Rightarrow> 'w \<times> scheduling_decision app_result) \<Rightarrow> task_spec list \<Rightarrow> scheduling_decision list \<Rightarrow>
     'w \<Rightarrow> 'w \<times> scheduling_decision list app_result" where
  "plan_tasks schedule [] decisions w = (w, Inr decisions)"
| "plan_tasks schedule (task # tasks) decisions w =
     (case schedule task w of
        (w', Inl e) \<Rightarrow> (w', Inl e)
      | (w', Inr d) \<Rightarrow> plan_tasks schedule tasks (decisions @ [d]) w')"

definition plan_batch ::
    "(task_spec \<Rightarrow> 'w \<Rightarrow> 'w \<times> scheduling_decision app_result) \<Rightarrow> task_batch \<Rightarrow> 'w \<Rightarrow> 'w \<times> execution_plan app_result" where
  "plan_batch schedule batch w =
     (case plan_tasks schedule (tb_tasks batch) [] w of
        (w', Inl e) \<Rightarrow> (w', Inl e)
      | (w', Inr decisions) \<Rightarrow> (w', Inr \<lparr>ep_batch = tb_name batch, ep_decisions = decisions\<rparr>))"

record worker_scheduler =
  ws_pool_name :: string
  ws_config :: scheduler_config

definition worker_scheduler_new :: "string \<Rightarrow> scheduler_config \<Rightarrow> worker_scheduler" where
  "worker_scheduler_new name c = \<lparr>ws_pool_name = name, ws_config = c\<rparr>"

definition scheduler_pool :: "nat option \<Rightarrow> nat \<Rightarrow> worker_scheduler \<Rightarrow> ('i, 'o) pool" where
  "scheduler_pool parallelism now ws = pool_new (to_pool_config parallelism (ws_pool_name ws) (ws_config ws)) now"

definition worker_schedule :: "worker_scheduler \<Rightarrow> task_spec \<Rightarrow> 'w \<Rightarrow> 'w \<times> scheduling_decision app_result" where
  "worker_schedule ws spec w =
     (w, Inr \<lparr>sd_task = ts_name spec, sd_pool = ws_pool_name ws,
              sd_reason = ''worker pool capacity='' @ show_nat (sc_max_concurrent (ws_config ws)) @
                '' queue='' @ show_nat (sc_queue_size (ws_config ws))\<rparr>)"

section \<open>The runner and the tasks\<close>

text \<open>
  The events of a pool. \<open>NotifyDropped\<close> is the end of a submission that pushed a task out of the queue. \<open>RunnerRecv\<close> and
  \<open>RunnerShutdown\<close> are the branches of the first \<^verbatim>\<open>select!\<close>, \<open>RunnerShutdown\<close> and \<open>RunnerPermit\<close> those of the second; reaping a finished task changes nothing that others see. The shutdown token can be cancelled between
  the two polls of a biased \<^verbatim>\<open>select!\<close>, so that the other branch can still win. \<open>close\<close> first cancels the token and then closes the
  queue. A spawned task calls its handler when it is first polled, \<open>TaskStart\<close>, at any time and in any order; it ends
  with a result or by a panic, and either way its permit is released. \<open>AbortRunner\<close> is the end of the runner by an abort, after the grace
  period or when the pool is dropped. Its tasks are aborted with it, but each of them goes on until it yields, \<open>TaskAborted\<close>, and may
  still come to its end before; the queue goes with the pool, \<open>DropQueue\<close>.
\<close>

datatype ('i, 'o) pool_label =
    Submit string 'i
  | NotifyDropped nat
  | RunnerRecv
  | RunnerShutdown
  | RunnerPermit
  | TaskStart string
  | TaskDone string "'o app_result"
  | TaskPanic string
  | CancelShutdown
  | CloseQueue
  | DrainRecv
  | JoinEnd
  | AbortRunner
  | TaskAborted string
  | DropQueue
  | Tick

definition run_task_end :: "string \<Rightarrow> 'o app_result \<Rightarrow> ('i, 'o) pool \<Rightarrow> ('i, 'o) pool" where
  "run_task_end task result p =
     (let worker_id = pl_name p @ ''/'' @ task;
          final_event = (case result of
              Inr v \<Rightarrow> event_result (pl_now p) task worker_id v
            | Inl e \<Rightarrow> event_error (pl_now p) task worker_id (app_error_display e))
      in p\<lparr>pl_events := pl_events p @ [final_event], pl_results := pl_results p @ [(task, Some result)]\<rparr>)"

definition release_task :: "string \<Rightarrow> ('i, 'o) pool \<Rightarrow> ('i, 'o) pool" where
  "release_task task p =
     p\<lparr>pl_running := filter (\<lambda>env. env_id env \<noteq> task) (pl_running p), pl_permits := pl_permits p + 1\<rparr>"

definition is_running :: "string \<Rightarrow> ('i, 'o) pool \<Rightarrow> bool" where
  "is_running task p = list_ex (\<lambda>env. env_id env = task) (pl_running p)"

fun dequeued :: "'i runner \<Rightarrow> 'i envelope list" where
  "dequeued (Dequeued env) = [env]"
| "dequeued _ = []"

definition drop_tasks :: "'i envelope list \<Rightarrow> ('i, 'o) pool \<Rightarrow> ('i, 'o) pool" where
  "drop_tasks envs p = p\<lparr>pl_results := pl_results p @ map (\<lambda>env. (env_id env, None)) envs\<rparr>"

definition abort_runner :: "('i, 'o) pool \<Rightarrow> ('i, 'o) pool" where
  "abort_runner p = (drop_tasks (dequeued (pl_runner p)) p)\<lparr>pl_runner := Exited, pl_aborted := True\<rparr>"

definition drop_queue :: "('i, 'o) pool \<Rightarrow> ('i, 'o) pool" where
  "drop_queue p = (drop_tasks (sq_items (pl_queue p)) p)\<lparr>pl_queue := (pl_queue p)\<lparr>sq_items := []\<rparr>\<rparr>"

definition task_dropped :: "string \<Rightarrow> ('i, 'o) pool \<Rightarrow> ('i, 'o) pool" where
  "task_dropped task p = release_task task (p\<lparr>pl_results := pl_results p @ [(task, None)]\<rparr>)"

fun pool_fire :: "('i, 'o) pool_label \<Rightarrow> ('i, 'o) pool \<Rightarrow> ('i, 'o) pool option" where
  "pool_fire (Submit task input) p =
     (if task \<in> set (pl_accepted p) then None
      else case pool_submit task input p of (p', Some _) \<Rightarrow> Some p' | (p', None) \<Rightarrow> None)"
| "pool_fire RunnerRecv p =
     (case pl_runner p of
        Receiving \<Rightarrow>
          (case queue_recv (pl_queue p) of
             (q, Some (Some env)) \<Rightarrow> Some (p\<lparr>pl_queue := q, pl_runner := Dequeued env\<rparr>)
           | (q, Some None) \<Rightarrow> Some (p\<lparr>pl_runner := Draining\<rparr>)
           | (q, None) \<Rightarrow> None)
      | _ \<Rightarrow> None)"
| "pool_fire RunnerShutdown p =
     (if \<not> pl_shutdown p then None
      else case pl_runner p of
        Receiving \<Rightarrow> Some (p\<lparr>pl_runner := Draining\<rparr>)
      | Dequeued env \<Rightarrow> Some ((fail_envelope_shutdown env p)\<lparr>pl_runner := Draining\<rparr>)
      | _ \<Rightarrow> None)"
| "pool_fire RunnerPermit p =
     (case pl_runner p of
        Dequeued env \<Rightarrow>
          if 0 < pl_permits p
          then Some (p\<lparr>pl_permits := pl_permits p - 1, pl_running := pl_running p @ [env], pl_runner := Receiving,
                       pl_spawned := pl_spawned p @ [env_id env]\<rparr>)
          else None
      | _ \<Rightarrow> None)"
| "pool_fire (TaskStart task) p =
     (if is_running task p \<and> task \<notin> set (pl_started p) then Some (p\<lparr>pl_started := pl_started p @ [task]\<rparr>) else None)"
| "pool_fire (TaskDone task result) p =
     (if is_running task p \<and> task \<in> set (pl_started p) then Some (release_task task (run_task_end task result p)) else None)"
| "pool_fire (TaskPanic task) p =
     (if is_running task p \<and> task \<in> set (pl_started p) then Some (task_dropped task p) else None)"
| "pool_fire CancelShutdown p = Some (p\<lparr>pl_shutdown := True\<rparr>)"
| "pool_fire CloseQueue p =
     (if pl_shutdown p then Some (p\<lparr>pl_queue := queue_close (pl_queue p)\<rparr>) else None)"
| "pool_fire DrainRecv p =
     (case pl_runner p of
        Draining \<Rightarrow>
          (case queue_recv (pl_queue p) of
             (q, Some (Some env)) \<Rightarrow> Some (fail_envelope_shutdown env (p\<lparr>pl_queue := q\<rparr>))
           | (q, Some None) \<Rightarrow> Some (p\<lparr>pl_runner := Joining\<rparr>)
           | (q, None) \<Rightarrow> None)
      | _ \<Rightarrow> None)"
| "pool_fire JoinEnd p =
     (case pl_runner p of
        Joining \<Rightarrow> if pl_running p = [] then Some (p\<lparr>pl_runner := Exited\<rparr>) else None
      | _ \<Rightarrow> None)"
| "pool_fire AbortRunner p =
     (if sq_closed (pl_queue p) \<and> pl_runner p \<noteq> Exited then Some (abort_runner p) else None)"
| "pool_fire (TaskAborted task) p = (if pl_aborted p \<and> is_running task p then Some (task_dropped task p) else None)"
| "pool_fire DropQueue p =
     (if pl_aborted p \<and> sq_items (pl_queue p) \<noteq> [] then Some (drop_queue p) else None)"
| "pool_fire (NotifyDropped i) p =
     (if i < length (pl_dropping p)
      then Some (notify_dropped_task (pl_dropping p ! i) (p\<lparr>pl_dropping := take i (pl_dropping p) @ drop (Suc i) (pl_dropping p)\<rparr>))
      else None)"
| "pool_fire Tick p = Some (p\<lparr>pl_now := pl_now p + 1\<rparr>)"

fun pool_run :: "('i, 'o) pool_label list \<Rightarrow> ('i, 'o) pool \<Rightarrow> ('i, 'o) pool option" where
  "pool_run [] p = Some p"
| "pool_run (l # ls) p = Option.bind (pool_fire l p) (pool_run ls)"

definition pool_step :: "('i, 'o) pool \<Rightarrow> ('i, 'o) pool \<Rightarrow> bool" where
  "pool_step p p' \<longleftrightarrow> (\<exists>l. pool_fire l p = Some p')"

section \<open>Every accepted task is answered once\<close>

text \<open>Where the accepted tasks are: in the queue, pushed out of it, at the runner, running, or answered.\<close>

definition pool_ids :: "('i, 'o) pool \<Rightarrow> string multiset" where
  "pool_ids p =
     mset (map env_id (sq_items (pl_queue p))) + mset (map env_id (pl_dropping p)) + mset (map env_id (dequeued (pl_runner p))) +
     mset (map env_id (pl_running p)) + mset (map fst (pl_results p))"

definition pool_inv :: "('i, 'o) pool \<Rightarrow> bool" where
  "pool_inv p \<longleftrightarrow>
     length (pl_running p) + pl_permits p = pl_capacity p \<and>
     1 \<le> sq_capacity (pl_queue p) \<and> length (sq_items (pl_queue p)) \<le> sq_capacity (pl_queue p) \<and>
     distinct (pl_accepted p) \<and> mset (pl_accepted p) = pool_ids p \<and>
     subseq (pl_spawned p @ map env_id (dequeued (pl_runner p)) @ map env_id (sq_items (pl_queue p))) (pl_accepted p) \<and>
     (\<forall>env\<in>set (pl_running p). env_id env \<in> set (pl_spawned p)) \<and> distinct (pl_started p) \<and> set (pl_started p) \<subseteq> set (pl_spawned p) \<and>
     (pl_runner p \<in> {Joining, Exited} \<longrightarrow> sq_closed (pl_queue p) \<and> (sq_items (pl_queue p) = [] \<or> pl_aborted p)) \<and>
     (pl_runner p = Exited \<longrightarrow> pl_running p = [] \<or> pl_aborted p) \<and> (pl_aborted p \<longrightarrow> pl_runner p = Exited) \<and>
     (sq_closed (pl_queue p) \<longrightarrow> pl_shutdown p)"

lemmas pool_op_defs = notify_dropped_task_def fail_envelope_shutdown_def run_task_end_def release_task_def
  queue_recv_def queue_close_def abort_runner_def drop_queue_def drop_tasks_def task_dropped_def Let_def

lemma pool_inv_init: "pool_inv (pool_new config now)"
  by (simp add: pool_inv_def pool_new_def Let_def submit_queue_new_def pool_ids_def)

lemma subseq_without: "subseq (a @ x # b) c \<Longrightarrow> subseq (a @ b) c"
proof -
  have "subseq (a @ b) (a @ x # b)" by (simp add: subseq_append' list_emb_Cons)
  then show "subseq (a @ x # b) c \<Longrightarrow> subseq (a @ b) c" by (rule subseq_order.trans)
qed

lemma subseq_front: "subseq (a @ b) c \<Longrightarrow> subseq a c"
  using subseq_order.trans [OF subseq_rev_drop_many [OF subseq_order.refl]] by blast

text \<open>The two ways of accepting a task; every other answer leaves the pool as it is.\<close>

lemma pool_submit_cases:
  assumes "pool_submit task input p = (p', Some r)"
  obtains (refused) "p' = p"
  | (room) env where "env_id env = task" "\<not> sq_closed (pl_queue p)"
      "length (sq_items (pl_queue p)) < sq_capacity (pl_queue p) \<or> sq_capacity (pl_queue p) = 0"
      "p' = p\<lparr>pl_queue := (pl_queue p)\<lparr>sq_items := sq_items (pl_queue p) @ [env]\<rparr>, pl_accepted := pl_accepted p @ [task]\<rparr>"
  | (full) env old rest where "env_id env = task" "\<not> sq_closed (pl_queue p)" "sq_items (pl_queue p) = old # rest"
      "p' = p\<lparr>pl_queue := (pl_queue p)\<lparr>sq_items := rest @ [env]\<rparr>, pl_accepted := pl_accepted p @ [task],
         pl_dropping := pl_dropping p @ [old]\<rparr>"
proof -
  let ?env = "\<lparr>env_id = task, env_input = input, env_event_buffer = max (pl_event_buffer p) 1\<rparr>"
  note split = if_splits option.splits sum.splits prod.splits list.splits push_reject_error.splits
  show thesis
  proof (cases "pl_policy p")
    case Block
    with assms show ?thesis
      by (auto simp: pool_submit_def push_block_def Let_def split: split intro: refused room [of ?env])
  next
    case Reject
    with assms show ?thesis
      by (auto simp: pool_submit_def push_reject_def Let_def not_le split: split intro: refused room [of ?env])
  next
    case DropOldest
    with assms show ?thesis
      by (auto simp: pool_submit_def push_drop_oldest_def Let_def not_le split: split
          intro: refused room [of ?env] full [of ?env])
  qed
qed

lemma pool_inv_submit:
  assumes inv: "pool_inv p" and new: "task \<notin> set (pl_accepted p)" and submit: "pool_submit task input p = (p', Some r)"
  shows "pool_inv p'"
  using submit
proof (cases rule: pool_submit_cases)
  case (room env)
  with inv new show ?thesis
    by (auto simp: pool_inv_def pool_ids_def simp flip: append_assoc)
next
  case (full env old rest)
  with inv new show ?thesis
    by (auto simp: pool_inv_def pool_ids_def dest: subseq_without simp flip: append_assoc)
qed (use inv in simp)

lemma distinct_part: "distinct xs \<Longrightarrow> mset ys \<subseteq># mset xs \<Longrightarrow> distinct ys"
proof (unfold distinct_count_atmost_1, intro allI)
  fix a
  assume *: "\<forall>a. count (mset xs) a = (if a \<in> set xs then 1 else 0)" "mset ys \<subseteq># mset xs"
  have "count (mset ys) a \<le> count (mset xs) a" using *(2) by (rule mset_subset_eq_count)
  moreover have "count (mset xs) a \<le> 1" using *(1) by auto
  ultimately have "count (mset ys) a \<le> 1" by linarith
  then show "count (mset ys) a = (if a \<in> set ys then 1 else 0)"
    using count_greater_zero_iff [of "mset ys" a] by (cases "count (mset ys) a") auto
qed

lemma running_split:
  assumes "distinct (map env_id envs)" "env \<in> set envs"
  shows "mset (map env_id envs) = {#env_id env#} + mset (map env_id (filter (\<lambda>e. env_id e \<noteq> env_id env) envs)) \<and>
    length envs = Suc (length (filter (\<lambda>e. env_id e \<noteq> env_id env) envs))"
  using assms
proof (induction envs)
  case (Cons e envs)
  have "env_id e = env_id env \<Longrightarrow> filter (\<lambda>e. env_id e \<noteq> env_id env) envs = envs"
    using Cons.prems(1) by (auto simp: filter_id_conv image_iff)
  with Cons show ?case by (cases "env_id e = env_id env") auto
qed simp

lemma pool_inv_release:
  assumes inv: "pool_inv p" and task: "is_running task p"
  shows "pool_inv (release_task task (p\<lparr>pl_events := evs, pl_results := pl_results p @ [(task, r)]\<rparr>))"
proof -
  obtain env where env: "env \<in> set (pl_running p)" "env_id env = task"
    using task by (auto simp: is_running_def list_ex_iff)
  have "mset (map env_id (pl_running p)) \<subseteq># mset (pl_accepted p)"
    using inv by (simp add: pool_inv_def pool_ids_def)
  then have "distinct (map env_id (pl_running p))" using inv distinct_part unfolding pool_inv_def by blast
  from running_split [OF this env(1)] inv env show ?thesis
    by (auto simp: pool_inv_def pool_ids_def release_task_def)
qed

lemma pool_inv_dropped: "pool_inv p \<Longrightarrow> is_running task p \<Longrightarrow> pool_inv (task_dropped task p)"
  using pool_inv_release [of p task None "pl_events p"] by (simp add: task_dropped_def)

lemma pool_inv_step: "pool_inv p \<Longrightarrow> pool_fire l p = Some p' \<Longrightarrow> pool_inv p'"
proof (induction l p rule: pool_fire.induct)
  case (1 task input p)
  then show ?case by (auto split: if_splits prod.splits option.splits intro: pool_inv_submit)
next
  case (2 p)
  then show ?case by (auto simp: queue_recv_def pool_inv_def pool_ids_def split: runner.splits list.splits if_splits)
next
  case (3 p)
  then show ?case
    by (auto simp: pool_op_defs pool_inv_def pool_ids_def split: if_splits runner.splits dest: subseq_without)
next
  case (4 p)
  then show ?case by (auto simp: pool_inv_def pool_ids_def split: runner.splits if_splits)
next
  case (5 task p)
  then have p': "p' = p\<lparr>pl_started := pl_started p @ [task]\<rparr>" "is_running task p" "task \<notin> set (pl_started p)"
    by (simp_all split: if_splits)
  then have "task \<in> set (pl_spawned p)" using 5(1) by (auto simp: pool_inv_def is_running_def list_ex_iff)
  with 5(1) p'(3) show ?case unfolding p'(1) pool_inv_def pool_ids_def by simp
next
  case (6 task r p)
  then have "is_running task p" "p' = release_task task (run_task_end task r p)" by (auto split: if_splits)
  with 6 show ?case by (simp add: run_task_end_def Let_def pool_inv_release)
next
  case (10 p)
  then show ?case
    by (auto simp: pool_op_defs pool_inv_def pool_ids_def split: if_splits runner.splits list.splits dest: subseq_without)
next
  case (12 p)
  then have "sq_closed (pl_queue p)" "p' = abort_runner p" by (auto split: if_splits)
  moreover from 12(1) have "subseq (pl_spawned p @ map env_id (sq_items (pl_queue p))) (pl_accepted p)"
    by (cases "pl_runner p") (auto simp: pool_inv_def dest: subseq_without)
  ultimately show ?case using 12(1)
    by (auto simp: abort_runner_def drop_tasks_def pool_inv_def pool_ids_def comp_def)
next
  case (14 p)
  then have "pl_aborted p" "p' = drop_queue p" by (auto split: if_splits)
  moreover from this 14(1) have "subseq (pl_spawned p) (pl_accepted p)" "pl_runner p = Exited"
    using subseq_front unfolding pool_inv_def by blast+
  ultimately show ?case using 14(1)
    by (auto simp: drop_queue_def drop_tasks_def pool_inv_def pool_ids_def comp_def)
next
  case (7 task p)
  then show ?case by (auto split: if_splits intro: pool_inv_dropped)
next
  case (13 task p)
  then show ?case by (auto split: if_splits intro: pool_inv_dropped)
next
  case (8 p)
  then have p': "p' = p\<lparr>pl_shutdown := True\<rparr>" by simp
  show ?case using 8(1) unfolding p' pool_inv_def pool_ids_def by simp
next
  case (9 p)
  then have p': "p' = p\<lparr>pl_queue := queue_close (pl_queue p)\<rparr>" "pl_shutdown p" by (simp_all split: if_splits)
  show ?case using 9(1) p'(2) unfolding p'(1) pool_inv_def pool_ids_def queue_close_def by simp
next
  case (11 p)
  then have p': "p' = p\<lparr>pl_runner := Exited\<rparr>" "pl_runner p = Joining" "pl_running p = []" by (simp_all split: runner.splits if_splits)
  show ?case using 11(1) p'(2,3) unfolding p'(1) pool_inv_def pool_ids_def by simp blast
next
  case (15 i p)
  then have i: "i < length (pl_dropping p)" and p': "p' = notify_dropped_task (pl_dropping p ! i)
      (p\<lparr>pl_dropping := take i (pl_dropping p) @ drop (Suc i) (pl_dropping p)\<rparr>)"
    by (simp_all split: if_splits)
  have "mset (map env_id (pl_dropping p)) = add_mset (env_id (pl_dropping p ! i))
      (mset (map env_id (take i (pl_dropping p))) + mset (map env_id (drop (Suc i) (pl_dropping p))))"
    by (subst (1) id_take_nth_drop [OF i]) simp
  with 15(1) show ?case unfolding p' pool_inv_def pool_ids_def notify_dropped_task_def Let_def by simp
next
  case (16 p)
  then have p': "p' = p\<lparr>pl_now := pl_now p + 1\<rparr>" by simp
  show ?case using 16(1) unfolding p' pool_inv_def pool_ids_def by simp
qed

interpretation pool_runs: invariant_system "\<lambda>p. \<exists>config now. p = pool_new config now" pool_step pool_inv
  by unfold_locales (auto simp: pool_inv_init pool_step_def intro: pool_inv_step)

text \<open>
  C27. In every interleaving of submitters, runner, tasks, close and abort, the spawned tasks that have not ended never outnumber the
  pool's size and the queue stays within its capacity; the runner spawns tasks in the order of their
  acceptance, and the handler is called at most once for a task and only for spawned ones, in any order; no
  task is answered twice and none that was not accepted. When the runner has exited by itself every accepted task has been answered; when it was
  aborted, every one that was neither running nor in the queue, and all of them once the aborted tasks have ended and the
  queue is gone. A task that a submission has pushed out of the queue is still to be answered by that submission.
\<close>

theorem pool_answers_every_task:
  assumes "reach (\<lambda>p. \<exists>config now. p = pool_new config now) pool_step p"
  shows "length (pl_running p) \<le> pl_capacity p \<and>
    length (sq_items (pl_queue p)) \<le> sq_capacity (pl_queue p) \<and>
    subseq (pl_spawned p) (pl_accepted p) \<and> distinct (pl_started p) \<and> set (pl_started p) \<subseteq> set (pl_spawned p) \<and>
    distinct (map fst (pl_results p)) \<and> set (map fst (pl_results p)) \<subseteq> set (pl_accepted p) \<and>
    (pl_runner p = Exited \<longrightarrow>
       set (pl_accepted p) - set (map fst (pl_results p)) =
         env_id ` (set (pl_running p) \<union> set (sq_items (pl_queue p)) \<union> set (pl_dropping p)) \<and>
       (\<not> pl_aborted p \<longrightarrow> pl_running p = [] \<and> sq_items (pl_queue p) = []))"
proof -
  have inv: "pool_inv p" using assms by (rule pool_runs.inv_reach)
  then have ids: "mset (pl_accepted p) = pool_ids p" "distinct (pl_accepted p)" by (simp_all add: pool_inv_def)
  have "mset (map fst (pl_results p)) \<subseteq># mset (pl_accepted p)" unfolding ids by (simp add: pool_ids_def)
  then have "distinct (map fst (pl_results p))" "set (map fst (pl_results p)) \<subseteq> set (pl_accepted p)"
    using ids(2) by (blast intro: distinct_part, metis set_mset_mono set_mset_mset)
  moreover have "set (pl_accepted p) - set (map fst (pl_results p)) =
      env_id ` (set (pl_running p) \<union> set (sq_items (pl_queue p)) \<union> set (pl_dropping p))"
    if "pl_runner p = Exited"
  proof -
    let ?left = "map env_id (sq_items (pl_queue p)) @ map env_id (pl_dropping p) @ map env_id (pl_running p)"
    have perm: "mset (pl_accepted p) = mset (?left @ map fst (pl_results p))" using that ids(1) by (simp add: pool_ids_def)
    then have "distinct (?left @ map fst (pl_results p))" using ids(2) by (metis mset_eq_imp_distinct_iff)
    with mset_eq_setD [OF perm] show ?thesis by auto
  qed
  moreover have "subseq (pl_spawned p) (pl_accepted p)" using inv subseq_front unfolding pool_inv_def by blast
  ultimately show ?thesis using inv by (auto simp: pool_inv_def)
qed

section \<open>A closed pool comes to an end\<close>

text \<open>The steps of the runner and of the tasks, and a weight that each of them lowers.\<close>

fun is_work :: "('i, 'o) pool_label \<Rightarrow> bool" where
  "is_work (Submit _ _) = False"
| "is_work CancelShutdown = False"
| "is_work CloseQueue = False"
| "is_work (NotifyDropped _) = False"
| "is_work Tick = False"
| "is_work _ = True"

fun runner_weight :: "'i runner \<Rightarrow> nat" where
  "runner_weight Receiving = 3"
| "runner_weight (Dequeued _) = 6"
| "runner_weight Draining = 2"
| "runner_weight Joining = 1"
| "runner_weight Exited = 0"

fun task_weight :: "string list \<Rightarrow> 'i envelope list \<Rightarrow> nat" where
  "task_weight started [] = 0"
| "task_weight started (env # envs) = (if env_id env \<in> set started then 1 else 2) + task_weight started envs"

definition pool_weight :: "('i, 'o) pool \<Rightarrow> nat" where
  "pool_weight p =
     4 * length (sq_items (pl_queue p)) + runner_weight (pl_runner p) + task_weight (pl_started p) (pl_running p)"

lemma task_weight_le: "task_weight started envs \<le> 2 * length envs"
  by (induction envs) auto

lemma task_weight_snoc: "task_weight started (envs @ [env]) \<le> task_weight started envs + 2"
  by (induction envs) auto

lemma task_weight_start_le: "task_weight (started @ [task]) envs \<le> task_weight started envs"
  by (induction envs) auto

lemma task_weight_start:
  "list_ex (\<lambda>env. env_id env = task) envs \<Longrightarrow> task \<notin> set started \<Longrightarrow> task_weight (started @ [task]) envs < task_weight started envs"
proof (induction envs)
  case (Cons env envs)
  then show ?case using task_weight_start_le [of started task envs] by (cases "env_id env = task") auto
qed simp

lemma task_weight_release_le: "task_weight started (filter P envs) \<le> task_weight started envs"
  by (induction envs) auto

lemma task_weight_release:
  "list_ex (\<lambda>env. env_id env = task) envs \<Longrightarrow>
     task_weight started (filter (\<lambda>env. env_id env \<noteq> task) envs) < task_weight started envs"
proof (induction envs)
  case (Cons env envs)
  then show ?case using task_weight_release_le [of started "\<lambda>env. env_id env \<noteq> task" envs]
    by (cases "env_id env = task") auto
qed simp

lemma runner_weight_0 [simp]: "runner_weight r = 0 \<longleftrightarrow> r = Exited"
  by (cases r) simp_all

lemma work_lowers_weight: "pool_fire l p = Some p' \<Longrightarrow> is_work l \<Longrightarrow> pool_weight p' < pool_weight p"
proof (induction l p rule: pool_fire.induct)
  case (4 p)
  then obtain env where "pl_runner p = Dequeued env" "pl_runner p' = Receiving" "pl_running p' = pl_running p @ [env]"
    "pl_started p' = pl_started p" "pl_queue p' = pl_queue p" by (auto split: runner.splits if_splits)
  then show ?case using task_weight_snoc [of "pl_started p" "pl_running p" env] by (simp add: pool_weight_def)
qed (auto simp: pool_op_defs pool_weight_def is_running_def task_weight_start task_weight_release neq0_conv [symmetric] simp del: neq0_conv
      split: if_splits runner.splits list.splits sum.splits)

lemma closed_stays:
  assumes "pool_fire l p = Some p'" "sq_closed (pl_queue p)"
  shows "sq_closed (pl_queue p') \<and> (\<not> is_work l \<longrightarrow> pool_weight p' = pool_weight p)"
  using assms
proof (induction l p rule: pool_fire.induct)
  case (1 task input p)
  then have "p' = p" by (auto split: if_splits prod.splits option.splits elim: pool_submit_cases)
  with 1 show ?case by simp
qed (auto simp: pool_op_defs pool_weight_def split: if_splits runner.splits list.splits)

lemma closed_work_bounded:
  "pool_run ls p = Some p' \<Longrightarrow> sq_closed (pl_queue p) \<Longrightarrow>
     length (filter is_work ls) + pool_weight p' \<le> pool_weight p"
proof (induction ls arbitrary: p)
  case (Cons l ls)
  then obtain p1 where p1: "pool_fire l p = Some p1" "pool_run ls p1 = Some p'" by (auto simp: bind_eq_Some_conv)
  with Cons closed_stays [OF p1(1)] have "length (filter is_work ls) + pool_weight p' \<le> pool_weight p1" by simp
  then show ?case using work_lowers_weight [OF p1(1)] closed_stays [OF p1(1) Cons.prems(2)] by (cases "is_work l") auto
qed simp

text \<open>A spawned task can always go on: it is started, or it can end.\<close>

lemma running_progress:
  assumes "pl_running p \<noteq> []"
  shows "\<exists>l. is_work l \<and> l \<noteq> AbortRunner \<and> pool_fire l p \<noteq> None"
proof -
  obtain env envs where env: "pl_running p = env # envs" using assms by (cases "pl_running p") auto
  show ?thesis
  proof (cases "env_id env \<in> set (pl_started p)")
    case True
    with env show ?thesis by (intro exI [of _ "TaskPanic (env_id env)"]) (simp add: is_running_def)
  next
    case False
    with env show ?thesis by (intro exI [of _ "TaskStart (env_id env)"]) (simp add: is_running_def)
  qed
qed

lemma closed_progress:
  assumes "pool_inv p" "sq_closed (pl_queue p)" "pl_runner p \<noteq> Exited"
  shows "\<exists>l. is_work l \<and> l \<noteq> AbortRunner \<and> pool_fire l p \<noteq> None"
proof (cases "pl_runner p")
  case Receiving
  with assms show ?thesis by (intro exI [of _ RunnerShutdown]) (simp add: pool_inv_def)
next
  case (Dequeued env)
  with assms show ?thesis by (intro exI [of _ RunnerShutdown]) (simp add: pool_inv_def)
next
  case Draining
  with assms show ?thesis by (intro exI [of _ DrainRecv]) (simp add: queue_recv_def split: list.split)
next
  case Joining
  show ?thesis
  proof (cases "pl_running p = []")
    case True
    with Joining show ?thesis by (intro exI [of _ JoinEnd]) simp
  qed (rule running_progress)
qed (use assms in simp)

text \<open>
  C28. Once the queue is closed, the runner comes to its end: the runner and the tasks have at most four steps for each queued
  task, two for each running one and six of the runner's own left, whoever else submits or closes in
  between, and as long as the runner has not exited, or tasks are running, one of them has a step to make.
\<close>

theorem closed_pool_terminates:
  assumes "reach (\<lambda>p. \<exists>config now. p = pool_new config now) pool_step p" "sq_closed (pl_queue p)"
  shows "(\<forall>ls p'. pool_run ls p = Some p' \<longrightarrow>
       length (filter is_work ls) \<le> 4 * length (sq_items (pl_queue p)) + 2 * length (pl_running p) + 6) \<and>
     (pl_runner p \<noteq> Exited \<or> pl_running p \<noteq> [] \<longrightarrow> (\<exists>l. is_work l \<and> l \<noteq> AbortRunner \<and> pool_fire l p \<noteq> None))"
proof (intro conjI allI impI)
  fix ls p'
  assume "pool_run ls p = Some p'"
  from closed_work_bounded [OF this assms(2)]
  have "length (filter is_work ls) \<le> pool_weight p" by simp
  also have "\<dots> \<le> 4 * length (sq_items (pl_queue p)) + 2 * length (pl_running p) + 6"
    using task_weight_le [of "pl_started p" "pl_running p"] by (cases "pl_runner p") (simp_all add: pool_weight_def)
  finally show "length (filter is_work ls) \<le> 4 * length (sq_items (pl_queue p)) + 2 * length (pl_running p) + 6" .
next
  assume "pl_runner p \<noteq> Exited \<or> pl_running p \<noteq> []"
  then show "\<exists>l. is_work l \<and> l \<noteq> AbortRunner \<and> pool_fire l p \<noteq> None"
    using closed_progress [OF pool_runs.inv_reach [OF assms(1)] assms(2)] running_progress [of p] by blast
qed

subsection \<open>Runs at concrete pools\<close>

lemma pool_run_reach: "pool_run ls p = Some p' \<Longrightarrow> reach init pool_step p \<Longrightarrow> reach init pool_step p'"
proof (induction ls arbitrary: p)
  case (Cons l ls)
  then obtain p1 where "pool_fire l p = Some p1" "pool_run ls p1 = Some p'" by (auto simp: bind_eq_Some_conv)
  moreover from this have "reach init pool_step p1"
    using Cons.prems(2) reach.reach_step pool_step_def by metis
  ultimately show ?case using Cons.IH by blast
qed simp

lemma pool_run_from_new:
  "pool_run ls (pool_new config now) = Some p \<Longrightarrow> reach (\<lambda>p. \<exists>config now. p = pool_new config now) pool_step p"
  by (erule pool_run_reach, rule reach.reach_init, intro exI, rule refl)

definition sample_config :: pool_config where
  "sample_config = with_overflow_policy DropOldest (with_queue_size 1 (with_size 1 (pool_config_new None ''p'')))"

definition sample_run :: "(nat, nat) pool_label list" where
  "sample_run = [Submit ''a'' 1, RunnerRecv, RunnerPermit, Submit ''b'' 2, Submit ''c'' 3, NotifyDropped 0, CancelShutdown, CloseQueue]"

definition sample_end :: "(nat, nat) pool_label list" where
  "sample_end = [TaskStart ''a'', TaskDone ''a'' (Inr 7), RunnerShutdown, DrainRecv, DrainRecv, JoinEnd]"

lemmas sample_defs = sample_config_def sample_run_def sample_end_def pool_new_def pool_config_new_def pool_config_default_def
  with_overflow_policy_def with_queue_size_def with_size_def submit_queue_new_def pool_submit_def push_drop_oldest_def
  is_running_def pool_op_defs

theorem pool_answers_every_task_witness:
  "\<exists>p. pool_run (sample_run @ sample_end) (pool_new sample_config 0) = Some p \<and> pl_runner p = Exited \<and>
     set (map fst (pl_results p)) = {''a'', ''b'', ''c''}"
proof -
  have "map_option (\<lambda>p. (pl_runner p, pl_accepted p, pl_aborted p, pl_dropping p)) (pool_run (sample_run @ sample_end) (pool_new sample_config 0)) =
      Some (Exited, [''a'', ''b'', ''c''], False, [])" by (simp add: sample_defs)
  then obtain p where p: "pool_run (sample_run @ sample_end) (pool_new sample_config 0) = Some p"
    "pl_runner p = Exited" "pl_accepted p = [''a'', ''b'', ''c'']" "\<not> pl_aborted p" "pl_dropping p = []" by auto
  have "reach (\<lambda>p. \<exists>config now. p = pool_new config now) pool_step p"
    using p(1) by (rule pool_run_from_new)
  note facts = pool_answers_every_task [OF this]
  have "set (pl_accepted p) - set (map fst (pl_results p)) = {}" "set (map fst (pl_results p)) \<subseteq> set (pl_accepted p)"
    using facts p(2,4,5) by simp_all
  then have "set (map fst (pl_results p)) = {''a'', ''b'', ''c''}" unfolding p(3) by auto
  with p show ?thesis by blast
qed

theorem closed_pool_terminates_witness:
  "\<exists>p. pool_run sample_run (pool_new sample_config 0) = Some p \<and> sq_closed (pl_queue p) \<and>
     (\<exists>l. is_work l \<and> pool_fire l p \<noteq> None)"
proof -
  have "map_option (\<lambda>p. (pl_runner p, sq_closed (pl_queue p))) (pool_run sample_run (pool_new sample_config 0)) =
      Some (Receiving, True)" by (simp add: sample_defs)
  then obtain p where p: "pool_run sample_run (pool_new sample_config 0) = Some p" "pl_runner p = Receiving"
    "sq_closed (pl_queue p)" by auto
  have "reach (\<lambda>p. \<exists>config now. p = pool_new config now) pool_step p"
    using p(1) by (rule pool_run_from_new)
  from closed_pool_terminates [OF this p(3)] p show ?thesis by auto
qed

end
