(* ===== verification/Chain.thy ===== *)
theory Chain
  imports Errors
begin

text \<open>
  Typed step chains with compensation, \<^verbatim>\<open>core/rskit-chain/src\<close>: steps (\<^verbatim>\<open>operation.rs\<close>), the builder that nests one runner
  per step (\<^verbatim>\<open>builder.rs\<close>) and the executor with its cleanups (\<^verbatim>\<open>executor.rs\<close>). The types of the intermediate values are one type of
  values here. Steps and cleanups act on a world, in which cancellation can be read at any time.
\<close>

section \<open>Steps\<close>

datatype step_status = Running | Completed

record step_progress =
  sp_step_index :: nat
  sp_step_id :: string
  sp_status :: step_status
  sp_percent :: nat
  sp_message :: "string option"

text \<open>
  The context of a whole chain, and that of one step: the progress callback of a step reports percentages up to 100.
\<close>

record 'w chain_context =
  cx_progress :: "(step_progress \<Rightarrow> 'w \<Rightarrow> 'w) option"
  cx_cancelled :: "'w \<Rightarrow> bool"

record 'w step_context =
  sx_cancelled :: "'w \<Rightarrow> bool"
  sx_progress :: "(nat \<Rightarrow> string option \<Rightarrow> 'w \<Rightarrow> 'w) option"

definition step_context_progress :: "'w step_context \<Rightarrow> nat \<Rightarrow> string option \<Rightarrow> 'w \<Rightarrow> 'w" where
  "step_context_progress cx percent message w =
     (case sx_progress cx of Some progress \<Rightarrow> progress (min percent 100) message w | None \<Rightarrow> w)"

type_synonym 'w cleanup = "'w \<Rightarrow> 'w \<times> unit app_result"

record ('w, 'v) step =
  stp_id :: string
  stp_name :: string
  stp_execute :: "'v \<Rightarrow> 'w step_context \<Rightarrow> 'w \<Rightarrow> 'w \<times> 'v app_result"
  stp_cleanup :: "'w cleanup option"

definition step_new :: "string \<Rightarrow> string \<Rightarrow> ('v \<Rightarrow> 'w step_context \<Rightarrow> 'w \<Rightarrow> 'w \<times> 'v app_result) \<Rightarrow> ('w, 'v) step" where
  "step_new sid name execute = \<lparr>stp_id = sid, stp_name = name, stp_execute = execute, stp_cleanup = None\<rparr>"

definition step_from_fn :: "string \<Rightarrow> ('v \<Rightarrow> 'w step_context \<Rightarrow> 'w \<Rightarrow> 'w \<times> 'v app_result) \<Rightarrow> ('w, 'v) step" where
  "step_from_fn sid execute = step_new sid sid execute"

definition with_cleanup :: "'w cleanup \<Rightarrow> ('w, 'v) step \<Rightarrow> ('w, 'v) step" where
  "with_cleanup cleanup s = s\<lparr>stp_cleanup := Some cleanup\<rparr>"

section \<open>The chain\<close>

record ('w, 'v) chain_state =
  cs_output :: 'v
  cs_cleanups :: "'w cleanup list"

type_synonym ('w, 'v) chain_runner = "'v \<Rightarrow> 'w chain_context \<Rightarrow> 'w \<Rightarrow> 'w \<times> ('w, 'v) chain_state app_result"

record ('w, 'v) chain_builder =
  cb_step_count :: nat
  cb_runner :: "('w, 'v) chain_runner"

text \<open>The loop of \<^verbatim>\<open>run_cleanups\<close>, which pops from the end: on the reversed list.\<close>

fun cleanup_loop :: "'w cleanup list \<Rightarrow> app_error option \<Rightarrow> 'w \<Rightarrow> 'w \<times> unit app_result" where
  "cleanup_loop [] err w = (w, case err of None \<Rightarrow> Inr () | Some e \<Rightarrow> Inl e)"
| "cleanup_loop (cleanup # cleanups) err w =
     (case cleanup w of
        (w', Inr _) \<Rightarrow> cleanup_loop cleanups err w'
      | (w', Inl e) \<Rightarrow>
          cleanup_loop cleanups
            (Some (case err of
                     Some existing \<Rightarrow> context_msg (''additional chain cleanup failed: '' @ app_error_display e) existing
                   | None \<Rightarrow> context_msg ''chain cleanup failed'' e)) w')"

definition run_cleanups :: "'w cleanup list \<Rightarrow> 'w \<Rightarrow> 'w \<times> unit app_result" where
  "run_cleanups cleanups w = cleanup_loop (rev cleanups) None w"

definition emit_progress :: "'w chain_context \<Rightarrow> nat \<Rightarrow> string \<Rightarrow> step_status \<Rightarrow> nat \<Rightarrow> string option \<Rightarrow> 'w \<Rightarrow> 'w" where
  "emit_progress cx index sid status percent message w =
     (case cx_progress cx of
        Some progress \<Rightarrow>
          progress \<lparr>sp_step_index = index, sp_step_id = sid, sp_status = status, sp_percent = percent,
                    sp_message = message\<rparr> w
      | None \<Rightarrow> w)"

definition chain_cancelled_error :: "string \<Rightarrow> app_error" where
  "chain_cancelled_error sid = with_detail ''step'' (JString sid) (app_error_new Cancelled ''chain cancelled'')"

definition step_context_for :: "'w chain_context \<Rightarrow> nat \<Rightarrow> string \<Rightarrow> 'w step_context" where
  "step_context_for cx index sid =
     \<lparr>sx_cancelled = cx_cancelled cx,
      sx_progress = map_option (\<lambda>progress percent message.
        progress \<lparr>sp_step_index = index, sp_step_id = sid, sp_status = Running, sp_percent = percent,
                  sp_message = message\<rparr>) (cx_progress cx)\<rparr>"

definition chain_builder_new :: "('w, 'v) chain_builder" where
  "chain_builder_new =
     \<lparr>cb_step_count = 0, cb_runner = (\<lambda>input _ w. (w, Inr \<lparr>cs_output = input, cs_cleanups = []\<rparr>))\<rparr>"

text \<open>A failing step compensates the steps before it and adds a failure of that to its error.\<close>

definition abandon :: "app_error \<Rightarrow> 'w cleanup list \<Rightarrow> 'w \<Rightarrow> 'w \<times> 'a app_result" where
  "abandon error cleanups w =
     (case run_cleanups cleanups w of
        (w', Inr _) \<Rightarrow> (w', Inl error)
      | (w', Inl cleanup_error) \<Rightarrow> (w', Inl (context_msg (app_error_display cleanup_error) error)))"

definition builder_step :: "('w, 'v) step \<Rightarrow> ('w, 'v) chain_builder \<Rightarrow> ('w, 'v) chain_builder" where
  "builder_step s b =
     (let previous = cb_runner b; index = cb_step_count b in
      \<lparr>cb_step_count = index + 1,
       cb_runner = (\<lambda>input cx w.
         case previous input cx w of
           (w1, Inl e) \<Rightarrow> (w1, Inl e)
         | (w1, Inr state) \<Rightarrow>
             if cx_cancelled cx w1 then abandon (chain_cancelled_error (stp_id s)) (cs_cleanups state) w1
             else
               case stp_execute s (cs_output state) (step_context_for cx index (stp_id s))
                      (emit_progress cx index (stp_id s) Running 0 None w1) of
                 (w2, Inl e) \<Rightarrow>
                   abandon (context_msg (''chain step `'' @ stp_id s @ ''` failed'') e) (cs_cleanups state) w2
               | (w2, Inr out) \<Rightarrow>
                   (emit_progress cx index (stp_id s) Completed 100 None w2,
                    Inr \<lparr>cs_output = out,
                         cs_cleanups = cs_cleanups state @
                           (case stp_cleanup s of Some cleanup \<Rightarrow> [cleanup] | None \<Rightarrow> [])\<rparr>))\<rparr>)"

definition chain_execute :: "('w, 'v) chain_builder \<Rightarrow> 'v \<Rightarrow> 'w chain_context \<Rightarrow> 'w \<Rightarrow> 'w \<times> 'v app_result" where
  "chain_execute b input cx w =
     (case cb_runner b input cx w of (w', Inl e) \<Rightarrow> (w', Inl e) | (w', Inr state) \<Rightarrow> (w', Inr (cs_output state)))"

definition chain_len :: "('w, 'v) chain_builder \<Rightarrow> nat" where
  "chain_len b = cb_step_count b"

definition chain_is_empty :: "('w, 'v) chain_builder \<Rightarrow> bool" where
  "chain_is_empty b = (cb_step_count b = 0)"

definition chain_of :: "('w, 'v) step list \<Rightarrow> ('w, 'v) chain_builder" where
  "chain_of steps = foldl (\<lambda>b s. builder_step s b) chain_builder_new steps"

section \<open>Forward, then back\<close>

text \<open>
  What a chain is to do, without any nesting: \<open>forward\<close> runs the steps until one fails or cancellation is seen and
  tells how many were completed; then the cleanups of the completed steps run, last one first.
\<close>

fun forward :: "'w chain_context \<Rightarrow> nat \<Rightarrow> ('w, 'v) step list \<Rightarrow> 'v \<Rightarrow> 'w \<Rightarrow> 'w \<times> (nat \<times> app_error + 'v)" where
  "forward cx i [] v w = (w, Inr v)"
| "forward cx i (s # ss) v w =
     (if cx_cancelled cx w then (w, Inl (i, chain_cancelled_error (stp_id s)))
      else
        case stp_execute s v (step_context_for cx i (stp_id s)) (emit_progress cx i (stp_id s) Running 0 None w) of
          (w1, Inl e) \<Rightarrow> (w1, Inl (i, context_msg (''chain step `'' @ stp_id s @ ''` failed'') e))
        | (w1, Inr v1) \<Rightarrow> forward cx (i + 1) ss v1 (emit_progress cx i (stp_id s) Completed 100 None w1))"

definition cleanups_of :: "('w, 'v) step list \<Rightarrow> 'w cleanup list" where
  "cleanups_of steps = List.map_filter stp_cleanup steps"

lemma forward_snoc:
  "forward cx i (ss @ [s]) v w =
     (case forward cx i ss v w of
        (w1, Inl r) \<Rightarrow> (w1, Inl r)
      | (w1, Inr v1) \<Rightarrow> forward cx (i + length ss) [s] v1 w1)"
  by (induction ss arbitrary: i v w) (auto split: prod.splits sum.splits)

lemma forward_index: "forward cx i ss v w = (w', Inl (k, e)) \<Longrightarrow> i \<le> k \<and> k < i + length ss"
  by (induction ss arbitrary: i v w) (force split: if_splits prod.splits sum.splits)+

lemma chain_of_snoc: "chain_of (ss @ [s]) = builder_step s (chain_of ss)"
  by (simp add: chain_of_def)

lemma chain_count: "cb_step_count (chain_of ss) = length ss"
  by (induction ss rule: rev_induct) (simp_all add: chain_of_snoc builder_step_def Let_def, simp add: chain_of_def chain_builder_new_def)

lemma cleanups_of_snoc:
  "cleanups_of (ss @ [s]) = cleanups_of ss @ (case stp_cleanup s of Some c \<Rightarrow> [c] | None \<Rightarrow> [])"
  by (simp add: cleanups_of_def map_filter_def split: option.split)

lemma runner_forward:
  "cb_runner (chain_of ss) v cx w =
     (case forward cx 0 ss v w of
        (w1, Inr v1) \<Rightarrow> (w1, Inr \<lparr>cs_output = v1, cs_cleanups = cleanups_of ss\<rparr>)
      | (w1, Inl (k, e)) \<Rightarrow> abandon e (cleanups_of (take k ss)) w1)"
proof (induction ss rule: rev_induct)
  case Nil
  then show ?case by (simp add: chain_of_def chain_builder_new_def cleanups_of_def map_filter_def)
next
  case (snoc s ss)
  show ?case
  proof (cases "forward cx 0 ss v w")
    case (Pair w1 r)
    show ?thesis
    proof (cases r)
      case (Inl ke)
      obtain k e where ke: "ke = (k, e)" by (cases ke)
      have "k < length ss" using forward_index [of cx 0 ss v w w1 k e] Pair Inl ke by simp
      then show ?thesis using snoc Pair Inl ke
        by (simp add: chain_of_snoc builder_step_def Let_def forward_snoc abandon_def split: prod.splits sum.splits)
    next
      case (Inr v1)
      with snoc Pair show ?thesis
        by (auto simp: chain_of_snoc builder_step_def Let_def forward_snoc chain_count cleanups_of_snoc
            split: prod.splits sum.splits)
    qed
  qed
qed

text \<open>
  Running cleanups one after the other, whatever they return: the world and the errors. The first error that a cleanup reports
  leads, every later one is added to it.
\<close>

fun cleanup_all :: "'w cleanup list \<Rightarrow> 'w \<Rightarrow> 'w \<times> app_error list" where
  "cleanup_all [] w = (w, [])"
| "cleanup_all (c # cs) w =
     (case c w of (w1, r) \<Rightarrow> case cleanup_all cs w1 of (w2, es) \<Rightarrow> (w2, (case r of Inl e \<Rightarrow> [e] | Inr _ \<Rightarrow> []) @ es))"

definition add_cleanup_error :: "app_error \<Rightarrow> app_error \<Rightarrow> app_error" where
  "add_cleanup_error e report = context_msg (''additional chain cleanup failed: '' @ app_error_display e) report"

definition cleanup_report :: "app_error list \<Rightarrow> app_error option" where
  "cleanup_report errors =
     (case errors of [] \<Rightarrow> None | e # es \<Rightarrow> Some (fold add_cleanup_error es (context_msg ''chain cleanup failed'' e)))"

definition with_cleanup_report :: "app_error list \<Rightarrow> app_error \<Rightarrow> app_error" where
  "with_cleanup_report errors error =
     (case cleanup_report errors of None \<Rightarrow> error | Some report \<Rightarrow> context_msg (app_error_display report) error)"

lemma cleanup_loop_reported:
  "cleanup_loop cs (Some report) w =
     (case cleanup_all cs w of (w', es) \<Rightarrow> (w', Inl (fold add_cleanup_error es report)))"
  by (induction cs arbitrary: report w) (auto simp: add_cleanup_error_def split: prod.splits sum.splits)

lemma cleanup_loop_all:
  "cleanup_loop cs None w =
     (case cleanup_all cs w of (w', es) \<Rightarrow> (w', case cleanup_report es of None \<Rightarrow> Inr () | Some report \<Rightarrow> Inl report))"
  by (induction cs arbitrary: w) (auto simp: cleanup_report_def cleanup_loop_reported split: prod.splits sum.splits)

lemma abandon_all:
  "abandon error cs w = (case cleanup_all (rev cs) w of (w', es) \<Rightarrow> (w', Inl (with_cleanup_report es error)))"
  by (auto simp: abandon_def run_cleanups_def cleanup_loop_all with_cleanup_report_def split: prod.splits option.splits)

lemma with_cleanup_report_code: "err_code (with_cleanup_report es e) = err_code e"
  by (simp add: with_cleanup_report_def context_msg_def split: option.split)

text \<open>
  C29. A chain runs its steps in order until one fails or cancellation is seen. Then, and only then, the cleanups of the
  steps completed before run, each exactly once, the last step's first, even when some of
  them fail. The error is that of what stopped the chain, with its code; if cleanups failed, it has the report of all their
  errors as its context, the first of them leading, and it is unchanged if none did.
\<close>

theorem chain_compensates:
  "case forward cx 0 steps v w of
     (w1, Inr v1) \<Rightarrow> chain_execute (chain_of steps) v cx w = (w1, Inr v1)
   | (w1, Inl (k, e)) \<Rightarrow>
       k < length steps \<and>
       (case cleanup_all (rev (cleanups_of (take k steps))) w1 of
          (w2, errors) \<Rightarrow>
            chain_execute (chain_of steps) v cx w = (w2, Inl (with_cleanup_report errors e)) \<and>
            err_code (with_cleanup_report errors e) = err_code e)"
proof -
  obtain w1 r where f: "forward cx 0 steps v w = (w1, r)" by (cases "forward cx 0 steps v w")
  show ?thesis
  proof (cases r)
    case (Inr v1)
    with f show ?thesis by (simp add: chain_execute_def runner_forward)
  next
    case (Inl ke)
    obtain k e where ke: "ke = (k, e)" by (cases ke)
    have "k < length steps" using forward_index [of cx 0 steps v w w1 k e] f Inl ke by simp
    then show ?thesis using f Inl ke
      by (simp add: chain_execute_def runner_forward abandon_all with_cleanup_report_code split_beta)
  qed
qed

end
