(* ===== verification/Di_Container.thy ===== *)
theory Di_Container
  imports Errors
begin

text \<open>
  The dependency container, \<^verbatim>\<open>core/rskit-di/src/container.rs\<close> and \<^verbatim>\<open>typed.rs\<close>: eager values, factories and singletons keyed by type and
  name, resolution with the thread-local stack that detects cycles, and the disposal of closeable values. A factory
  is arbitrary code that may resolve further values, of its own and of other containers, before it
  returns; it is modelled by the tree of these requests.
\<close>

section \<open>Values, factories and registrations\<close>

type_synonym key = "string \<times> string option"

definition key_label :: "key \<Rightarrow> string" where
  "key_label k = (case snd k of Some name \<Rightarrow> fst k @ '':'' @ name | None \<Rightarrow> fst k)"

text \<open>A value of any type, with the identity of its type.\<close>

record 'v arc_any =
  any_type :: string
  any_value :: 'v

datatype 'v factory =
    Return "'v arc_any app_result"
  | Resolve nat key "'v arc_any app_result \<Rightarrow> 'v factory"

text \<open>A singleton's cell is shared between the registration and the list of closeables: \<open>nat\<close> names the cell.\<close>

datatype 'v registration =
    Eager "'v arc_any"
  | Lazy "'v factory"
  | Singleton nat "'v factory"

datatype 'v closeable_registration = CloseEager "'v arc_any" | CloseSingleton nat

record 'v closeable_entry =
  ce_label :: string
  ce_registration :: "'v closeable_registration"

record 'v container =
  ct_registrations :: "(key, 'v registration) hashmap"
  ct_closeables :: "'v closeable_entry list"

definition container_new :: "'v container" where
  "container_new = \<lparr>ct_registrations = [], ct_closeables = []\<rparr>"

definition register_keyed :: "key \<Rightarrow> 'v arc_any \<Rightarrow> 'v container \<Rightarrow> 'v container" where
  "register_keyed k v c = c\<lparr>ct_registrations := hm_insert k (Eager v) (ct_registrations c)\<rparr>"

definition register_closeable_keyed :: "key \<Rightarrow> 'v arc_any \<Rightarrow> 'v container \<Rightarrow> 'v container" where
  "register_closeable_keyed k v c =
     c\<lparr>ct_registrations := hm_insert k (Eager v) (ct_registrations c),
       ct_closeables := ct_closeables c @ [\<lparr>ce_label = key_label k, ce_registration = CloseEager v\<rparr>]\<rparr>"

definition register_factory_keyed :: "key \<Rightarrow> 'v factory \<Rightarrow> 'v container \<Rightarrow> 'v container" where
  "register_factory_keyed k f c = c\<lparr>ct_registrations := hm_insert k (Lazy f) (ct_registrations c)\<rparr>"

definition register_singleton_keyed :: "nat \<Rightarrow> key \<Rightarrow> 'v factory \<Rightarrow> 'v container \<Rightarrow> 'v container" where
  "register_singleton_keyed s k f c = c\<lparr>ct_registrations := hm_insert k (Singleton s f) (ct_registrations c)\<rparr>"

definition register_singleton_closeable_keyed :: "nat \<Rightarrow> key \<Rightarrow> 'v factory \<Rightarrow> 'v container \<Rightarrow> 'v container" where
  "register_singleton_closeable_keyed s k f c =
     c\<lparr>ct_registrations := hm_insert k (Singleton s f) (ct_registrations c),
       ct_closeables := ct_closeables c @ [\<lparr>ce_label = key_label k, ce_registration = CloseSingleton s\<rparr>]\<rparr>"

definition is_registered :: "key \<Rightarrow> 'v container \<Rightarrow> bool" where
  "is_registered k c = hm_contains (ct_registrations c) k"

section \<open>Resolution\<close>

text \<open>
  The cells of the singletons: the values built so far, and the order in which their factories returned one.
\<close>

record 'v cells =
  cl_values :: "(nat, 'v arc_any) hashmap"
  cl_built :: "nat list"

definition cells_empty :: "'v cells" where
  "cells_empty = \<lparr>cl_values = [], cl_built = []\<rparr>"

definition store_cell :: "nat \<Rightarrow> 'v arc_any \<Rightarrow> 'v cells \<Rightarrow> 'v cells" where
  "store_cell s v cells = cells\<lparr>cl_values := hm_insert s v (cl_values cells), cl_built := cl_built cells @ [s]\<rparr>"

definition circular_error :: "key \<Rightarrow> app_error" where
  "circular_error k = app_error_new Conflict (''circular dependency detected while resolving '' @ key_label k)"

definition downcast :: "key \<Rightarrow> 'v arc_any \<Rightarrow> 'v arc_any app_result" where
  "downcast k v =
     (if any_type v = fst k then Inr v else Inl (app_error_new Internal ''type downcast failed in DI container''))"

definition registration_of :: "'v container list \<Rightarrow> nat \<Rightarrow> key \<Rightarrow> 'v registration option" where
  "registration_of cs c k = (if c < length cs then hm_get (ct_registrations (cs ! c)) k else None)"

definition registered_keys :: "'v container list \<Rightarrow> key set" where
  "registered_keys cs = (\<Union>c\<in>set cs. hm_keys (ct_registrations c))"

lemma finite_registered_keys [simp]: "finite (registered_keys cs)"
  by (simp add: registered_keys_def)

lemma registration_of_key: "registration_of cs c k = Some r \<Longrightarrow> k \<in> registered_keys cs"
  by (auto simp: registration_of_def registered_keys_def hm_keys_def split: if_splits dest!: map_of_SomeD intro!: bexI [of _ "cs ! c"] rev_image_eqI)

text \<open>Progress through a factory's requests.\<close>

inductive_set factory_order :: "('v factory option \<times> 'v factory option) set" where
  request: "(None, Some f) \<in> factory_order"
| continue: "(Some (cont r), Some (Resolve c k cont)) \<in> factory_order"

lemma wf_factory_order: "wf factory_order"
proof (rule wfUNIVI)
  fix P :: "'v factory option \<Rightarrow> bool" and x
  assume *: "\<forall>x. (\<forall>y. (y, x) \<in> factory_order \<longrightarrow> P y) \<longrightarrow> P x"
  have none: "P None" by (rule *[rule_format]) (erule factory_order.cases, simp_all)
  have "P (Some f)" for f
  proof (induction f)
    case (Return r)
    show ?case by (rule *[rule_format]) (erule factory_order.cases, use none in simp_all)
  next
    case (Resolve c k cont)
    show ?case by (rule *[rule_format]) (erule factory_order.cases, use none Resolve in simp_all)
  qed
  with none show "P x" by (cases x) auto
qed

text \<open>
  \<open>resolve_keyed\<close> with the resolution stack of the calling thread, whose entry is removed on the way out, and the run
  of a factory under it. The stack holds keys, not containers. The mutex of a singleton's cell is held
  while its factory runs.
\<close>

function resolve_keyed :: "'v container list \<Rightarrow> key set \<Rightarrow> nat \<Rightarrow> key \<Rightarrow> 'v cells \<Rightarrow> 'v cells \<times> 'v arc_any app_result"
  and run_factory :: "'v container list \<Rightarrow> key set \<Rightarrow> 'v factory \<Rightarrow> 'v cells \<Rightarrow> 'v cells \<times> 'v arc_any app_result" where
  "resolve_keyed cs stack c k cells =
     (if k \<in> stack then (cells, Inl (circular_error k))
      else
        case registration_of cs c k of
          None \<Rightarrow> (cells, Inl (not_found (key_label k) None))
        | Some (Eager v) \<Rightarrow> (cells, downcast k v)
        | Some (Lazy f) \<Rightarrow>
            (case run_factory cs (insert k stack) f cells of
               (cells', Inl e) \<Rightarrow> (cells', Inl e)
             | (cells', Inr v) \<Rightarrow> (cells', downcast k v))
        | Some (Singleton s f) \<Rightarrow>
            (case hm_get (cl_values cells) s of
               Some v \<Rightarrow> (cells, downcast k v)
             | None \<Rightarrow>
                 (case run_factory cs (insert k stack) f cells of
                    (cells', Inl e) \<Rightarrow> (cells', Inl e)
                  | (cells', Inr v) \<Rightarrow> (store_cell s v cells', downcast k v))))"
| "run_factory cs stack (Return r) cells = (cells, r)"
| "run_factory cs stack (Resolve c k cont) cells =
     (case resolve_keyed cs stack c k cells of (cells', r) \<Rightarrow> run_factory cs stack (cont r) cells')"
  by pat_completeness auto
termination
proof (relation "inv_image (less_than <*lex*> factory_order)
    (case_sum (\<lambda>(cs, stack, c, k, cells). (card (registered_keys cs - stack), None))
              (\<lambda>(cs, stack, f, cells). (card (registered_keys cs - stack), Some f)))", goal_cases)
  case 1
  then show ?case by (intro wf_inv_image wf_lex_prod wf_less_than wf_factory_order)
next
  case (2 cs stack c k cells reg f)
  then have "k \<in> registered_keys cs - stack" by (auto dest: registration_of_key)
  then have "card (registered_keys cs - insert k stack) < card (registered_keys cs - stack)"
    by (intro psubset_card_mono) auto
  then show ?case by simp
next
  case (3 cs stack c k cells reg s f)
  then have "k \<in> registered_keys cs - stack" by (auto dest: registration_of_key)
  then have "card (registered_keys cs - insert k stack) < card (registered_keys cs - stack)"
    by (intro psubset_card_mono) auto
  then show ?case by simp
qed (auto intro: factory_order.intros)

declare resolve_keyed.simps [simp del]

text \<open>A thread that resolves values one after the other.\<close>

fun resolve_all :: "'v container list \<Rightarrow> (nat \<times> key) list \<Rightarrow> 'v cells \<Rightarrow> 'v cells \<times> 'v arc_any app_result list" where
  "resolve_all cs [] cells = (cells, [])"
| "resolve_all cs ((c, k) # rest) cells =
     (case resolve_keyed cs {} c k cells of (cells1, r) \<Rightarrow>
       case resolve_all cs rest cells1 of (cells2, rs) \<Rightarrow> (cells2, r # rs))"

section \<open>Disposal\<close>

definition closeable_of :: "'v cells \<Rightarrow> 'v closeable_registration \<Rightarrow> 'v arc_any option" where
  "closeable_of cells r = (case r of CloseEager v \<Rightarrow> Some v | CloseSingleton s \<Rightarrow> hm_get (cl_values cells) s)"

fun close_entries ::
    "('v arc_any \<Rightarrow> 'w \<Rightarrow> 'w \<times> unit app_result) \<Rightarrow> 'v cells \<Rightarrow> 'v closeable_entry list \<Rightarrow> 'w \<Rightarrow> 'w \<times> app_error list" where
  "close_entries close cells [] w = (w, [])"
| "close_entries close cells (entry # entries) w =
     (case closeable_of cells (ce_registration entry) of
        None \<Rightarrow> close_entries close cells entries w
      | Some v \<Rightarrow>
          (case close v w of
             (w1, r) \<Rightarrow>
               (case close_entries close cells entries w1 of
                  (w2, errs) \<Rightarrow>
                    (w2, (case r of
                            Inr _ \<Rightarrow> errs
                          | Inl e \<Rightarrow>
                              with_detail ''closeable'' (JString (ce_label entry))
                                (context_msg (''close '' @ ce_label entry) e) # errs)))))"

definition aggregate_close_errors :: "app_error list \<Rightarrow> app_error option" where
  "aggregate_close_errors errors =
     (case errors of
        [] \<Rightarrow> None
      | first # others \<Rightarrow>
          let rest = map err_message others in
          if rest = [] then Some first
          else
            let summary = ''(and '' @ show_nat (length rest) @ '' more error(s) while closing container: '' @
                          join ''; '' rest @ '')''
            in Some (hint summary (with_detail ''additional_close_errors'' (JArray (map JString rest)) first)))"

definition container_close ::
    "('v arc_any \<Rightarrow> 'w \<Rightarrow> 'w \<times> unit app_result) \<Rightarrow> 'v cells \<Rightarrow> 'v container \<times> 'w \<Rightarrow> ('v container \<times> 'w) \<times> unit app_result" where
  "container_close close cells st =
     (case st of (c, w) \<Rightarrow>
       case close_entries close cells (rev (ct_closeables c)) w of
         (w', errors) \<Rightarrow>
           ((c\<lparr>ct_closeables := []\<rparr>, w'),
            case aggregate_close_errors errors of Some e \<Rightarrow> Inl e | None \<Rightarrow> Inr ()))"

section \<open>Singletons are built once\<close>

text \<open>Every registration of a singleton makes a cell of its own, so that a cell has one key.\<close>

definition cells_wf :: "'v container list \<Rightarrow> bool" where
  "cells_wf cs \<longleftrightarrow>
     (\<forall>c k s f c' k' f'. registration_of cs c k = Some (Singleton s f) \<and>
        registration_of cs c' k' = Some (Singleton s f') \<longrightarrow> k = k')"

definition cells_inv :: "'v cells \<Rightarrow> bool" where
  "cells_inv cells \<longleftrightarrow> distinct (cl_built cells) \<and> set (cl_built cells) = hm_keys (cl_values cells)"

text \<open>
  What resolution under a stack does to the cells: values stay, those being resolved are left alone, and none is built
  twice.
\<close>

definition cells_step :: "'v container list \<Rightarrow> key set \<Rightarrow> 'v cells \<Rightarrow> 'v cells \<Rightarrow> bool" where
  "cells_step cs stack cells cells' \<longleftrightarrow>
     (\<forall>s v. hm_get (cl_values cells) s = Some v \<longrightarrow> hm_get (cl_values cells') s = Some v) \<and>
     (\<forall>c k s f. registration_of cs c k = Some (Singleton s f) \<and> k \<in> stack \<longrightarrow>
        hm_get (cl_values cells') s = hm_get (cl_values cells) s) \<and>
     (cells_inv cells \<longrightarrow> cells_inv cells')"

lemma cells_step_refl [simp]: "cells_step cs stack cells cells"
  by (simp add: cells_step_def)

lemma cells_step_trans: "cells_step cs stack a b \<Longrightarrow> cells_step cs stack b c \<Longrightarrow> cells_step cs stack a c"
  unfolding cells_step_def by (intro conjI) (blast, metis, blast)

lemma cells_step_weaken: "cells_step cs (insert k stack) a b \<Longrightarrow> cells_step cs stack a b"
  unfolding cells_step_def by blast

lemma cells_step_store:
  assumes "cells_wf cs" "registration_of cs c k = Some (Singleton s f)" "k \<notin> stack"
    "hm_get (cl_values a) s = None" "cells_step cs (insert k stack) a b"
  shows "cells_step cs stack a (store_cell s v b)"
proof -
  have fresh: "hm_get (cl_values b) s = None" using assms(2,4,5) unfolding cells_step_def by (metis insertI1)
  have "s' \<noteq> s" if "registration_of cs c' k' = Some (Singleton s' f')" "k' \<in> stack" for c' k' s' f'
    using that assms(1,2,3) unfolding cells_wf_def by metis
  moreover have "cells_inv b \<Longrightarrow> cells_inv (store_cell s v b)"
    using fresh by (auto simp: cells_inv_def store_cell_def hm_get_None_iff)
  moreover have "hm_get (cl_values (store_cell s v b)) s' = hm_get (cl_values b) s'" if "s' \<noteq> s" for s'
    using that by (simp add: store_cell_def)
  ultimately show ?thesis using assms(4,5) unfolding cells_step_def
    by (intro conjI) (metis option.distinct(1), metis insertI2, blast)
qed

lemma resolve_cells_step:
  assumes "cells_wf cs"
  shows "resolve_keyed cs stack c k cells = (cells', r) \<Longrightarrow> cells_step cs stack cells cells'"
    and "run_factory cs stack f cells = (cells', r) \<Longrightarrow> cells_step cs stack cells cells'"
  using assms
proof (induction cs stack c k cells and cs stack f cells arbitrary: cells' r and cells' r rule: resolve_keyed_run_factory.induct)
  case (1 cs stack c k cells)
  show ?case
  proof (cases "k \<in> stack \<or> registration_of cs c k = None")
    case True
    with 1(3) show ?thesis by (subst (asm) resolve_keyed.simps) (auto split: if_splits)
  next
    case False
    then obtain reg where reg: "k \<notin> stack" "registration_of cs c k = Some reg" by auto
    show ?thesis
    proof (cases reg)
      case (Eager v)
      with reg 1(3) show ?thesis by (subst (asm) resolve_keyed.simps) simp
    next
      case (Lazy f)
      obtain cells1 r1 where run: "run_factory cs (insert k stack) f cells = (cells1, r1)" by force
      with reg Lazy 1(3) have "cells' = cells1"
        by (subst (asm) resolve_keyed.simps) (auto split: sum.splits)
      with 1(1) [OF reg(1) reg(2) Lazy run 1(4)] show ?thesis by (blast intro: cells_step_weaken)
    next
      case (Singleton s f)
      show ?thesis
      proof (cases "hm_get (cl_values cells) s")
        case (Some v)
        with reg Singleton 1(3) show ?thesis by (subst (asm) resolve_keyed.simps) simp
      next
        case None
        obtain cells1 r1 where run: "run_factory cs (insert k stack) f cells = (cells1, r1)" by force
        note IH = 1(2) [OF reg(1) reg(2) Singleton None run 1(4)]
        from reg Singleton None run 1(3) have "cells' = cells1 \<or> (\<exists>v. cells' = store_cell s v cells1)"
          by (subst (asm) resolve_keyed.simps) (auto split: sum.splits)
        then show ?thesis
          using IH cells_step_store [OF 1(4) _ reg(1) None IH] reg Singleton by (auto intro: cells_step_weaken)
      qed
    qed
  qed
next
  case (3 cs stack c k cont cells)
  obtain cells1 r1 where first: "resolve_keyed cs stack c k cells = (cells1, r1)" by force
  with 3(3) have "run_factory cs stack (cont r1) cells1 = (cells', r)" by simp
  with 3(1) [OF first 3(4)] 3(2) [OF first [symmetric] _ 3(4)] show ?case by (blast intro: cells_step_trans)
qed simp

lemma resolve_all_cells:
  "cells_wf cs \<Longrightarrow> resolve_all cs ks cells = (cells', rs) \<Longrightarrow> cells_step cs {} cells cells'"
proof (induction ks arbitrary: cells cells' rs)
  case (Cons ck ks)
  obtain c k where ck: "ck = (c, k)" by (cases ck)
  obtain cells1 r where first: "resolve_keyed cs {} c k cells = (cells1, r)" by force
  obtain cells2 rs' where rest: "resolve_all cs ks cells1 = (cells2, rs')" by force
  from Cons.prems(2) ck first rest have "cells' = cells2" by simp
  with Cons.IH [OF Cons.prems(1) rest] resolve_cells_step(1) [OF Cons.prems(1) first] show ?case
    by (blast intro: cells_step_trans)
qed simp

lemma resolve_built:
  assumes "registration_of cs c k = Some (Singleton s f)" "hm_get (cl_values cells) s = Some v" "k \<notin> stack"
  shows "resolve_keyed cs stack c k cells = (cells, downcast k v)"
  using assms by (subst resolve_keyed.simps) simp

lemma resolve_singleton_stores:
  assumes "registration_of cs c k = Some (Singleton s f)" "resolve_keyed cs stack c k cells = (cells', Inr v)"
  shows "hm_get (cl_values cells') s = Some v"
  using assms(2) assms(1)
  by (subst (asm) resolve_keyed.simps)
    (auto simp: downcast_def store_cell_def split: if_splits option.splits sum.splits prod.splits)


definition one_singleton :: "nat container list" where
  "one_singleton =
     [register_singleton_keyed 0 (''T'', None) (Return (Inr \<lparr>any_type = ''T'', any_value = 7\<rparr>)) container_new]"


text \<open>
  The stack knows keys but not containers: a factory of one container that takes the value of the same type
  from another container is refused as circular, although nothing is.
\<close>

definition outer_inner :: "nat container list" where
  "outer_inner =
     [register_factory_keyed (''T'', None) (Resolve 1 (''T'', None) Return) container_new,
      register_keyed (''T'', None) \<lparr>any_type = ''T'', any_value = 7\<rparr> container_new]"

lemma other_container_refused:
  "resolve_keyed outer_inner {} 0 (''T'', None) cells_empty = (cells_empty, Inl (circular_error (''T'', None)))"
  "resolve_keyed outer_inner {} 1 (''T'', None) cells_empty = (cells_empty, Inr \<lparr>any_type = ''T'', any_value = 7\<rparr>)"
  by (simp_all add: resolve_keyed.simps outer_inner_def registration_of_def register_factory_keyed_def register_keyed_def
      container_new_def downcast_def)

section \<open>Everything is disposed of\<close>

definition closeables_of :: "'v cells \<Rightarrow> 'v closeable_entry list \<Rightarrow> 'v arc_any list" where
  "closeables_of cells es = List.map_filter (\<lambda>e. closeable_of cells (ce_registration e)) es"

text \<open>Closing values one after the other, whatever the results: the world and the results.\<close>

fun close_each :: "('v arc_any \<Rightarrow> 'w \<Rightarrow> 'w \<times> unit app_result) \<Rightarrow> 'v arc_any list \<Rightarrow> 'w \<Rightarrow> 'w \<times> unit app_result list" where
  "close_each close [] w = (w, [])"
| "close_each close (v # vs) w =
     (case close v w of (w1, r) \<Rightarrow> case close_each close vs w1 of (w2, rs) \<Rightarrow> (w2, r # rs))"

lemma close_entries_each:
  "\<exists>w' rs errs. close_entries close cells es w = (w', errs) \<and> close_each close (closeables_of cells es) w = (w', rs) \<and>
     (errs = [] \<longleftrightarrow> list_all is_ok rs)"
proof (induction es arbitrary: w)
  case (Cons e es)
  show ?case
  proof (cases "closeable_of cells (ce_registration e)")
    case None
    with Cons [of w] show ?thesis by (simp add: closeables_of_def map_filter_simps)
  next
    case (Some v)
    obtain w1 r where c: "close v w = (w1, r)" by force
    from Cons [of w1] Some c show ?thesis
      by (cases r) (auto simp: closeables_of_def map_filter_simps)
  qed
qed (simp add: closeables_of_def map_filter_simps)

lemma aggregate_None: "aggregate_close_errors errs = None \<longleftrightarrow> errs = []"
  by (auto simp: aggregate_close_errors_def Let_def split: list.splits)

text \<open>
  Closing a container closes every closeable value it recorded and every closeable singleton that was built, each exactly once and in
  the reverse order of registration, even when some of them fail; it succeeds exactly if all of them do.
  Closing again does nothing.
\<close>

lemma container_close_disposes_all:
  "\<exists>w' rs r. container_close close cells (c, w) = ((c\<lparr>ct_closeables := []\<rparr>, w'), r) \<and>
     close_each close (rev (closeables_of cells (ct_closeables c))) w = (w', rs) \<and> is_ok r = list_all is_ok rs \<and>
     container_close close cells (c\<lparr>ct_closeables := []\<rparr>, w') = ((c\<lparr>ct_closeables := []\<rparr>, w'), Inr ())"
proof -
  have "closeables_of cells (rev es) = rev (closeables_of cells es)" for es
    by (simp add: closeables_of_def map_filter_def rev_map rev_filter)
  then obtain w' rs errs where
    "close_entries close cells (rev (ct_closeables c)) w = (w', errs)"
    "close_each close (rev (closeables_of cells (ct_closeables c))) w = (w', rs)" "errs = [] \<longleftrightarrow> list_all is_ok rs"
    using close_entries_each [of close cells "rev (ct_closeables c)" w] by auto
  then show ?thesis
    by (auto simp: container_close_def aggregate_None aggregate_close_errors_def [of "[]"] split: option.split)
qed

end
