(* ===== verification/Sse_Bus.thy ===== *)
theory Sse_Bus
  imports Backoff Duration_Text "HOL-Library.Multiset" "HOL-Library.Word"
begin

text \<open>
  The bus of server-sent events of \<^verbatim>\<open>core/rskit-sse/src/bus.rs\<close>: event ids, the bounded replay buffer and resuming after
  a \<^verbatim>\<open>Last-Event-ID\<close>, over every interleaving of publishers and subscribers. The broadcast channel is tokio's, as documented: it
  retains the latest events up to its capacity, which is at least the one asked for; a receiver is a position in the sequence of the events
  sent, and one that fell behind what is retained is told so once and goes on with the oldest event retained.
\<close>

section \<open>The bus\<close>

record 'a sse_event =
  se_id :: string
  se_event :: "string option"
  se_retry :: "duration option"
  se_data :: 'a

record 'a sse_bus =
  sb_replay :: "'a sse_event list"
  sb_next_id :: "64 word"
  sb_capacity :: nat
  sb_retry :: "duration option"
  sb_channel :: nat
  sb_sent :: "'a sse_event list"

definition max_capacity :: nat where "max_capacity = 2 ^ 24"

definition validate_capacity :: "nat \<Rightarrow> unit app_result" where
  "validate_capacity capacity =
     (if capacity = 0 then Inl (invalid_input ''capacity'' ''SSE bus capacity must be greater than zero'')
      else if capacity > max_capacity
      then Inl (invalid_input ''capacity'' (''SSE bus capacity must be at most '' @ show_nat max_capacity))
      else Inr ())"

text \<open>\<open>channel\<close> tells the capacity of the broadcast channel that is made for the one asked for.\<close>

definition sse_new :: "(nat \<Rightarrow> nat) \<Rightarrow> nat \<Rightarrow> 'a sse_bus app_result" where
  "sse_new channel capacity =
     try_result (validate_capacity capacity)
       (\<lambda>_. Inr \<lparr>sb_replay = [], sb_next_id = 1, sb_capacity = capacity, sb_retry = None,
                    sb_channel = channel capacity, sb_sent = []\<rparr>)"

definition sse_with_retry :: "duration \<Rightarrow> 'a sse_bus \<Rightarrow> 'a sse_bus" where
  "sse_with_retry retry bus = bus\<lparr>sb_retry := Some retry\<rparr>"

definition push_replay :: "nat \<Rightarrow> 'a sse_event \<Rightarrow> 'a sse_event list \<Rightarrow> 'a sse_event list" where
  "push_replay capacity event replay = (if length replay = capacity then tl replay else replay) @ [event]"

text \<open>\<^verbatim>\<open>str::parse::<u64>\<close>: digits after an optional plus sign, in range.\<close>

definition parse_u64 :: "string \<Rightarrow> nat option" where
  "parse_u64 s =
     (let digits = (case s of c # rest \<Rightarrow> if c = CHR ''+'' then rest else s | [] \<Rightarrow> s)
      in if digits \<noteq> [] \<and> list_all is_digit digits \<and> digits_value digits < 2 ^ 64 then Some (digits_value digits) else None)"

definition replay_after :: "'a sse_event list \<Rightarrow> string option \<Rightarrow> 'a sse_event list" where
  "replay_after replay last_event_id =
     (case Option.bind last_event_id parse_u64 of
        None \<Rightarrow> replay
      | Some l \<Rightarrow> filter (\<lambda>event. case parse_u64 (se_id event) of Some i \<Rightarrow> l < i | None \<Rightarrow> False) replay)"

text \<open>The part of \<^verbatim>\<open>publish\<close> under the lock, and the send after the lock was released.\<close>

definition publish_locked :: "'a \<Rightarrow> 'a sse_bus \<Rightarrow> 'a sse_bus \<times> 'a sse_event" where
  "publish_locked payload bus =
     (let event = \<lparr>se_id = show_nat (unat (sb_next_id bus)), se_event = None, se_retry = sb_retry bus, se_data = payload\<rparr>
      in (bus\<lparr>sb_next_id := sb_next_id bus + 1, sb_replay := push_replay (sb_capacity bus) event (sb_replay bus)\<rparr>, event))"

definition publish_send :: "'a sse_event \<Rightarrow> 'a sse_bus \<Rightarrow> 'a sse_bus" where
  "publish_send event bus = bus\<lparr>sb_sent := sb_sent bus @ [event]\<rparr>"

text \<open>A call of \<^verbatim>\<open>publish\<close> with no other caller in between.\<close>

definition sse_publish :: "'a \<Rightarrow> 'a sse_bus \<Rightarrow> 'a sse_bus \<times> 'a sse_event app_result" where
  "sse_publish payload bus = (case publish_locked payload bus of (bus', event) \<Rightarrow> (publish_send event bus', Inr event))"

text \<open>
  The stream of a subscriber: what is left to replay, and the position of its receiver, the number of events sent before the next
  one to receive. \<open>subscribe\<close> replays nothing.
\<close>

record 'a subscription =
  sub_replay :: "'a sse_event list"
  sub_next :: nat

definition subscribe_live :: "'a sse_bus \<Rightarrow> 'a subscription" where
  "subscribe_live bus = \<lparr>sub_replay = [], sub_next = length (sb_sent bus)\<rparr>"

definition subscribe_after :: "string option \<Rightarrow> 'a sse_bus \<Rightarrow> 'a subscription" where
  "subscribe_after last_event_id bus =
     \<lparr>sub_replay = replay_after (sb_replay bus) last_event_id, sub_next = length (sb_sent bus)\<rparr>"

text \<open>Receiving at a position of a channel that retains \<open>capacity\<close> events: the position after it, and what was received.\<close>

datatype 'a received = Item 'a | Lagged nat | Empty

definition broadcast_recv :: "nat \<Rightarrow> 'e list \<Rightarrow> nat \<Rightarrow> nat \<times> 'e received" where
  "broadcast_recv capacity sent pos =
     (if length sent \<le> pos then (pos, Empty)
      else if pos + capacity < length sent then (length sent - capacity, Lagged (length sent - capacity - pos))
      else (Suc pos, Item (sent ! pos)))"

text \<open>
  One poll of the live stream, which drops the notice of a lag, and of the whole stream, which replays first. \<open>None\<close> is a poll without
  an event.
\<close>

definition live_stream_from :: "'a sse_bus \<Rightarrow> nat \<Rightarrow> nat \<times> 'a sse_event option" where
  "live_stream_from bus pos =
     (case broadcast_recv (sb_channel bus) (sb_sent bus) pos of
        (pos', Item event) \<Rightarrow> (pos', Some event)
      | (pos', Lagged _) \<Rightarrow> (pos', None)
      | (pos', Empty) \<Rightarrow> (pos', None))"

definition stream_next :: "'a sse_bus \<Rightarrow> 'a subscription \<Rightarrow> 'a subscription \<times> 'a sse_event option" where
  "stream_next bus s =
     (case sub_replay s of
        event # replay \<Rightarrow> (s\<lparr>sub_replay := replay\<rparr>, Some event)
      | [] \<Rightarrow> (case live_stream_from bus (sub_next s) of (pos, item) \<Rightarrow> (s\<lparr>sub_next := pos\<rparr>, item)))"

text \<open>The frames for axum: an event that cannot be serialized is skipped.\<close>

record axum_event =
  ax_id :: string
  ax_data :: string
  ax_event :: "string option"
  ax_retry :: "duration option"

definition into_axum_event :: "('a \<Rightarrow> string + string) \<Rightarrow> 'a sse_event \<Rightarrow> axum_event app_result" where
  "into_axum_event to_json event =
     (case to_json (se_data event) of
        Inl e \<Rightarrow> Inl (app_error_new InvalidInput (''failed to serialize SSE event: '' @ e))
      | Inr d \<Rightarrow> Inr \<lparr>ax_id = se_id event, ax_data = d, ax_event = se_event event, ax_retry = se_retry event\<rparr>)"

definition axum_stream :: "('a \<Rightarrow> string + string) \<Rightarrow> 'a sse_event list \<Rightarrow> axum_event list" where
  "axum_stream to_json events =
     List.map_filter (\<lambda>event. case into_axum_event to_json event of Inr f \<Rightarrow> Some f | Inl _ \<Rightarrow> None) events"

section \<open>Publishers and subscribers\<close>

text \<open>
  The bus with its callers: \<open>sy_published\<close> are all events in the order of the lock, \<open>sy_sending\<close> those whose publishers have
  released the lock but not sent yet. Of a subscriber it is kept for whom it was made, how many events were published
  before and which of them were still to be sent; what it has received and what it has skipped; and the largest number of
  events that were sent and not yet received.
\<close>

record 'a sse_client =
  cl_subscription :: "'a subscription"
  cl_last :: "string option option"
  cl_before :: nat
  cl_unsent :: "'a sse_event list"
  cl_received :: "'a sse_event list"
  cl_skipped :: "'a sse_event list"
  cl_max_lag :: nat

record 'a sse_system =
  sy_bus :: "'a sse_bus"
  sy_published :: "'a sse_event list"
  sy_sending :: "'a sse_event list"
  sy_clients :: "'a sse_client list"

datatype 'a sse_label =
    PublishLocked 'a
  | PublishSend nat
  | SubscribeLive
  | SubscribeAfter "string option"
  | Poll nat

definition note_lag :: "'a sse_bus \<Rightarrow> 'a sse_client \<Rightarrow> 'a sse_client" where
  "note_lag bus c = c\<lparr>cl_max_lag := max (cl_max_lag c) (length (sb_sent bus) - sub_next (cl_subscription c))\<rparr>"

text \<open>The events that a client skips are those its receiver passes over without an item.\<close>

definition client_poll :: "'a sse_bus \<Rightarrow> 'a sse_client \<Rightarrow> 'a sse_client" where
  "client_poll bus c =
     (case stream_next bus (cl_subscription c) of
        (s, Some event) \<Rightarrow> c\<lparr>cl_subscription := s, cl_received := cl_received c @ [event]\<rparr>
      | (s, None) \<Rightarrow>
          c\<lparr>cl_subscription := s,
            cl_skipped := cl_skipped c @ drop (sub_next (cl_subscription c)) (take (sub_next s) (sb_sent bus))\<rparr>)"

definition add_client :: "'a subscription \<Rightarrow> string option option \<Rightarrow> 'a sse_system \<Rightarrow> 'a sse_system" where
  "add_client s l y =
     y\<lparr>sy_clients := \<lparr>cl_subscription = s, cl_last = l, cl_before = length (sy_published y), cl_unsent = sy_sending y,
         cl_received = [], cl_skipped = [], cl_max_lag = 0\<rparr> # sy_clients y\<rparr>"

fun sse_fire :: "'a sse_label \<Rightarrow> 'a sse_system \<Rightarrow> 'a sse_system option" where
  "sse_fire (PublishLocked payload) y =
     (case publish_locked payload (sy_bus y) of
        (bus, event) \<Rightarrow>
          Some (y\<lparr>sy_bus := bus, sy_published := sy_published y @ [event], sy_sending := sy_sending y @ [event]\<rparr>))"
| "sse_fire (PublishSend i) y =
     (if i < length (sy_sending y)
      then let bus = publish_send (sy_sending y ! i) (sy_bus y)
           in Some (y\<lparr>sy_bus := bus, sy_sending := take i (sy_sending y) @ drop (Suc i) (sy_sending y),
                      sy_clients := map (note_lag bus) (sy_clients y)\<rparr>)
      else None)"
| "sse_fire SubscribeLive y = Some (add_client (subscribe_live (sy_bus y)) None y)"
| "sse_fire (SubscribeAfter l) y = Some (add_client (subscribe_after l (sy_bus y)) (Some l) y)"
| "sse_fire (Poll i) y =
     (if i < length (sy_clients y)
      then Some (y\<lparr>sy_clients := (sy_clients y)[i := client_poll (sy_bus y) (sy_clients y ! i)]\<rparr>)
      else None)"

definition sse_init :: "'a sse_system \<Rightarrow> bool" where
  "sse_init y \<longleftrightarrow>
     (\<exists>channel capacity bus retry. sse_new channel capacity = Inr bus \<and> capacity \<le> channel capacity \<and>
        y = \<lparr>sy_bus = bus\<lparr>sb_retry := retry\<rparr>, sy_published = [], sy_sending = [], sy_clients = []\<rparr>)"

section \<open>Nothing is missed\<close>

text \<open>What a client is given to replay, and what it has yet to receive.\<close>

definition replayed :: "'a sse_system \<Rightarrow> 'a sse_client \<Rightarrow> 'a sse_event list" where
  "replayed y c =
     (case cl_last c of
        None \<Rightarrow> []
      | Some l \<Rightarrow> replay_after (drop (cl_before c - sb_capacity (sy_bus y)) (take (cl_before c) (sy_published y))) l)"

definition pending :: "'a sse_bus \<Rightarrow> 'a sse_client \<Rightarrow> 'a sse_event list" where
  "pending bus c = sub_replay (cl_subscription c) @ drop (sub_next (cl_subscription c)) (sb_sent bus)"

definition client_inv :: "'a sse_system \<Rightarrow> 'a sse_client \<Rightarrow> bool" where
  "client_inv y c \<longleftrightarrow>
     (let s = cl_subscription c; bus = sy_bus y in
      cl_before c \<le> length (sy_published y) \<and> sub_next s \<le> length (sb_sent bus) \<and>
      mset (cl_received c) + mset (cl_skipped c) + mset (pending bus c) + mset (sy_sending y) =
        mset (replayed y c) + mset (cl_unsent c) + mset (drop (cl_before c) (sy_published y)) \<and>
      prefix (replayed y c) (cl_received c @ sub_replay s) \<and>
      length (sb_sent bus) - sub_next s \<le> cl_max_lag c \<and> (cl_skipped c \<noteq> [] \<longrightarrow> sb_channel bus < cl_max_lag c))"

definition sse_inv :: "'a sse_system \<Rightarrow> bool" where
  "sse_inv y \<longleftrightarrow>
     (let bus = sy_bus y; n = length (sy_published y) in
      0 < sb_capacity bus \<and> sb_capacity bus \<le> sb_channel bus \<and> sb_next_id bus = word_of_nat (Suc n) \<and>
      map se_id (sy_published y) = map (\<lambda>i. show_nat (unat (word_of_nat (Suc i) :: 64 word))) [0..<n] \<and>
      sb_replay bus = drop (n - sb_capacity bus) (sy_published y) \<and>
      mset (sb_sent bus) + mset (sy_sending y) = mset (sy_published y) \<and>
      list_all (client_inv y) (sy_clients y))"

lemma push_replay_window:
  "0 < capacity \<Longrightarrow> push_replay capacity e (drop (length es - capacity) es) = drop (Suc (length es) - capacity) (es @ [e])"
  by (auto simp: push_replay_def drop_Suc tl_drop Suc_diff_le min_def)

lemma mset_remove_nth: "i < length xs \<Longrightarrow> mset (take i xs @ drop (Suc i) xs) + {#xs ! i#} = mset xs"
  by (metis add_mset_add_single id_take_nth_drop mset.simps(2) mset_append union_mset_add_mset_right)

lemma drop_take_drop: "i \<le> k \<Longrightarrow> drop i (take k xs) @ drop k xs = drop i xs"
  using append_take_drop_id [of "k - i" "drop i xs"] by (simp add: drop_take)

lemma replayed_update [simp]:
  "replayed y (c\<lparr>cl_subscription := s\<rparr>) = replayed y c" "replayed y (c\<lparr>cl_received := es\<rparr>) = replayed y c"
  "replayed y (c\<lparr>cl_skipped := es\<rparr>) = replayed y c" "replayed y (c\<lparr>cl_max_lag := n\<rparr>) = replayed y c"
  by (simp_all add: replayed_def cong: option.case_cong)

lemma client_inv_cong:
  "sy_bus y' = sy_bus y \<Longrightarrow> sy_published y' = sy_published y \<Longrightarrow> sy_sending y' = sy_sending y \<Longrightarrow> client_inv y' c = client_inv y c"
  by (simp add: client_inv_def replayed_def cong: option.case_cong)

lemma sse_inv_add_client:
  assumes "sse_inv y" "sub_next s = length (sb_sent (sy_bus y))"
    "sub_replay s = (case l of None \<Rightarrow> [] | Some l \<Rightarrow> replay_after (sb_replay (sy_bus y)) l)"
  shows "sse_inv (add_client s l y)"
proof -
  have eq: "client_inv (add_client s l y) = client_inv y" by (rule ext, rule client_inv_cong) (simp_all add: add_client_def)
  have "client_inv y \<lparr>cl_subscription = s, cl_last = l, cl_before = length (sy_published y), cl_unsent = sy_sending y,
      cl_received = [], cl_skipped = [], cl_max_lag = 0\<rparr>"
    using assms by (auto simp: client_inv_def pending_def replayed_def sse_inv_def Let_def split: option.splits)
  with assms(1) show ?thesis unfolding sse_inv_def Let_def eq by (simp add: add_client_def)
qed

lemma client_inv_send:
  assumes "client_inv y c" "i < length (sy_sending y)" "bus = publish_send (sy_sending y ! i) (sy_bus y)"
  shows "client_inv (y\<lparr>sy_bus := bus, sy_sending := take i (sy_sending y) @ drop (Suc i) (sy_sending y), sy_clients := cs\<rparr>) (note_lag bus c)"
proof -
  let ?s = "cl_subscription c" and ?e = "sy_sending y ! i"
  have "sub_next ?s \<le> length (sb_sent (sy_bus y))" using assms(1) by (simp add: client_inv_def Let_def)
  then have "pending bus c = pending (sy_bus y) c @ [?e]" by (simp add: pending_def assms(3) publish_send_def)
  then have "mset (pending bus c) + mset (take i (sy_sending y) @ drop (Suc i) (sy_sending y)) =
      mset (pending (sy_bus y) c) + mset (sy_sending y)"
    using mset_remove_nth [OF assms(2)] by (simp add: union_assoc)
  moreover have "replayed (y\<lparr>sy_bus := bus, sy_sending := es, sy_clients := cs\<rparr>) c = replayed y c" for es
    by (simp add: replayed_def assms(3) publish_send_def cong: option.case_cong)
  moreover have "pending bus (c\<lparr>cl_max_lag := n\<rparr>) = pending bus c" for n by (simp add: pending_def)
  ultimately show ?thesis
    using assms(1) unfolding client_inv_def Let_def note_lag_def
    by (auto simp: assms(3) publish_send_def union_assoc simp del: mset_append)
qed

lemma client_inv_poll:
  assumes "client_inv y c"
  shows "client_inv y (client_poll (sy_bus y) c)"
proof (cases "sub_replay (cl_subscription c)")
  case (Cons e es)
  then show ?thesis using assms
    by (auto simp: client_inv_def Let_def client_poll_def stream_next_def pending_def)
next
  case Nil
  let ?bus = "sy_bus y" and ?pos = "sub_next (cl_subscription c)"
  let ?sent = "sb_sent ?bus"
  have pos: "?pos \<le> length ?sent" using assms by (simp add: client_inv_def Let_def)
  consider (empty) "?pos = length ?sent" | (lag) "?pos + sb_channel ?bus < length ?sent"
    | (item) "?pos < length ?sent" "\<not> ?pos + sb_channel ?bus < length ?sent" using pos by linarith
  then show ?thesis
  proof cases
    case empty
    then show ?thesis using assms Nil
      by (auto simp: client_inv_def Let_def client_poll_def stream_next_def live_stream_from_def broadcast_recv_def pending_def)
  next
    case lag
    let ?k = "length ?sent - sb_channel ?bus"
    have "drop ?pos ?sent = drop ?pos (take ?k ?sent) @ drop ?k ?sent" using lag by (intro drop_take_drop [symmetric]) simp
    then show ?thesis using assms Nil lag
      by (auto simp: client_inv_def Let_def client_poll_def stream_next_def live_stream_from_def broadcast_recv_def pending_def
          union_assoc)
  next
    case item
    then show ?thesis using assms Nil Cons_nth_drop_Suc [OF item(1), symmetric]
      by (auto simp: client_inv_def Let_def client_poll_def stream_next_def live_stream_from_def broadcast_recv_def pending_def
          intro: prefix_prefix)
  qed
qed

lemma sse_inv_step:
  assumes "sse_inv y" "sse_fire l y = Some y'"
  shows "sse_inv y'"
proof (cases l)
  case (PublishLocked payload)
  define e where "e = \<lparr>se_id = show_nat (unat (sb_next_id (sy_bus y))), se_event = None, se_retry = sb_retry (sy_bus y),
    se_data = payload\<rparr>"
  have y': "y' = y\<lparr>sy_bus := (sy_bus y)\<lparr>sb_next_id := sb_next_id (sy_bus y) + 1,
        sb_replay := push_replay (sb_capacity (sy_bus y)) e (sb_replay (sy_bus y))\<rparr>,
      sy_published := sy_published y @ [e], sy_sending := sy_sending y @ [e]\<rparr>"
    using assms(2) PublishLocked by (simp add: publish_locked_def Let_def e_def)
  have "client_inv y' c" if "client_inv y c" for c
    using that unfolding y' client_inv_def Let_def by (auto simp: pending_def replayed_def split: option.splits)
  then show ?thesis
    using assms(1) unfolding sse_inv_def Let_def y'
    by (auto simp: push_replay_window e_def list_all_iff)
next
  case (PublishSend i)
  define bus where "bus = publish_send (sy_sending y ! i) (sy_bus y)"
  from PublishSend assms(2) have i: "i < length (sy_sending y)" and y': "y' = y\<lparr>sy_bus := bus,
      sy_sending := take i (sy_sending y) @ drop (Suc i) (sy_sending y), sy_clients := map (note_lag bus) (sy_clients y)\<rparr>"
    by (auto simp: bus_def Let_def split: if_splits)
  have "client_inv y' (note_lag bus c)" if "client_inv y c" for c
    using client_inv_send [OF that i bus_def] unfolding y' .
  moreover have "mset (sb_sent bus) + mset (take i (sy_sending y) @ drop (Suc i) (sy_sending y)) = mset (sb_sent (sy_bus y)) + mset (sy_sending y)"
    using mset_remove_nth [OF i] by (simp add: bus_def publish_send_def union_assoc)
  ultimately show ?thesis
    using assms(1) unfolding sse_inv_def Let_def
    by (auto simp: y' bus_def publish_send_def list_all_iff simp del: mset_append)
next
  case SubscribeLive
  then show ?thesis using assms by (auto intro!: sse_inv_add_client simp: subscribe_live_def)
next
  case (SubscribeAfter l)
  then show ?thesis using assms by (auto intro!: sse_inv_add_client simp: subscribe_after_def)
next
  case (Poll i)
  then have y': "y' = y\<lparr>sy_clients := (sy_clients y)[i := client_poll (sy_bus y) (sy_clients y ! i)]\<rparr>" and i: "i < length (sy_clients y)"
    using assms(2) by (auto split: if_splits)
  have eq: "client_inv y' = client_inv y" by (rule ext, rule client_inv_cong) (simp_all add: y')
  have "list_all (client_inv y) (sy_clients y)" using assms(1) by (simp add: sse_inv_def Let_def)
  then have "list_all (client_inv y) (sy_clients y')"
    using client_inv_poll [of y "sy_clients y ! i"] nth_mem [OF i]
    by (auto simp: y' list_all_iff dest!: set_update_subset_insert [THEN subsetD])
  with assms(1) show ?thesis unfolding sse_inv_def Let_def eq by (simp add: y')
qed

interpretation sse_runs: invariant_system sse_init "fire_step sse_fire" sse_inv
proof
  show "sse_init y \<Longrightarrow> sse_inv y" for y :: "'a sse_system"
    by (auto simp: sse_init_def sse_inv_def sse_new_def validate_capacity_def split: if_splits)
  show "sse_inv y \<Longrightarrow> fire_step sse_fire y y' \<Longrightarrow> sse_inv y'" for y y' :: "'a sse_system"
    by (auto simp: fire_step_def intro: sse_inv_step)
qed

lemma parse_u64_show_nat: "n < 2 ^ 64 \<Longrightarrow> parse_u64 (show_nat n) = Some n"
  using show_nat_digits [of n] by (cases "show_nat n") (auto simp: parse_u64_def is_digit_def)

lemma filter_numbered:
  "(\<And>i. i < length xs \<Longrightarrow> f (xs ! i) = Some (Suc (k + i))) \<Longrightarrow> k \<le> l \<Longrightarrow>
     filter (\<lambda>x. case f x of Some i \<Rightarrow> l < i | None \<Rightarrow> False) xs = drop (l - k) xs"
proof (induction xs arbitrary: k)
  case (Cons x xs)
  have "f x = Some (Suc k)" using Cons.prems(1) [of 0] by simp
  moreover have "f (xs ! i) = Some (Suc (Suc k + i))" if "i < length xs" for i
    using Cons.prems(1) [of "Suc i"] that by simp
  ultimately show ?case
    using Cons.IH [of "Suc k"] Cons.IH [of k] Cons.prems(2)
    by (cases "k = l") (auto simp: filter_id_conv Suc_diff_le drop_Cons' in_set_conv_nth)
qed simp

lemma replay_after_numbered:
  assumes "map se_id es = map (\<lambda>i. show_nat (Suc i)) [0..<length es]" "length es < 2 ^ 64"
    and "b \<le> length es" "b - cap \<le> l" "l \<le> b"
  shows "replay_after (drop (b - cap) (take b es)) (Some (show_nat l)) = drop l (take b es)"
proof -
  have ids: "se_id (es ! i) = show_nat (Suc i)" if "i < length es" for i
    using arg_cong [OF assms(1), of "\<lambda>xs. xs ! i"] that by simp
  have "parse_u64 (se_id (drop (b - cap) (take b es) ! i)) = Some (Suc (b - cap + i))"
    if "i < length (drop (b - cap) (take b es))" for i
    using that assms(2,3) ids [of "b - cap + i"] by (simp add: parse_u64_show_nat)
  from filter_numbered [of _ "\<lambda>e. parse_u64 (se_id e)", OF this assms(4)]
  show ?thesis using assms by (simp add: replay_after_def parse_u64_show_nat)
qed

lemma sse_ids:
  assumes "sse_inv y" "length (sy_published y) < 2 ^ 64"
  shows "map se_id (sy_published y) = map (\<lambda>i. show_nat (Suc i)) [0..<length (sy_published y)]"
proof -
  have "map se_id (sy_published y) = map (\<lambda>i. show_nat (unat (word_of_nat (Suc i) :: 64 word))) [0..<length (sy_published y)]"
    using assms(1) by (simp add: sse_inv_def Let_def)
  also have "\<dots> = map (\<lambda>i. show_nat (Suc i)) [0..<length (sy_published y)]"
    using assms(2) by (intro map_cong refl) (simp add: unat_of_nat del: of_nat_Suc)
  finally show ?thesis .
qed

text \<open>
  C31. A client that resumes after the event numbered \<open>l\<close>, of which no successor has been evicted from the replay buffer, is given
  every event after \<open>l\<close>, those published before it subscribed first and in order: once every publisher has sent, what it has received, what
  it has skipped and what it is yet to receive are the events after \<open>l\<close>, and once more those whose publishers had released the lock but not
  sent when it subscribed. It skips nothing as long as no more events than the capacity of the bus were waiting for it. The replay
  buffer never exceeds that capacity.
\<close>

theorem resumed_client_misses_nothing:
  assumes "reach sse_init (fire_step sse_fire) y" "c \<in> set (sy_clients y)" "cl_last c = Some (Some (show_nat l))"
    and "cl_before c - sb_capacity (sy_bus y) \<le> l" "l \<le> cl_before c"
    and "length (sy_published y) < 2 ^ 64" "sy_sending y = []"
  shows "mset (cl_received c @ cl_skipped c @ pending (sy_bus y) c) = mset (drop l (sy_published y)) + mset (cl_unsent c) \<and>
    prefix (drop l (take (cl_before c) (sy_published y))) (cl_received c @ sub_replay (cl_subscription c)) \<and>
    (cl_max_lag c \<le> sb_capacity (sy_bus y) \<longrightarrow> cl_skipped c = []) \<and>
    length (sb_replay (sy_bus y)) \<le> sb_capacity (sy_bus y)"
proof -
  have inv: "sse_inv y" using assms(1) by (rule sse_runs.inv_reach)
  then have c: "client_inv y c" using assms(2) by (simp add: sse_inv_def Let_def list_all_iff)
  then have before: "cl_before c \<le> length (sy_published y)" by (simp add: client_inv_def Let_def)
  have replay: "replayed y c = drop l (take (cl_before c) (sy_published y))"
    using replay_after_numbered [OF sse_ids [OF inv assms(6)] assms(6) before assms(4,5)] by (simp add: replayed_def assms(3))
  have "drop l (sy_published y) = drop l (take (cl_before c) (sy_published y)) @ drop (cl_before c) (sy_published y)"
    using assms(5) by (rule drop_take_drop [symmetric])
  moreover have "cl_skipped c = []" if "cl_max_lag c \<le> sb_capacity (sy_bus y)"
  proof (rule ccontr)
    assume "cl_skipped c \<noteq> []"
    then have "sb_channel (sy_bus y) < cl_max_lag c" using c by (simp add: client_inv_def Let_def)
    moreover have "sb_capacity (sy_bus y) \<le> sb_channel (sy_bus y)" using inv by (simp add: sse_inv_def Let_def)
    ultimately show False using that by simp
  qed
  ultimately show ?thesis using inv c assms(7) by (simp add: client_inv_def sse_inv_def Let_def replay union_ac)
qed

text \<open>
  A client resumes after event 1 while the publisher of event 2 is between its lock and its send: the client receives
  event 2 twice.
\<close>

definition sse_race :: "nat sse_label list" where
  "sse_race = [PublishLocked 10, PublishSend 0, PublishLocked 20, SubscribeAfter (Some (show_nat 1)), PublishSend 0,
     PublishLocked 30, PublishSend 0, Poll 0, Poll 0, Poll 0]"

definition numbered_event :: "nat \<Rightarrow> nat \<Rightarrow> nat sse_event" where
  "numbered_event i payload = \<lparr>se_id = show_nat i, se_event = None, se_retry = None, se_data = payload\<rparr>"

definition sse_race_start :: "nat sse_system" where
  "sse_race_start = \<lparr>sy_bus = \<lparr>sb_replay = [], sb_next_id = 1, sb_capacity = 2, sb_retry = None, sb_channel = 2, sb_sent = []\<rparr>,
     sy_published = [], sy_sending = [], sy_clients = []\<rparr>"

lemmas sse_run_defs = sse_race_start_def publish_locked_def publish_send_def push_replay_def add_client_def subscribe_after_def
  subscribe_live_def numbered_event_def note_lag_def client_poll_def stream_next_def live_stream_from_def broadcast_recv_def Let_def

theorem resumed_client_misses_nothing_witness:
  "\<exists>y c. reach sse_init (fire_step sse_fire) y \<and> sy_clients y = [c] \<and> cl_skipped c = [] \<and>
     mset (cl_received c @ pending (sy_bus y) c) = {#numbered_event 2 20, numbered_event 3 30#} + {#numbered_event 2 20#}"
proof -
  define y where "y = the (run_events sse_fire sse_race sse_race_start)"
  define c where "c = hd (sy_clients y)"
  have run: "run_events sse_fire sse_race sse_race_start = Some y"
    and pub: "sy_published y = [numbered_event 1 10, numbered_event 2 20, numbered_event 3 30]"
    and sending: "sy_sending y = []" and cap: "sb_capacity (sy_bus y) = 2" and clients: "sy_clients y = [c]"
    and c: "cl_last c = Some (Some (show_nat 1))" "cl_before c = 2" "cl_unsent c = [numbered_event 2 20]" "cl_max_lag c = 2"
    by (simp_all add: y_def c_def sse_race_def sse_run_defs replay_after_def parse_u64_show_nat)
  have "sse_init sse_race_start" unfolding sse_init_def
    by (rule exI [of _ id], rule exI [of _ 2]) (auto simp: sse_race_start_def sse_new_def validate_capacity_def max_capacity_def)
  from run_events_reach [OF run reach.reach_init [of sse_init, OF this]] have y: "reach sse_init (fire_step sse_fire) y" .
  note facts = resumed_client_misses_nothing [OF this, of c 1]
  have skipped: "cl_skipped c = []" using facts pub sending cap clients c by simp
  have "mset (cl_received c @ cl_skipped c @ pending (sy_bus y) c) = mset (drop 1 (sy_published y)) + mset (cl_unsent c)"
    using facts pub sending cap clients c by (simp add: skipped)
  then have "mset (cl_received c @ pending (sy_bus y) c) = {#numbered_event 2 20, numbered_event 3 30#} + {#numbered_event 2 20#}"
    unfolding skipped pub c(3) by (simp add: add_mset_commute)
  with y clients skipped show ?thesis by blast
qed

text \<open>A client that polls only after three events were sent through a channel for two skips the first one.\<close>

lemma slow_client_skips:
  "map_option (\<lambda>y. map cl_skipped (sy_clients y))
     (run_events sse_fire [SubscribeLive, PublishLocked 10, PublishSend 0, PublishLocked 20, PublishSend 0, PublishLocked 30, PublishSend 0,
        Poll 0] sse_race_start) = Some [[numbered_event 1 10]]"
  by (simp add: sse_run_defs)

end
