(* ===== verification/Discovery.thy ===== *)
theory Discovery
  imports Policy Registry Duration_Text "HOL-Library.Multiset"
begin

text \<open>
  Service discovery of \<^verbatim>\<open>core/rskit-discovery/src\<close>: instances (\<^verbatim>\<open>instance.rs\<close>), load balancers (\<^verbatim>\<open>balancer.rs\<close>), the in-memory registry
  (\<^verbatim>\<open>memory.rs\<close>), bootstrap resolution (\<^verbatim>\<open>resolve.rs\<close>), the configuration (\<^verbatim>\<open>config.rs\<close>), the static provider (\<^verbatim>\<open>factory.rs\<close>) and the component
  that registers a service on start and removes it on stop (\<^verbatim>\<open>component.rs\<close>), which retries through the modelled policy.
  Random draws are parameters.
\<close>

section \<open>Instances\<close>

datatype health_state = HsUnknown | HsHealthy | HsUnhealthy

record service_instance =
  si_id :: string
  si_name :: string
  si_address :: string
  si_port :: nat
  si_protocol :: string
  si_tags :: "string list"
  si_metadata :: "(string, string) hashmap"
  si_health :: health_state
  si_weight :: nat
  si_last_seen :: "string option"

definition default_weight :: nat where "default_weight = 1"

definition service_instance_new :: "string \<Rightarrow> string \<Rightarrow> string \<Rightarrow> nat \<Rightarrow> service_instance" where
  "service_instance_new i name address port =
     \<lparr>si_id = i, si_name = name, si_address = address, si_port = port, si_protocol = [], si_tags = [], si_metadata = [],
      si_health = HsUnknown, si_weight = default_weight, si_last_seen = None\<rparr>"

definition endpoint :: "service_instance \<Rightarrow> string" where
  "endpoint inst = si_address inst @ '':'' @ show_nat (si_port inst)"

definition instance_is_healthy :: "service_instance \<Rightarrow> bool" where
  "instance_is_healthy inst \<longleftrightarrow> si_health inst = HsHealthy"

definition with_health :: "health_state \<Rightarrow> service_instance \<Rightarrow> service_instance" where
  "with_health h inst = inst\<lparr>si_health := h\<rparr>"

section \<open>Load balancers\<close>

record round_robin_balancer =
  rb_counter :: "64 word"

definition round_robin_balancer_new :: round_robin_balancer where
  "round_robin_balancer_new = \<lparr>rb_counter = 0\<rparr>"

definition round_robin_pick :: "service_instance list \<Rightarrow> round_robin_balancer \<Rightarrow> round_robin_balancer \<times> service_instance option" where
  "round_robin_pick instances b =
     (if instances = [] then (b, None)
      else (b\<lparr>rb_counter := rb_counter b + 1\<rparr>, Some (instances ! (unat (rb_counter b) mod length instances))))"

text \<open>\<open>draw\<close> is \<^verbatim>\<open>random_range(0..n)\<close>.\<close>

definition random_pick :: "(nat \<Rightarrow> nat) \<Rightarrow> service_instance list \<Rightarrow> service_instance option" where
  "random_pick draw instances = (if instances = [] then None else Some (instances ! draw (length instances)))"

definition weight_of :: "service_instance \<Rightarrow> nat" where
  "weight_of inst = max (si_weight inst) 1"

fun weighted_loop :: "nat \<Rightarrow> service_instance list \<Rightarrow> service_instance option" where
  "weighted_loop slot [] = None"
| "weighted_loop slot (inst # rest) = (if slot < weight_of inst then Some inst else weighted_loop (slot - weight_of inst) rest)"

definition total_weight :: "service_instance list \<Rightarrow> nat" where
  "total_weight instances = sum_list (map weight_of instances)"

definition weighted_pick :: "(nat \<Rightarrow> nat) \<Rightarrow> service_instance list \<Rightarrow> service_instance option" where
  "weighted_pick draw instances =
     (if instances = [] then None
      else case weighted_loop (draw (total_weight instances)) instances of
             Some inst \<Rightarrow> Some inst
           | None \<Rightarrow> Some (last instances))"

record least_connections =
  lc_in_flight :: "(string, 64 word) hashmap"

definition least_connections_new :: least_connections where
  "least_connections_new = \<lparr>lc_in_flight = []\<rparr>"

definition lc_acquire :: "string \<Rightarrow> least_connections \<Rightarrow> least_connections" where
  "lc_acquire i b =
     b\<lparr>lc_in_flight := hm_insert i ((case hm_get (lc_in_flight b) i of Some c \<Rightarrow> c | None \<Rightarrow> 0) + 1) (lc_in_flight b)\<rparr>"

definition lc_release :: "string \<Rightarrow> least_connections \<Rightarrow> least_connections" where
  "lc_release i b =
     (case hm_get (lc_in_flight b) i of
        Some c \<Rightarrow> b\<lparr>lc_in_flight := hm_insert i (c - 1) (lc_in_flight b)\<rparr>
      | None \<Rightarrow> b)"

definition lc_load :: "least_connections \<Rightarrow> string \<Rightarrow> nat" where
  "lc_load b i = (case hm_get (lc_in_flight b) i of Some c \<Rightarrow> unat c | None \<Rightarrow> 0)"

definition lc_pick :: "service_instance list \<Rightarrow> least_connections \<Rightarrow> service_instance option" where
  "lc_pick instances b = (if instances = [] then None else min_by_key (\<lambda>inst. lc_load b (si_id inst)) instances)"

section \<open>The in-memory registry\<close>

type_synonym memory_discovery = "(string, service_instance list) hashmap"

definition memory_new :: memory_discovery where
  "memory_new = []"

definition memory_add :: "string \<Rightarrow> service_instance \<Rightarrow> memory_discovery \<Rightarrow> memory_discovery" where
  "memory_add service inst m = hm_insert service (hm_get_list m service @ [inst]) m"

definition memory_remove :: "string \<Rightarrow> string \<Rightarrow> memory_discovery \<Rightarrow> memory_discovery" where
  "memory_remove service i m =
     (case hm_get m service of
        Some insts \<Rightarrow> hm_insert service (filter (\<lambda>x. si_id x \<noteq> i) insts) m
      | None \<Rightarrow> m)"

definition memory_resolve :: "string \<Rightarrow> memory_discovery \<Rightarrow> service_instance list app_result" where
  "memory_resolve service m = Inr (hm_get_list m service)"

definition memory_register :: "service_instance \<Rightarrow> memory_discovery \<Rightarrow> memory_discovery \<times> unit app_result" where
  "memory_register inst m = (memory_add (si_name inst) inst m, Inr ())"

definition memory_deregister :: "string \<Rightarrow> memory_discovery \<Rightarrow> memory_discovery \<times> unit app_result" where
  "memory_deregister i m =
     (let m' = map (\<lambda>(service, insts). (service, filter (\<lambda>x. si_id x \<noteq> i) insts)) m;
          found = list_ex (\<lambda>(_, insts). length (filter (\<lambda>x. si_id x \<noteq> i) insts) \<noteq> length insts) m
      in (m', if found then Inr () else Inl (not_found ''instance'' (Some i))))"

definition resolve_addr :: "(string \<Rightarrow> service_instance list app_result) \<Rightarrow> string \<Rightarrow> (string \<times> nat) app_result" where
  "resolve_addr resolve service =
     try_result (resolve service) (\<lambda>instances.
       case find instance_is_healthy instances of
         Some inst \<Rightarrow> Inr (si_address inst, si_port inst)
       | None \<Rightarrow> Inl (app_error_new NotFound (''resolve '' @ [char_of (34 :: nat)] @ service @ [char_of (34 :: nat)] @ '': no healthy instances found'')))"

section \<open>Configuration\<close>

record registration_config =
  rg_enabled :: bool
  rg_required :: bool
  rg_max_retries :: nat
  rg_retry_interval :: string
  rg_service_name :: string
  rg_service_id :: string
  rg_service_address :: string
  rg_service_port :: nat
  rg_tags :: "string list"
  rg_metadata :: "(string, string) hashmap"

definition registration_config_default :: registration_config where
  "registration_config_default =
     \<lparr>rg_enabled = False, rg_required = True, rg_max_retries = 3, rg_retry_interval = ''2s'', rg_service_name = [],
      rg_service_id = [], rg_service_address = [], rg_service_port = 0, rg_tags = [], rg_metadata = []\<rparr>"

definition registration_defaults :: "registration_config \<Rightarrow> registration_config" where
  "registration_defaults r =
     r\<lparr>rg_service_id := (if rg_service_id r = [] \<and> rg_service_name r \<noteq> [] then rg_service_name r else rg_service_id r),
       rg_max_retries := (if rg_max_retries r = 0 then 3 else rg_max_retries r),
       rg_retry_interval := (if rg_retry_interval r = [] then ''2s'' else rg_retry_interval r)\<rparr>"

definition retry_duration :: "registration_config \<Rightarrow> duration app_result" where
  "retry_duration r =
     (case parse_duration (rg_retry_interval r) of
        Some d \<Rightarrow> Inr d
      | None \<Rightarrow> Inl (invalid_input ''discovery.registration.retry_interval''
                  (''invalid duration '' @ quoted (rg_retry_interval r))))"

record health_config =
  hc_enabled :: bool
  hc_check_type :: string
  hc_path :: string
  hc_interval :: string
  hc_timeout :: string
  hc_deregister_after :: string

definition health_config_default :: health_config where
  "health_config_default =
     \<lparr>hc_enabled = True, hc_check_type = ''http'', hc_path = ''/health'', hc_interval = ''10s'', hc_timeout = ''5s'',
      hc_deregister_after = ''1m''\<rparr>"

definition or_text :: "string \<Rightarrow> string \<Rightarrow> string" where
  "or_text s fallback = (if s = [] then fallback else s)"

definition health_defaults :: "health_config \<Rightarrow> health_config" where
  "health_defaults h =
     h\<lparr>hc_check_type := or_text (hc_check_type h) ''http'', hc_path := or_text (hc_path h) ''/health'',
       hc_interval := or_text (hc_interval h) ''10s'', hc_timeout := or_text (hc_timeout h) ''5s'',
       hc_deregister_after := or_text (hc_deregister_after h) ''1m''\<rparr>"

record static_endpoint =
  ep_name :: string
  ep_address :: string
  ep_port :: nat
  ep_protocol :: string
  ep_tags :: "string list"
  ep_metadata :: "(string, string) hashmap"
  ep_weight :: nat
  ep_healthy :: bool

record discovery_config =
  dc_enabled :: bool
  dc_provider :: string
  dc_addr :: string
  dc_scheme :: string
  dc_token :: string
  dc_registration :: registration_config
  dc_health :: health_config
  dc_cache_ttl :: string
  dc_static_endpoints :: "static_endpoint list"

definition discovery_defaults :: "discovery_config \<Rightarrow> discovery_config" where
  "discovery_defaults c =
     c\<lparr>dc_provider := or_text (dc_provider c) ''static'', dc_scheme := or_text (dc_scheme c) ''http'',
       dc_registration := registration_defaults (dc_registration c), dc_health := health_defaults (dc_health c)\<rparr>"

definition discovery_validate :: "discovery_config \<Rightarrow> unit app_result" where
  "discovery_validate c =
     (if \<not> dc_enabled c then Inr ()
      else if rg_enabled (dc_registration c) then
        (if rg_service_name (dc_registration c) = [] then
           Inl (invalid_input ''discovery.registration.service_name'' ''service name is required'')
         else if rg_service_port (dc_registration c) = 0 then
           Inl (invalid_input ''discovery.registration.service_port'' ''service port must be greater than zero'')
         else Inr ())
      else Inr ())"

definition build_instance :: "discovery_config \<Rightarrow> service_instance" where
  "build_instance c =
     (let reg = dc_registration c
      in \<lparr>si_id = or_text (rg_service_id reg) (rg_service_name reg), si_name = rg_service_name reg,
          si_address = rg_service_address reg, si_port = rg_service_port reg, si_protocol = [], si_tags = rg_tags reg,
          si_metadata = rg_metadata reg, si_health = HsHealthy, si_weight = 1, si_last_seen = None\<rparr>)"

section \<open>Providers\<close>

text \<open>A provider acts on the world \<open>'w\<close>. The static provider keeps its registry in the first part of the world.\<close>

record 'w provider =
  pv_register :: "service_instance \<Rightarrow> 'w \<Rightarrow> 'w \<times> unit app_result"
  pv_deregister :: "string \<Rightarrow> 'w \<Rightarrow> 'w \<times> unit app_result"
  pv_resolve :: "string \<Rightarrow> 'w \<Rightarrow> service_instance list app_result"

definition endpoint_instance :: "static_endpoint \<Rightarrow> service_instance" where
  "endpoint_instance ep =
     \<lparr>si_id = ep_name ep @ ''-'' @ ep_address ep @ '':'' @ show_nat (ep_port ep), si_name = ep_name ep, si_address = ep_address ep,
      si_port = ep_port ep, si_protocol = ep_protocol ep, si_tags = ep_tags ep, si_metadata = ep_metadata ep,
      si_health = (if ep_healthy ep then HsHealthy else HsUnhealthy), si_weight = ep_weight ep, si_last_seen = None\<rparr>"

definition static_memory :: "static_endpoint list \<Rightarrow> memory_discovery" where
  "static_memory eps = foldl (\<lambda>m ep. memory_add (ep_name ep) (endpoint_instance ep) m) memory_new eps"

definition static_provider :: "(memory_discovery \<times> 'v) provider" where
  "static_provider =
     \<lparr>pv_register = (\<lambda>inst (m, v). case memory_register inst m of (m', r) \<Rightarrow> ((m', v), r)),
      pv_deregister = (\<lambda>i (m, v). case memory_deregister i m of (m', r) \<Rightarrow> ((m', v), r)),
      pv_resolve = (\<lambda>service (m, v). memory_resolve service m)\<rparr>"

definition static_factory :: "discovery_config \<Rightarrow> memory_discovery \<times> 'v \<Rightarrow> (memory_discovery \<times> 'v) \<times> (memory_discovery \<times> 'v) provider app_result" where
  "static_factory config st = ((static_memory (dc_static_endpoints config), snd st), Inr static_provider)"

type_synonym 'w provider_factory = "discovery_config \<Rightarrow> 'w \<Rightarrow> 'w \<times> 'w provider app_result"

text \<open>\<open>debug\<close> is the \<^verbatim>\<open>Debug\<close> rendering of a text, \<open>debug_all\<close> that of a list of texts.\<close>

definition create_provider ::
    "(string \<Rightarrow> string) \<Rightarrow> (string list \<Rightarrow> string) \<Rightarrow> (string, 'w provider_factory) hashmap \<Rightarrow> 'w provider_factory" where
  "create_provider debug debug_all factories config w =
     (case hm_get factories (dc_provider config) of
        Some factory \<Rightarrow> factory config w
      | None \<Rightarrow> (w, Inl (app_error_new InvalidInput (''unsupported discovery provider '' @ debug (dc_provider config) @
           '' (registered: '' @ debug_all (map fst factories) @ '')''))))"

section \<open>The component\<close>

record 'w discovery_component =
  co_config :: discovery_config
  co_provider :: "'w provider option"
  co_instance_id :: "string option"

definition discovery_component_new :: "discovery_config \<Rightarrow> 'w discovery_component" where
  "discovery_component_new config = \<lparr>co_config = config, co_provider = None, co_instance_id = None\<rparr>"

definition enriched_instance :: "discovery_config \<Rightarrow> service_instance" where
  "enriched_instance config =
     (let inst = build_instance config
      in if hc_enabled (dc_health config)
         then inst\<lparr>si_metadata := hm_insert ''health_url''
                (''http://'' @ or_text (si_address inst) ''localhost'' @ '':'' @ show_nat (si_port inst) @ hc_path (dc_health config))
                (si_metadata inst)\<rparr>
         else inst)"

definition registration_policy :: "nat \<Rightarrow> duration \<Rightarrow> unit policy" where
  "registration_policy max_retries d =
     with_retry (with_on_retry (with_jitter (Fin 0) (with_constant_backoff (constant_backoff_new d)
       (with_max_attempts max_retries retry_policy_default)))) policy_new"

definition register_self ::
    "(unit, 'w) policy_env \<Rightarrow> ('w, unit app_result) timeout_fn \<Rightarrow> discovery_config \<Rightarrow> 'w provider \<Rightarrow>
     'w discovery_component \<times> 'w \<Rightarrow> ('w discovery_component \<times> 'w) \<times> unit app_result" where
  "register_self env tmo config prov st =
     (case st of (co, w) \<Rightarrow>
       let inst = enriched_instance config;
           max_retries = max (rg_max_retries (dc_registration config)) 1
       in case retry_duration (dc_registration config) of
            Inl e \<Rightarrow> ((co, w), Inl e)
          | Inr d \<Rightarrow>
              (case policy_execute env tmo id id (pv_register prov inst) (registration_policy max_retries d, w) of
                 ((_, w'), Inr _) \<Rightarrow> ((co\<lparr>co_instance_id := Some (si_id inst)\<rparr>, w'), Inr ())
               | ((_, w'), Inl err) \<Rightarrow>
                   ((co, w'),
                    if rg_required (dc_registration config)
                    then Inl (app_error_new Internal (''discovery: register self after '' @ show_nat max_retries @
                           '' retries: '' @ app_error_display err))
                    else Inr ())))"

definition discovery_start ::
    "(unit, 'w) policy_env \<Rightarrow> ('w, unit app_result) timeout_fn \<Rightarrow> 'w provider_factory \<Rightarrow>
     'w discovery_component \<times> 'w \<Rightarrow> ('w discovery_component \<times> 'w) \<times> unit app_result" where
  "discovery_start env tmo create st =
     (case st of (co, w) \<Rightarrow>
       let config = discovery_defaults (co_config co) in
       if \<not> dc_enabled config then
         (case create (config\<lparr>dc_provider := ''static''\<rparr>) w of
            (w', Inl e) \<Rightarrow> ((co, w'), Inl e)
          | (w', Inr prov) \<Rightarrow> ((co\<lparr>co_provider := Some prov\<rparr>, w'), Inr ()))
       else
         case discovery_validate config of
           Inl e \<Rightarrow> ((co, w), Inl e)
         | Inr _ \<Rightarrow>
             (case create config w of
                (w1, Inl e) \<Rightarrow> ((co, w1), Inl e)
              | (w1, Inr prov) \<Rightarrow>
                  let co1 = co\<lparr>co_provider := Some prov\<rparr> in
                  if rg_enabled (dc_registration config) then register_self env tmo config prov (co1, w1)
                  else ((co1, w1), Inr ())))"

definition discovery_stop :: "'w discovery_component \<times> 'w \<Rightarrow> ('w discovery_component \<times> 'w) \<times> unit app_result" where
  "discovery_stop st =
     (case st of (co, w) \<Rightarrow>
       let co' = co\<lparr>co_instance_id := None\<rparr> in
       case (co_instance_id co, co_provider co) of
         (Some i, Some prov) \<Rightarrow> ((co', fst (pv_deregister prov i w)), Inr ())
       | _ \<Rightarrow> ((co', w), Inr ()))"

definition discovery_health :: "'w discovery_component \<Rightarrow> health" where
  "discovery_health co =
     (if co_provider co = None then unhealthy ''discovery'' ''not initialized''
      else if \<not> dc_enabled (co_config co) then healthy ''discovery (static)''
      else if co_instance_id co \<noteq> None then healthy ''discovery''
      else degraded ''discovery'' ''no services registered'')"

section \<open>How the balancers distribute\<close>

fun round_robin_picks :: "nat \<Rightarrow> service_instance list \<Rightarrow> round_robin_balancer \<Rightarrow> service_instance option list" where
  "round_robin_picks 0 instances b = []"
| "round_robin_picks (Suc n) instances b =
     (case round_robin_pick instances b of (b', pick) \<Rightarrow> pick # round_robin_picks n instances b')"

lemma round_robin_picks_conv:
  "instances \<noteq> [] \<Longrightarrow> unat (rb_counter b) + n \<le> 2 ^ 64 \<Longrightarrow>
     round_robin_picks n instances b = map (\<lambda>i. Some (instances ! ((unat (rb_counter b) + i) mod length instances))) [0..<n]"
proof (induction n arbitrary: b)
  case (Suc n)
  show ?case
  proof (cases "n = 0")
    case True
    then show ?thesis using Suc.prems by (simp add: round_robin_pick_def)
  next
    case False
    then have "unat (rb_counter b + 1) = Suc (unat (rb_counter b))"
      using Suc.prems(2) by (simp add: unat_plus_if')
    then show ?thesis
      using Suc by (simp add: round_robin_pick_def upt_conv_Cons map_Suc_upt [symmetric] del: upt_Suc)
  qed
qed simp

lemma weighted_slots:
  "map (\<lambda>slot. weighted_loop slot instances) [0..<total_weight instances] =
     concat (map (\<lambda>inst. replicate (weight_of inst) (Some inst)) instances)"
proof (induction instances)
  case (Cons inst rest)
  have "[0..<total_weight (inst # rest)] = [0..<weight_of inst] @ map (\<lambda>i. i + weight_of inst) [0..<total_weight rest]"
    using upt_add_eq_append [of 0 "weight_of inst" "total_weight rest"]
    by (simp add: total_weight_def map_add_upt add.commute)
  then have "map (\<lambda>slot. weighted_loop slot (inst # rest)) [0..<total_weight (inst # rest)] =
      map (\<lambda>_. Some inst) [0..<weight_of inst] @ map (\<lambda>slot. weighted_loop slot rest) [0..<total_weight rest]"
    by simp
  then show ?case using Cons.IH by (simp add: map_replicate_const)
qed (simp add: total_weight_def)

lemma round_robin_rounds:
  assumes "instances \<noteq> []" "unat (rb_counter b) + k * length instances \<le> 2 ^ 64"
  shows "mset (round_robin_picks (k * length instances) instances b) = repeat_mset k (mset (map Some instances))"
proof -
  let ?n = "length instances" and ?c = "unat (rb_counter b)"
  have turn: "map (\<lambda>i. instances ! ((?c + i) mod ?n)) [m * ?n..<Suc m * ?n] = rotate ?c instances" for m
  proof (rule nth_equalityI)
    fix i
    assume "i < length (map (\<lambda>i. instances ! ((?c + i) mod ?n)) [m * ?n..<Suc m * ?n])"
    then have "i < ?n" by simp
    moreover have "(?c + (m * ?n + i)) mod ?n = (?c + i) mod ?n"
      by (metis add.left_commute mod_mult_self3)
    ultimately show "map (\<lambda>i. instances ! ((?c + i) mod ?n)) [m * ?n..<Suc m * ?n] ! i = rotate ?c instances ! i"
      by (simp add: nth_rotate)
  qed simp
  have "mset (map (\<lambda>i. Some (instances ! ((?c + i) mod ?n))) [0..<m * ?n]) = repeat_mset m (mset (map Some instances))" for m
  proof (induction m)
    case (Suc m)
    have "[0..<Suc m * ?n] = [0..<m * ?n] @ [m * ?n..<Suc m * ?n]"
      by (metis le_add1 mult_Suc add.commute upt_add_eq_append zero_le)
    moreover have "map (\<lambda>i. Some (instances ! ((?c + i) mod ?n))) [m * ?n..<Suc m * ?n] = map Some (rotate ?c instances)"
      unfolding turn [of m, symmetric] by simp
    moreover have "mset (rotate ?c instances) = mset instances"
      by (simp add: rotate_drop_take) (metis append_take_drop_id mset_append union_commute)
    ultimately show ?case using Suc.IH by (simp del: mult_Suc)
  qed simp
  then show ?thesis using round_robin_picks_conv [OF assms] by simp
qed

text \<open>
  The loads of the least-connections balancer: requests that are acquired and released, and the requests in flight, as long as
  nothing is released that is not in flight.
\<close>

datatype lc_op = Acquire string | Release string

fun lc_apply :: "least_connections \<Rightarrow> lc_op \<Rightarrow> least_connections" where
  "lc_apply b (Acquire i) = lc_acquire i b"
| "lc_apply b (Release i) = lc_release i b"

fun in_flight :: "string multiset \<Rightarrow> lc_op list \<Rightarrow> string multiset option" where
  "in_flight M [] = Some M"
| "in_flight M (Acquire i # ops) = in_flight (add_mset i M) ops"
| "in_flight M (Release i # ops) = (if i \<in># M then in_flight (M - {#i#}) ops else None)"

lemma word_neq_0_unat: "unat x = n \<Longrightarrow> 0 < n \<Longrightarrow> x \<noteq> 0"
  by auto

lemma lc_load_in_flight:
  "in_flight M ops = Some M' \<Longrightarrow> (\<And>i. lc_load b i = count M i) \<Longrightarrow> size M + length ops < 2 ^ 64 \<Longrightarrow>
     lc_load (foldl lc_apply b ops) i = count M' i"
proof (induction ops arbitrary: b M)
  case (Cons op ops)
  show ?case
  proof (cases op)
    case (Acquire j)
    have "count M j < 2 ^ 64 - 1" using Cons.prems(3) count_le_size [of M j] by simp
    then have "lc_load (lc_acquire j b) i = count (add_mset j M) i" for i
      using Cons.prems(2) [of i] Cons.prems(2) [of j]
      by (auto simp: lc_load_def lc_acquire_def unat_plus_if' split: option.splits)
    then show ?thesis using Cons Acquire by simp
  next
    case (Release j)
    then have j: "j \<in># M" "in_flight (M - {#j#}) ops = Some M'" using Cons.prems(1) by (auto split: if_splits)
    then have "0 < count M j" by simp
    then have "lc_load (lc_release j b) i = count (M - {#j#}) i" for i
      using Cons.prems(2) [of i] Cons.prems(2) [of j]
      by (cases "hm_get (lc_in_flight b) j") (auto simp: lc_load_def lc_release_def unat_minus_one word_neq_0_unat)
    then show ?thesis using Cons.IH [OF j(2)] Cons.prems(3) Release j(1) by (simp add: size_Diff_singleton)
  qed
qed simp

lemma lc_new_load [simp]: "lc_load least_connections_new i = 0"
  by (simp add: lc_load_def least_connections_new_def)

text \<open>
  C33. Each balancer distributes as it says. In \<open>k\<close> rounds of as many picks as there are instances, round robin picks every
  instance \<open>k\<close> times, as long as its counter does not wrap around. Of the slots that the weighted balancer may draw, an instance owns
  exactly as many as its weight, where zero counts as one, and the fallback to the last instance is never used. The least-connections balancer picks
  an instance with the fewest requests in flight, as long as no request is released twice.
\<close>

theorem balancers_distribute_load:
  assumes "instances \<noteq> []" "unat (rb_counter b) + k * length instances \<le> 2 ^ 64"
    and "in_flight {#} ops = Some M" "length ops < 2 ^ 64"
  shows "mset (round_robin_picks (k * length instances) instances b) = repeat_mset k (mset (map Some instances)) \<and>
    map (\<lambda>slot. weighted_pick (\<lambda>_. slot) instances) [0..<total_weight instances] =
      concat (map (\<lambda>inst. replicate (weight_of inst) (Some inst)) instances) \<and>
    (\<exists>inst. lc_pick instances (foldl lc_apply least_connections_new ops) = Some inst \<and> inst \<in> set instances \<and>
       (\<forall>other\<in>set instances. count M (si_id inst) \<le> count M (si_id other)))"
proof (intro conjI)
  have some: "weighted_loop slot instances \<noteq> None" if "slot < total_weight instances" for slot
  proof -
    have "weighted_loop slot instances \<in> set (map (\<lambda>slot. weighted_loop slot instances) [0..<total_weight instances])"
      using that by auto
    then show ?thesis unfolding weighted_slots by (auto split: if_splits)
  qed
  have "weighted_pick (\<lambda>_. slot) instances = weighted_loop slot instances" if "slot < total_weight instances" for slot
    using some [OF that] assms(1) by (auto simp: weighted_pick_def split: option.splits)
  then have "map (\<lambda>slot. weighted_pick (\<lambda>_. slot) instances) [0..<total_weight instances] =
      map (\<lambda>slot. weighted_loop slot instances) [0..<total_weight instances]" by simp
  then show "map (\<lambda>slot. weighted_pick (\<lambda>_. slot) instances) [0..<total_weight instances] =
      concat (map (\<lambda>inst. replicate (weight_of inst) (Some inst)) instances)" by (simp only: weighted_slots)
  let ?b = "foldl lc_apply least_connections_new ops"
  have load: "lc_load ?b i = count M i" for i
    using lc_load_in_flight [OF assms(3), of least_connections_new] assms(4) by simp
  obtain inst where pick: "min_by_key (\<lambda>inst. lc_load ?b (si_id inst)) instances = Some inst"
    using assms(1) by fastforce
  with min_by_key_mem [OF pick] assms(1) load show "\<exists>inst. lc_pick instances ?b = Some inst \<and> inst \<in> set instances \<and>
       (\<forall>other\<in>set instances. count M (si_id inst) \<le> count M (si_id other))"
    by (auto simp: lc_pick_def)
qed (rule round_robin_rounds [OF assms(1,2)])

text \<open>Releasing a request twice wraps the counter of its instance around: it looks like the most loaded one from then on.\<close>

lemma double_release_wraps:
  "lc_load (foldl lc_apply least_connections_new [Acquire i, Release i, Release i]) i = 2 ^ 64 - 1"
  by (simp add: lc_acquire_def lc_release_def least_connections_new_def lc_load_def unsigned_minus_1_eq_mask mask_eq_exp_minus_1)

theorem balancers_distribute_load_witness:
  "let a = service_instance_new ''a'' ''svc'' ''10.0.0.1'' 80; c = service_instance_new ''c'' ''svc'' ''10.0.0.2'' 80;
       b = foldl lc_apply least_connections_new [Acquire ''a'', Acquire ''c'', Release ''c'']
   in mset (round_robin_picks 4 [a, c] round_robin_balancer_new) = {#Some a, Some a, Some c, Some c#} \<and> lc_pick [a, c] b = Some c"
proof -
  let ?a = "service_instance_new ''a'' ''svc'' ''10.0.0.1'' 80" and ?c = "service_instance_new ''c'' ''svc'' ''10.0.0.2'' 80"
  let ?ops = "[Acquire ''a'', Acquire ''c'', Release ''c'']"
  have "in_flight {#} ?ops = Some {#''a''#}" by simp
  note spread = balancers_distribute_load [of "[?a, ?c]" round_robin_balancer_new 2 ?ops, OF _ _ this]
  have four: "2 * length [?a, ?c] = 4" by simp
  have picks: "mset (round_robin_picks 4 [?a, ?c] round_robin_balancer_new) = repeat_mset 2 (mset (map Some [?a, ?c]))"
    using spread unfolding four by (simp add: round_robin_balancer_new_def)
  have "repeat_mset 2 M = M + M" for M :: "service_instance option multiset" by (simp add: numeral_2_eq_2)
  note picks = picks [unfolded this]
  obtain inst where inst: "lc_pick [?a, ?c] (foldl lc_apply least_connections_new ?ops) = Some inst" "inst = ?a \<or> inst = ?c"
      "count {#''a''#} (si_id inst) \<le> count {#''a''#} (si_id ?c)"
    using spread by (auto simp: round_robin_balancer_new_def)
  then have "inst = ?c" by (auto simp: service_instance_new_def)
  then show ?thesis using picks inst(1) by (simp add: Let_def add_mset_commute)
qed

section \<open>A service is registered while it runs\<close>

lemma register_self_static:
  assumes "rg_enabled (dc_registration config)" "retry_duration (dc_registration config) = Inr d"
  shows "register_self env tmo config static_provider (co, (m, v)) =
    ((co\<lparr>co_instance_id := Some (si_id (enriched_instance config))\<rparr>,
      (memory_add (si_name (enriched_instance config)) (enriched_instance config) m, v)), Inr ())"
proof -
  have "retry_validate (with_on_retry (with_jitter (Fin 0) (with_constant_backoff (constant_backoff_new d)
      (with_max_attempts (max (rg_max_retries (dc_registration config)) 1) retry_policy_default)))) = Inr ()"
    by (simp add: retry_validate_def with_on_retry_def with_jitter_def with_constant_backoff_def with_max_attempts_def
        retry_policy_default_def f64_le_def)
  then show ?thesis
    using assms(2)
    by (simp add: register_self_def registration_policy_def policy_execute_def policy_execute_inner_def execute_circuit_breaker_def
        execute_timeout_def execute_retry_def with_retry_def policy_new_def policy_retry_loop.simps static_provider_def
        memory_register_def Let_def)
qed

lemma hm_get_list_static_memory:
  "hm_get_list (static_memory eps) service = map endpoint_instance (filter (\<lambda>ep. ep_name ep = service) eps)"
proof -
  have "hm_get_list (foldl (\<lambda>m ep. memory_add (ep_name ep) (endpoint_instance ep) m) m eps) service =
      hm_get_list m service @ map endpoint_instance (filter (\<lambda>ep. ep_name ep = service) eps)" for m
    by (induction eps arbitrary: m) (auto simp: memory_add_def)
  from this [of memory_new] show ?thesis by (simp add: static_memory_def memory_new_def)
qed

lemma hm_get_list_deregister:
  "hm_get_list (fst (memory_deregister i m)) service = filter (\<lambda>x. si_id x \<noteq> i) (hm_get_list m service)"
  by (induction m) (auto simp: memory_deregister_def hm_get_list_def Let_def)

text \<open>
  A service that registers itself with the static provider can be resolved exactly while its component runs: start succeeds,
  with the component healthy, the provider answers the configured endpoints of the name followed by the service itself, and
  bootstrap resolution finds an address; stop removes every instance with its id and nothing else.
\<close>

lemma static_service_registered_while_running:
  assumes "dc_enabled config" "or_text (dc_provider config) ''static'' = ''static''" "rg_enabled (dc_registration config)"
    and "rg_service_name (dc_registration config) \<noteq> []" "rg_service_port (dc_registration config) \<noteq> 0"
    and "is_ok (retry_duration (registration_defaults (dc_registration config)))"
    and "discovery_start env tmo (create_provider debug debug_all [(''static'', static_factory)]) (discovery_component_new config, w) = ((co, w1), r)"
    and "discovery_stop (co, w1) = ((co2, w2), r2)"
  shows "let self = enriched_instance (discovery_defaults config) in
    r = Inr () \<and> discovery_health co = healthy ''discovery'' \<and>
    pv_resolve static_provider service w1 =
      Inr (map endpoint_instance (filter (\<lambda>ep. ep_name ep = service) (dc_static_endpoints config)) @
           (if service = si_name self then [self] else [])) \<and>
    is_ok (resolve_addr (\<lambda>service. pv_resolve static_provider service w1) (si_name self)) \<and>
    r2 = Inr () \<and> discovery_health co2 = degraded ''discovery'' ''no services registered'' \<and>
    pv_resolve static_provider service w2 = map_sum id (filter (\<lambda>x. si_id x \<noteq> si_id self)) (pv_resolve static_provider service w1)"
proof -
  define c where "c = discovery_defaults config"
  define self where "self = enriched_instance c"
  have reg: "rg_enabled (dc_registration c)" "dc_enabled c" "dc_provider c = ''static''" "discovery_validate c = Inr ()"
    "dc_registration c = registration_defaults (dc_registration config)" "dc_static_endpoints c = dc_static_endpoints config"
    using assms(1-5) by (simp_all add: c_def discovery_defaults_def discovery_validate_def registration_defaults_def)
  obtain d where d: "retry_duration (dc_registration c) = Inr d"
    using assms(6) reg(5) by (cases "retry_duration (dc_registration c)") auto
  have healthy: "instance_is_healthy self"
    by (simp add: self_def enriched_instance_def build_instance_def instance_is_healthy_def Let_def)
  let ?m = "memory_add (si_name self) self (static_memory (dc_static_endpoints config))"
  have start: "co = \<lparr>co_config = config, co_provider = Some static_provider, co_instance_id = Some (si_id self)\<rparr>"
    "w1 = (?m, snd w)" "r = Inr ()"
    using assms(7) reg register_self_static [OF reg(1) d, of env tmo]
    by (simp_all add: discovery_start_def discovery_component_new_def create_provider_def static_factory_def Let_def
        c_def [symmetric] self_def [symmetric])
  have stop: "co2 = co\<lparr>co_instance_id := None\<rparr>" "w2 = (fst (memory_deregister (si_id self) ?m), snd w)" "r2 = Inr ()"
    using assms(8) start by (auto simp: discovery_stop_def static_provider_def Let_def split: prod.splits)
  have listed: "hm_get_list ?m service = map endpoint_instance (filter (\<lambda>ep. ep_name ep = service) (dc_static_endpoints config)) @
      (if service = si_name self then [self] else [])" for service
    by (simp add: memory_add_def hm_get_list_static_memory)
  have "find instance_is_healthy (hm_get_list ?m (si_name self)) \<noteq> None"
    using healthy by (auto simp: listed find_None_iff)
  then have "is_ok (resolve_addr (\<lambda>service. pv_resolve static_provider service w1) (si_name self))"
    by (auto simp: resolve_addr_def start static_provider_def memory_resolve_def)
  with start stop listed assms(1) show ?thesis
    by (simp add: Let_def c_def [symmetric] self_def [symmetric] discovery_health_def static_provider_def memory_resolve_def
        hm_get_list_deregister)
qed

definition sample_discovery :: discovery_config where
  "sample_discovery =
     \<lparr>dc_enabled = True, dc_provider = [], dc_addr = [], dc_scheme = [], dc_token = [],
      dc_registration = registration_config_default\<lparr>rg_enabled := True, rg_service_name := ''api'', rg_service_port := 80\<rparr>,
      dc_health = health_config_default, dc_cache_ttl = ''30s'', dc_static_endpoints = []\<rparr>"

lemma sample_retry_duration: "parse_duration ''2s'' = Some (2 * 1000000000)"
proof -
  have "show_nat 2 = ''2''" by code_simp
  moreover have "duration_unit ''s'' = Some 1000000000" by (simp add: duration_unit_def mu_def utf8_bytes_def)
  ultimately show ?thesis
    using parse_duration_whole [of "''s''" 1000000000 2] by (simp add: lower_letter_def duration_max_def)
qed

lemma static_service_registered_while_running_witness:
  "\<forall>env tmo debug debug_all. \<exists>co w1 co2 w2.
     discovery_start env tmo (create_provider debug debug_all [(''static'', static_factory)]) (discovery_component_new sample_discovery, (memory_new, ())) =
       ((co, w1), Inr ()) \<and> discovery_stop (co, w1) = ((co2, w2), Inr ()) \<and>
     pv_resolve static_provider ''api'' w1 = Inr [enriched_instance (discovery_defaults sample_discovery)] \<and>
     pv_resolve static_provider ''api'' w2 = Inr []"
proof (intro allI)
  fix env :: "(unit, memory_discovery \<times> unit) policy_env" and tmo and debug debug_all
  let ?create = "create_provider debug debug_all [(''static'', static_factory)]"
  obtain co w1 r where start: "discovery_start env tmo ?create (discovery_component_new sample_discovery, (memory_new, ())) = ((co, w1), r)"
    by (metis prod.collapse)
  obtain co2 w2 r2 where stop: "discovery_stop (co, w1) = ((co2, w2), r2)"
    by (metis prod.collapse)
  have "retry_duration (registration_defaults (dc_registration sample_discovery)) = Inr (2 * 1000000000)"
    by (simp add: sample_discovery_def registration_config_default_def registration_defaults_def retry_duration_def
        sample_retry_duration)
  then have ok: "is_ok (retry_duration (registration_defaults (dc_registration sample_discovery)))" by simp
  have name: "si_name (enriched_instance (discovery_defaults sample_discovery)) = ''api''"
    by (simp add: enriched_instance_def build_instance_def discovery_defaults_def registration_defaults_def sample_discovery_def
        registration_config_default_def Let_def)
  have "r = Inr () \<and> r2 = Inr () \<and>
      pv_resolve static_provider ''api'' w1 = Inr [enriched_instance (discovery_defaults sample_discovery)] \<and>
      pv_resolve static_provider ''api'' w2 = Inr []"
    using static_service_registered_while_running [OF _ _ _ _ _ ok start stop, of "''api''"] name
    by (simp add: sample_discovery_def registration_config_default_def or_text_def Let_def)
  then show "\<exists>co w1 co2 w2. discovery_start env tmo ?create (discovery_component_new sample_discovery, (memory_new, ())) = ((co, w1), Inr ()) \<and>
      discovery_stop (co, w1) = ((co2, w2), Inr ()) \<and>
      pv_resolve static_provider ''api'' w1 = Inr [enriched_instance (discovery_defaults sample_discovery)] \<and>
      pv_resolve static_provider ''api'' w2 = Inr []"
    using start stop by metis
qed

end
