(* ===== verification/Template.thy ===== *)
theory Template
  imports Prelude
begin

text \<open>
  The template engine of \<^verbatim>\<open>core/rskit-util/src/template\<close>: templates with a fixed set of typed placeholders (\<^verbatim>\<open>typed.rs\<close>, \<^verbatim>\<open>parser.rs\<close>,
  \<^verbatim>\<open>renderer.rs\<close>) and templates with an open set of variables (\<^verbatim>\<open>dynamic.rs\<close>), with their errors (\<^verbatim>\<open>error.rs\<close>). Strings are their UTF-8
  bytes; the delimiters are ASCII, so that they are found byte by byte.
\<close>

section \<open>Typed templates\<close>

datatype template_error =
    UnclosedPlaceholder string
  | UnmatchedClosingBrace string
  | EmptyPlaceholder
  | UnknownPlaceholder string
  | RenderError string
  | MissingVariable string

datatype 'p template_part = Literal string | Placeholder 'p

abbreviation open_brace :: char where "open_brace \<equiv> CHR ''{''"

abbreviation close_brace :: char where "close_brace \<equiv> CHR ''}''"

definition push_literal :: "'p template_part list \<Rightarrow> string \<Rightarrow> string \<Rightarrow> template_error + 'p template_part list" where
  "push_literal parts source literal =
     (if close_brace \<in> set literal then Inl (UnmatchedClosingBrace source) else Inr (parts @ [Literal literal]))"

text \<open>\<open>token\<close> is the \<^verbatim>\<open>Placeholder\<close> trait's name of a placeholder.\<close>

definition parse_placeholder :: "('p \<Rightarrow> string) \<Rightarrow> string \<Rightarrow> 'p list \<Rightarrow> template_error + 'p" where
  "parse_placeholder token t placeholders =
     (if t = [] then Inl EmptyPlaceholder
      else case find (\<lambda>p. token p = t) placeholders of Some p \<Rightarrow> Inr p | None \<Rightarrow> Inl (UnknownPlaceholder t))"

text \<open>\<open>split_at c s\<close> is what \<^verbatim>\<open>find\<close> gives: the text before the first \<open>c\<close> and the text after it.\<close>

fun split_at :: "char \<Rightarrow> string \<Rightarrow> (string \<times> string) option" where
  "split_at c [] = None"
| "split_at c (x # xs) = (if x = c then Some ([], xs) else map_option (\<lambda>(a, b). (x # a, b)) (split_at c xs))"

lemma split_at_Some: "split_at c s = Some (a, b) \<longleftrightarrow> s = a @ c # b \<and> c \<notin> set a"
proof (induction s arbitrary: a)
  case (Cons x xs)
  then show ?case by (cases a) auto
qed simp

lemma split_unique: "(c :: char) \<notin> set a \<Longrightarrow> c \<notin> set a' \<Longrightarrow> a @ c # b = a' @ c # b' \<Longrightarrow> a = a' \<and> b = b'"
  using split_at_Some [of c "a @ c # b" a b] split_at_Some [of c "a @ c # b" a' b'] by simp

lemma split_at_None [simp]: "split_at c s = None \<longleftrightarrow> c \<notin> set s"
  by (induction s) auto

function parse_loop :: "('p \<Rightarrow> string) \<Rightarrow> string \<Rightarrow> 'p list \<Rightarrow> 'p template_part list \<Rightarrow> string \<Rightarrow> template_error + 'p template_part list" where
  "parse_loop token source placeholders parts remaining =
     (case split_at open_brace remaining of
        None \<Rightarrow> if remaining \<noteq> [] then push_literal parts source remaining else Inr parts
      | Some (before, after_open) \<Rightarrow>
          try_result (if before \<noteq> [] then push_literal parts source before else Inr parts) (\<lambda>parts1.
          case split_at close_brace after_open of
            None \<Rightarrow> Inl (UnclosedPlaceholder source)
          | Some (t, rest) \<Rightarrow>
              try_result (parse_placeholder token t placeholders) (\<lambda>p.
                parse_loop token source placeholders (parts1 @ [Placeholder p]) rest)))"
  by pat_completeness auto
termination
  by (relation "measure (\<lambda>(_, _, _, _, remaining). length remaining)") (auto simp: split_at_Some)

declare parse_loop.simps [simp del]

definition parse_template :: "('p \<Rightarrow> string) \<Rightarrow> string \<Rightarrow> 'p list \<Rightarrow> template_error + 'p template_part list" where
  "parse_template token source placeholders = parse_loop token source placeholders [] source"

definition template_contains :: "'p template_part list \<Rightarrow> 'p \<Rightarrow> bool" where
  "template_contains parts p = list_ex (\<lambda>part. part = Placeholder p) parts"

text \<open>The renderer callback acts on a world; its errors come with their text.\<close>

fun render_loop :: "('p \<Rightarrow> 'w \<Rightarrow> 'w \<times> (string + string)) \<Rightarrow> string \<Rightarrow> 'p template_part list \<Rightarrow> 'w \<Rightarrow> 'w \<times> (template_error + string)" where
  "render_loop render rendered [] w = (w, Inr rendered)"
| "render_loop render rendered (Literal v # parts) w = render_loop render (rendered @ v) parts w"
| "render_loop render rendered (Placeholder p # parts) w =
     (case render p w of
        (w', Inl e) \<Rightarrow> (w', Inl (RenderError e))
      | (w', Inr v) \<Rightarrow> render_loop render (rendered @ v) parts w')"

definition render_with :: "('p \<Rightarrow> 'w \<Rightarrow> 'w \<times> (string + string)) \<Rightarrow> 'p template_part list \<Rightarrow> 'w \<Rightarrow> 'w \<times> (template_error + string)" where
  "render_with render parts w = render_loop render [] parts w"

section \<open>Dynamic templates\<close>

datatype dynamic_part = Text string | Variable string

definition is_name_char :: "char \<Rightarrow> bool" where
  "is_name_char c \<longleftrightarrow> c = CHR ''_'' \<or> c = CHR ''-'' \<or> (97 \<le> (of_char c :: nat) \<and> (of_char c :: nat) \<le> 122) \<or>
     (65 \<le> (of_char c :: nat) \<and> (of_char c :: nat) \<le> 90) \<or> (48 \<le> (of_char c :: nat) \<and> (of_char c :: nat) \<le> 57)"

definition is_valid_name :: "string \<Rightarrow> bool" where
  "is_valid_name name \<longleftrightarrow> name \<noteq> [] \<and> list_all is_name_char name"

text \<open>The first pair of equal delimiters: the text before it and the text after it.\<close>

fun split_pair :: "char \<Rightarrow> string \<Rightarrow> (string \<times> string) option" where
  "split_pair c (x # y # xs) =
     (if x = c \<and> y = c then Some ([], xs) else map_option (\<lambda>(a, b). (x # a, b)) (split_pair c (y # xs)))"
| "split_pair c _ = None"

lemma split_pair_append: "split_pair c s = Some (a, b) \<Longrightarrow> s = a @ c # c # b"
  by (induction c s arbitrary: a rule: split_pair.induct) (auto split: if_splits)

definition nonempty_text :: "string \<Rightarrow> dynamic_part list" where
  "nonempty_text s = (if s \<noteq> [] then [Text s] else [])"

function dynamic_loop :: "dynamic_part list \<Rightarrow> string \<Rightarrow> dynamic_part list" where
  "dynamic_loop parts rest =
     (case split_pair open_brace rest of
        None \<Rightarrow> parts @ nonempty_text rest
      | Some (before, after) \<Rightarrow>
          let parts1 = parts @ nonempty_text before in
          case split_pair close_brace after of
            None \<Rightarrow> dynamic_loop (parts1 @ [Text [open_brace, open_brace]]) after
          | Some (inner, rest') \<Rightarrow>
              let name = trim inner in
              dynamic_loop
                (parts1 @ [if is_valid_name name then Variable name
                           else Text ([open_brace, open_brace] @ inner @ [close_brace, close_brace])])
                rest')"
  by pat_completeness auto
termination
  by (relation "measure (\<lambda>(_, rest). length rest)") (auto dest!: split_pair_append)

declare dynamic_loop.simps [simp del]

definition dynamic_parse :: "string \<Rightarrow> dynamic_part list" where
  "dynamic_parse template = dynamic_loop [] template"

definition variables :: "dynamic_part list \<Rightarrow> string set" where
  "variables parts = set (List.map_filter (\<lambda>p. case p of Variable n \<Rightarrow> Some n | Text _ \<Rightarrow> None) parts)"

fun dynamic_render_loop :: "(string \<Rightarrow> 'w \<Rightarrow> 'w \<times> string option) \<Rightarrow> string \<Rightarrow> dynamic_part list \<Rightarrow> 'w \<Rightarrow> 'w \<times> (template_error + string)" where
  "dynamic_render_loop lookup out [] w = (w, Inr out)"
| "dynamic_render_loop lookup out (Text s # parts) w = dynamic_render_loop lookup (out @ s) parts w"
| "dynamic_render_loop lookup out (Variable n # parts) w =
     (case lookup n w of
        (w', Some v) \<Rightarrow> dynamic_render_loop lookup (out @ v) parts w'
      | (w', None) \<Rightarrow> (w', Inl (MissingVariable n)))"

definition dynamic_render :: "(string \<Rightarrow> 'w \<Rightarrow> 'w \<times> string option) \<Rightarrow> dynamic_part list \<Rightarrow> 'w \<Rightarrow> 'w \<times> (template_error + string)" where
  "dynamic_render lookup parts w = dynamic_render_loop lookup [] parts w"

section \<open>Parsing a typed template inverts writing it\<close>

fun show_part :: "('p \<Rightarrow> string) \<Rightarrow> 'p template_part \<Rightarrow> string" where
  "show_part token (Literal s) = s"
| "show_part token (Placeholder p) = open_brace # token p @ [close_brace]"

definition show_template :: "('p \<Rightarrow> string) \<Rightarrow> 'p template_part list \<Rightarrow> string" where
  "show_template token parts = concat (map (show_part token) parts)"

text \<open>The templates that can be written: no braces in literals, no empty or adjacent literals, known placeholders.\<close>

definition part_ok :: "('p \<Rightarrow> string) \<Rightarrow> 'p list \<Rightarrow> 'p template_part \<Rightarrow> bool" where
  "part_ok token placeholders part =
     (case part of
        Literal s \<Rightarrow> s \<noteq> [] \<and> open_brace \<notin> set s \<and> close_brace \<notin> set s
      | Placeholder p \<Rightarrow> p \<in> set placeholders \<and> token p \<noteq> [] \<and> close_brace \<notin> set (token p))"

fun no_adjacent_literals :: "'p template_part list \<Rightarrow> bool" where
  "no_adjacent_literals (Literal a # Literal b # parts) = False"
| "no_adjacent_literals (part # parts) = no_adjacent_literals parts"
| "no_adjacent_literals [] = True"

definition template_ok :: "('p \<Rightarrow> string) \<Rightarrow> 'p list \<Rightarrow> 'p template_part list \<Rightarrow> bool" where
  "template_ok token placeholders parts \<longleftrightarrow> list_all (part_ok token placeholders) parts \<and> no_adjacent_literals parts"

lemma parse_placeholder_iff:
  assumes "inj_on token (set placeholders)"
  shows "parse_placeholder token t placeholders = Inr p \<longleftrightarrow> p \<in> set placeholders \<and> token p = t \<and> t \<noteq> []"
proof -
  have "find (\<lambda>q. token q = t) placeholders = Some p \<longleftrightarrow> p \<in> set placeholders \<and> token p = t"
    using assms by (induction placeholders) (auto simp: inj_on_def)
  then show ?thesis by (auto simp: parse_placeholder_def split: option.splits)
qed

lemma show_template_simps [simp]:
  "show_template token [] = []"
  "show_template token (part # parts) = show_part token part @ show_template token parts"
  by (simp_all add: show_template_def)

lemma template_ok_simps [simp]:
  "template_ok token phs []"
  "template_ok token phs (Placeholder p # parts) \<longleftrightarrow> part_ok token phs (Placeholder p) \<and> template_ok token phs parts"
  "template_ok token phs (Literal s # parts) \<longleftrightarrow>
     part_ok token phs (Literal s) \<and> template_ok token phs parts \<and> (\<forall>s' parts'. parts \<noteq> Literal s' # parts')"
proof -
  have "no_adjacent_literals (Literal s # parts) \<longleftrightarrow> no_adjacent_literals parts \<and> (\<forall>s' parts'. parts \<noteq> Literal s' # parts')"
    by (cases "Literal s # parts" rule: no_adjacent_literals.cases) auto
  then show "template_ok token phs (Literal s # parts) \<longleftrightarrow>
     part_ok token phs (Literal s) \<and> template_ok token phs parts \<and> (\<forall>s' parts'. parts \<noteq> Literal s' # parts')"
    by (auto simp: template_ok_def)
qed (auto simp: template_ok_def)

definition literal_of :: "string \<Rightarrow> 'p template_part list" where
  "literal_of s = (if s = [] then [] else [Literal s])"

lemma show_plain:
  assumes "template_ok token phs parts" "open_brace \<notin> set (show_template token parts)"
  shows "parts = literal_of (show_template token parts)"
proof (cases parts)
  case (Cons part rest)
  with assms show ?thesis
  proof (cases part)
    case (Literal s)
    have "rest = []"
    proof (cases rest)
      case (Cons q qs)
      with Literal \<open>parts = part # rest\<close> assms show ?thesis by (cases q) auto
    qed
    with assms Cons Literal show ?thesis by (auto simp: literal_of_def part_ok_def)
  qed auto
qed (simp add: literal_of_def)

lemma show_braced:
  assumes "template_ok token phs parts" "show_template token parts = before @ open_brace # after" "open_brace \<notin> set before"
  shows "\<exists>p rest. parts = literal_of before @ Placeholder p # rest \<and> after = token p @ close_brace # show_template token rest"
proof (cases parts)
  case (Cons part rest)
  show ?thesis
  proof (cases part)
    case (Placeholder p)
    with Cons assms have "[] @ open_brace # (token p @ close_brace # show_template token rest) = before @ open_brace # after" by simp
    then have "before = []" "after = token p @ close_brace # show_template token rest"
      using assms(3) by (cases before; simp)+
    with Cons Placeholder show ?thesis by (simp add: literal_of_def)
  next
    case (Literal s)
    with Cons assms(1,2) obtain p rest' where rest: "rest = Placeholder p # rest'"
      by (cases rest; cases "hd rest") (auto simp: part_ok_def dest!: arg_cong [of _ _ set])
    have s: "s \<noteq> []" "open_brace \<notin> set s" using assms(1) Cons Literal by (auto simp: part_ok_def)
    have "s @ open_brace # (token p @ close_brace # show_template token rest') = before @ open_brace # after"
      using assms(2) Cons Literal rest by simp
    then have "s = before" "after = token p @ close_brace # show_template token rest'"
      using split_unique [OF s(2) assms(3)] by blast+
    with Cons Literal rest s(1) show ?thesis by (simp add: literal_of_def)
  qed
qed (use assms in simp)

lemma push_literal_of:
  "(if s \<noteq> [] then push_literal parts source s else Inr parts) = (if close_brace \<in> set s then Inl (UnmatchedClosingBrace source)
     else Inr (parts @ literal_of s))"
  by (auto simp: push_literal_def literal_of_def)

lemma parse_loop_iff:
  assumes "inj_on token (set phs)"
  shows "parse_loop token source phs parts remaining = Inr res \<longleftrightarrow>
    (\<exists>new. res = parts @ new \<and> show_template token new = remaining \<and> template_ok token phs new)"
proof (induction "length remaining" arbitrary: parts remaining rule: less_induct)
  case less
  show ?case
  proof (cases "split_at open_brace remaining")
    case None
    then have no: "open_brace \<notin> set remaining" by simp
    have "parse_loop token source phs parts remaining = Inr res \<longleftrightarrow> close_brace \<notin> set remaining \<and> res = parts @ literal_of remaining"
      unfolding parse_loop.simps [of token source phs parts remaining] None
      using push_literal_of [of remaining parts source] by (auto split: if_splits)
    moreover have "close_brace \<notin> set remaining \<longleftrightarrow> template_ok token phs (literal_of remaining)"
      using no by (auto simp: literal_of_def part_ok_def)
    moreover have "show_template token (literal_of remaining) = remaining" by (simp add: literal_of_def)
    ultimately show ?thesis using show_plain no by metis
  next
    case (Some ba)
    obtain before after where ba: "split_at open_brace remaining = Some (before, after)" using Some by (cases ba) auto
    then have rem: "remaining = before @ open_brace # after" "open_brace \<notin> set before" by (simp_all add: split_at_Some)
    show ?thesis
    proof
      assume "parse_loop token source phs parts remaining = Inr res"
      then obtain t rest p where before: "close_brace \<notin> set before" and t: "split_at close_brace after = Some (t, rest)"
        and p: "parse_placeholder token t phs = Inr p"
        and loop: "parse_loop token source phs (parts @ literal_of before @ [Placeholder p]) rest = Inr res"
        unfolding parse_loop.simps [of token source phs parts remaining] ba push_literal_of
        by (cases "split_at close_brace after") (auto simp: try_result_Inr_iff split: if_splits)
      from t have after: "after = t @ close_brace # rest" "close_brace \<notin> set t" by (simp_all add: split_at_Some)
      with loop rem less [of rest] obtain new where new: "res = parts @ literal_of before @ Placeholder p # new"
        "show_template token new = rest" "template_ok token phs new" by auto
      have "template_ok token phs (literal_of before @ Placeholder p # new)"
        using new(3) p before rem(2) after(2) unfolding parse_placeholder_iff [OF assms]
        by (auto simp: literal_of_def part_ok_def)
      then show "\<exists>new. res = parts @ new \<and> show_template token new = remaining \<and> template_ok token phs new"
        using new(1,2) p rem(1) after(1) unfolding parse_placeholder_iff [OF assms]
        by (intro exI [of _ "literal_of before @ Placeholder p # new"]) (auto simp: literal_of_def)
    next
      assume "\<exists>new. res = parts @ new \<and> show_template token new = remaining \<and> template_ok token phs new"
      then obtain new where new: "res = parts @ new" "show_template token new = remaining" "template_ok token phs new" by blast
      from show_braced [OF new(3), of before after] new(2) rem obtain p rest where
        p: "new = literal_of before @ Placeholder p # rest" "after = token p @ close_brace # show_template token rest" by auto
      have ok: "part_ok token phs (Placeholder p)" "template_ok token phs rest" "close_brace \<notin> set before"
        using new(3) unfolding p(1) literal_of_def by (auto simp: part_ok_def split: if_splits)
      then have "split_at close_brace after = Some (token p, show_template token rest)"
        using p(2) by (simp add: split_at_Some part_ok_def)
      moreover have "parse_placeholder token (token p) phs = Inr p"
        using ok(1) unfolding parse_placeholder_iff [OF assms] by (simp add: part_ok_def)
      moreover have "parse_loop token source phs (parts @ literal_of before @ [Placeholder p]) (show_template token rest) = Inr res"
        using less [of "show_template token rest" "parts @ literal_of before @ [Placeholder p]"] ok(2) new(1) p rem(1) by auto
      ultimately show "parse_loop token source phs parts remaining = Inr res"
        unfolding parse_loop.simps [of token source phs parts remaining] ba push_literal_of
        using ok(3) by simp
    qed
  qed
qed

text \<open>
  C34. A typed template parses to a list of parts exactly when it is the text of that list: parsing and writing are inverse
  on the texts whose literals have no braces and whose placeholders are known, and every other text is
  refused. Rendering the parse with every placeholder as itself reproduces the text.
\<close>

theorem template_parse_iff_shown:
  assumes "inj_on token (set placeholders)"
  shows "(parse_template token s placeholders = Inr parts \<longleftrightarrow>
      show_template token parts = s \<and> template_ok token placeholders parts) \<and>
    (parse_template token s placeholders = Inr parts \<longrightarrow>
      render_with (\<lambda>p w. (w, Inr (open_brace # token p @ [close_brace]))) parts w = (w, Inr s))"
proof -
  have "render_loop (\<lambda>p w. (w, Inr (open_brace # token p @ [close_brace]))) out parts w = (w, Inr (out @ show_template token parts))"
    for out and parts :: "'a template_part list"
  proof (induction parts arbitrary: out)
    case (Cons part parts)
    then show ?case by (cases part) auto
  qed simp
  then show ?thesis
    unfolding parse_template_def parse_loop_iff [OF assms] by (auto simp: render_with_def)
qed

definition sample_token :: "nat \<Rightarrow> string" where
  "sample_token p = (if p = 1 then ''name'' else ''id'')"

theorem template_parse_iff_shown_witness:
  "parse_template sample_token ''hi {name}!'' [1, 2] = Inr [Literal ''hi '', Placeholder 1, Literal ''!''] \<and>
   is_ok (snd (render_with (\<lambda>p w. (w, Inr (open_brace # sample_token p @ [close_brace]))) [Literal ''hi '', Placeholder 1, Literal ''!''] ()))"
proof -
  have inj: "inj_on sample_token (set [1, 2])" by (simp add: sample_token_def inj_on_def)
  have "show_template sample_token [Literal ''hi '', Placeholder 1, Literal ''!''] = ''hi {name}!'' \<and>
      template_ok sample_token [1, 2] [Literal ''hi '', Placeholder 1, Literal ''!'']"
    by (simp add: sample_token_def part_ok_def)
  with template_parse_iff_shown [OF inj, of "''hi {name}!''" "[Literal ''hi '', Placeholder 1, Literal ''!'']" "()"]
  show ?thesis by simp
qed

section \<open>A dynamic template keeps its text\<close>

text \<open>
  The parts of a dynamic template cover its text: literals as they are, and a variable for its name between braces, with blanks
  around it.
\<close>

fun written :: "dynamic_part \<Rightarrow> string \<Rightarrow> bool" where
  "written (Text s) r \<longleftrightarrow> r = s"
| "written (Variable n) r \<longleftrightarrow>
     is_valid_name n \<and> (\<exists>inner. r = [open_brace, open_brace] @ inner @ [close_brace, close_brace] \<and> trim inner = n)"

lemma dynamic_loop_written:
  "\<exists>new raws. dynamic_loop parts rest = parts @ new \<and> concat raws = rest \<and> list_all2 written new raws"
proof (induction "length rest" arbitrary: parts rest rule: less_induct)
  case less
  have plain: "\<exists>raws. concat raws = s \<and> list_all2 written (nonempty_text s) raws" for s
    by (rule exI [of _ "if s = [] then [] else [s]"]) (simp add: nonempty_text_def)
  show ?case
  proof (cases "split_pair open_brace rest")
    case None
    then show ?thesis using plain [of rest] unfolding dynamic_loop.simps [of parts rest] by auto
  next
    case (Some ba)
    then obtain before after where ba: "split_pair open_brace rest = Some (before, after)" by (cases ba) auto
    note rest = split_pair_append [OF ba]
    obtain raws0 where raws0: "concat raws0 = before" "list_all2 written (nonempty_text before) raws0" using plain by blast
    show ?thesis
    proof (cases "split_pair close_brace after")
      case None
      let ?p = "Text [open_brace, open_brace]"
      from less [of after "parts @ nonempty_text before @ [?p]"] rest obtain new raws where
        IH: "dynamic_loop (parts @ nonempty_text before @ [?p]) after = parts @ nonempty_text before @ ?p # new"
          "concat raws = after" "list_all2 written new raws" by auto
      have "dynamic_loop parts rest = parts @ nonempty_text before @ ?p # new"
        unfolding dynamic_loop.simps [of parts rest] ba using None IH(1) by (simp add: Let_def)
      then show ?thesis using raws0 IH(2,3) rest
        by (intro exI [of _ "nonempty_text before @ ?p # new"] exI [of _ "raws0 @ [open_brace, open_brace] # raws"])
          (auto intro: list_all2_appendI)
    next
      case (Some ir)
      then obtain inner rest' where ir: "split_pair close_brace after = Some (inner, rest')" by (cases ir) auto
      note after = split_pair_append [OF ir]
      define p where "p = (if is_valid_name (trim inner) then Variable (trim inner)
        else Text ([open_brace, open_brace] @ inner @ [close_brace, close_brace]))"
      have p: "written p ([open_brace, open_brace] @ inner @ [close_brace, close_brace])" by (simp add: p_def)
      from less [of rest' "parts @ nonempty_text before @ [p]"] rest after obtain new raws where
        IH: "dynamic_loop (parts @ nonempty_text before @ [p]) rest' = parts @ nonempty_text before @ p # new"
          "concat raws = rest'" "list_all2 written new raws" by auto
      have "dynamic_loop parts rest = parts @ nonempty_text before @ p # new"
        unfolding dynamic_loop.simps [of parts rest] ba using ir IH(1) by (simp add: Let_def p_def)
      then show ?thesis using raws0 IH(2,3) rest after p
        by (intro exI [of _ "nonempty_text before @ p # new"]
            exI [of _ "raws0 @ ([open_brace, open_brace] @ inner @ [close_brace, close_brace]) # raws"])
          (auto intro: list_all2_appendI)
    qed
  qed
qed

lemma dynamic_parse_written: "\<exists>raws. concat raws = template \<and> list_all2 written (dynamic_parse template) raws"
  using dynamic_loop_written [of "[]" template] by (auto simp: dynamic_parse_def)

text \<open>Rendering fails exactly at the first variable without a value, and otherwise concatenates the vals.\<close>

fun expansion :: "(string \<Rightarrow> string option) \<Rightarrow> dynamic_part list \<Rightarrow> template_error + string" where
  "expansion vals [] = Inr []"
| "expansion vals (Text s # parts) = try_result (expansion vals parts) (\<lambda>r. Inr (s @ r))"
| "expansion vals (Variable n # parts) =
     (case vals n of None \<Rightarrow> Inl (MissingVariable n) | Some v \<Rightarrow> try_result (expansion vals parts) (\<lambda>r. Inr (v @ r)))"

lemma dynamic_render_expansion:
  "dynamic_render (\<lambda>n w. (w, vals n)) parts w = (w, expansion vals parts)"
proof -
  have "dynamic_render_loop (\<lambda>n w. (w, vals n)) out parts w = (w, try_result (expansion vals parts) (\<lambda>r. Inr (out @ r)))" for out
    by (induction parts arbitrary: out rule: expansion.induct) (auto simp: try_result_def split: option.splits sum.splits)
  from this [of "[]"] show ?thesis by (simp add: dynamic_render_def try_result_def split: sum.splits)
qed

lemma dynamic_render_ok_iff: "is_ok (expansion vals parts) \<longleftrightarrow> (\<forall>n\<in>variables parts. vals n \<noteq> None)"
proof (induction parts)
  case (Cons p parts)
  then show ?case
    by (cases p; cases "expansion vals parts") (auto simp: variables_def map_filter_simps split: option.splits)
qed (simp add: variables_def map_filter_simps)

end
