(* ===== verification/Hooks.thy ===== *)
theory Hooks
  imports Errors
begin

text \<open>
  The hook registry of \<^verbatim>\<open>core/rskit-hook/src\<close> (\<^verbatim>\<open>types.rs\<close>, \<^verbatim>\<open>registry.rs\<close>): typed handlers, their registration and removal, and the
  synchronous dispatch of an event with its aggregation of errors. Handlers are user code: the registry holds
  names \<open>'h\<close> for them, and \<open>run\<close> says what a handler does. It may change the registry itself and the world, call \<open>emit\<close> again,
  return an error or panic.
\<close>

section \<open>Events and errors\<close>

record hook_error =
  he_message :: string
  he_fatal :: bool

definition hook_error_new :: "string \<Rightarrow> hook_error" where
  "hook_error_new message = \<lparr>he_message = message, he_fatal = False\<rparr>"

definition hook_error_fatal :: "string \<Rightarrow> hook_error" where
  "hook_error_fatal message = \<lparr>he_message = message, he_fatal = True\<rparr>"

definition hook_error_join :: "hook_error \<Rightarrow> hook_error \<Rightarrow> hook_error" where
  "hook_error_join a b = \<lparr>he_message = he_message a @ ''; '' @ he_message b, he_fatal = he_fatal a \<or> he_fatal b\<rparr>"

type_synonym hook_result = "hook_error + unit"

definition on_error_type :: string where "on_error_type = ''on_error''"

datatype 'e hook_payload = UserPayload 'e | ErrorPayload hook_error string

text \<open>An event has the identity of its Rust type, its event type and its contents.\<close>

record 'e hook_event =
  hk_type :: string
  hk_event_type :: string
  hk_payload :: "'e hook_payload"

definition error_event_type_id :: string where "error_event_type_id = ''ErrorEvent''"

definition error_event :: "hook_error \<Rightarrow> string \<Rightarrow> 'e hook_event" where
  "error_event e source = \<lparr>hk_type = error_event_type_id, hk_event_type = on_error_type, hk_payload = ErrorPayload e source\<rparr>"

section \<open>The registry\<close>

type_synonym handler_key = "string \<times> string"

record 'h erased_handler =
  eh_type :: string
  eh_handler :: 'h

record 'h hook_registry =
  hr_handlers :: "(handler_key, (nat \<times> 'h erased_handler) list) hashmap"
  hr_event_types :: "(string, string) hashmap"
  hr_next_id :: nat

definition hook_registry_new :: "'h hook_registry" where
  "hook_registry_new = \<lparr>hr_handlers = [], hr_event_types = [], hr_next_id = 0\<rparr>"

definition handlers_of :: "handler_key \<Rightarrow> 'h hook_registry \<Rightarrow> (nat \<times> 'h erased_handler) list" where
  "handlers_of key r = (case hm_get (hr_handlers r) key of Some items \<Rightarrow> items | None \<Rightarrow> [])"

text \<open>\<open>on\<close> returns what the removal closure holds: the key and the id of the handler.\<close>

definition hook_on :: "string \<Rightarrow> string \<Rightarrow> 'h \<Rightarrow> 'h hook_registry \<Rightarrow> 'h hook_registry \<times> (handler_key \<times> nat)" where
  "hook_on type_id event_type handler r =
     (let key = (type_id, event_type); i = hr_next_id r
      in (r\<lparr>hr_event_types := hm_insert type_id event_type (hr_event_types r), hr_next_id := i + 1,
            hr_handlers := hm_insert key (handlers_of key r @ [(i, \<lparr>eh_type = type_id, eh_handler = handler\<rparr>)]) (hr_handlers r)\<rparr>,
          (key, i)))"

definition hook_unregister :: "handler_key \<times> nat \<Rightarrow> 'h hook_registry \<Rightarrow> 'h hook_registry" where
  "hook_unregister t r =
     (case hm_get (hr_handlers r) (fst t) of
        Some items \<Rightarrow> r\<lparr>hr_handlers := hm_insert (fst t) (filter (\<lambda>(i, _). i \<noteq> snd t) items) (hr_handlers r)\<rparr>
      | None \<Rightarrow> r)"

definition has_handlers :: "string \<Rightarrow> string \<Rightarrow> 'h hook_registry \<Rightarrow> bool" where
  "has_handlers type_id event_type r =
     (case hm_get (hr_handlers r) (type_id, event_type) of Some items \<Rightarrow> items \<noteq> [] | None \<Rightarrow> False)"

definition hook_clear :: "string \<Rightarrow> string \<Rightarrow> 'h hook_registry \<Rightarrow> 'h hook_registry" where
  "hook_clear type_id event_type r = r\<lparr>hr_handlers := hm_remove (type_id, event_type) (hr_handlers r)\<rparr>"

definition hook_clear_all :: "'h hook_registry \<Rightarrow> 'h hook_registry" where
  "hook_clear_all r = r\<lparr>hr_handlers := []\<rparr>"

section \<open>Dispatch\<close>

datatype panic_payload = PanicText string | PanicOther

datatype hook_outcome = HookReturn hook_result | HookPanic panic_payload

definition panic_message :: "panic_payload \<Rightarrow> string" where
  "panic_message p = (case p of PanicText message \<Rightarrow> message | PanicOther \<Rightarrow> ''unknown panic payload'')"

text \<open>The result of a handler behind \<^verbatim>\<open>catch_unwind\<close>.\<close>

definition caught :: "hook_outcome \<Rightarrow> hook_result" where
  "caught out =
     (case out of HookReturn r \<Rightarrow> r | HookPanic p \<Rightarrow> Inl (hook_error_new (''hook handler panicked: '' @ panic_message p)))"

definition join_errors :: "hook_error option \<Rightarrow> hook_error \<Rightarrow> hook_error" where
  "join_errors existing next_error = (case existing of None \<Rightarrow> next_error | Some prev \<Rightarrow> hook_error_join prev next_error)"

type_synonym ('h, 'e, 'w) hook_run =
  "'h \<Rightarrow> 'e hook_event \<Rightarrow> 'h hook_registry \<times> 'w \<Rightarrow> ('h hook_registry \<times> 'w) \<times> hook_outcome"

definition call_handler ::
    "('h, 'e, 'w) hook_run \<Rightarrow> 'h erased_handler \<Rightarrow> 'e hook_event \<Rightarrow> 'h hook_registry \<times> 'w \<Rightarrow> ('h hook_registry \<times> 'w) \<times> hook_result" where
  "call_handler run h event st =
     (if hk_type event = eh_type h then (case run (eh_handler h) event st of (st', out) \<Rightarrow> (st', caught out))
      else (st, Inl (hook_error_fatal ''hook event type mismatch'')))"

text \<open>
  The loop over the snapshot of the handlers. \<open>report\<close> re-emits a non-fatal error, or is absent for events that are themselves
  error events.
\<close>

fun dispatch ::
    "('h, 'e, 'w) hook_run \<Rightarrow> ('h hook_registry \<times> 'w \<Rightarrow> bool) \<Rightarrow>
     (hook_error \<Rightarrow> 'h hook_registry \<times> 'w \<Rightarrow> ('h hook_registry \<times> 'w) \<times> hook_result) option \<Rightarrow>
     'e hook_event \<Rightarrow> 'h erased_handler list \<Rightarrow> hook_error option \<Rightarrow> 'h hook_registry \<times> 'w \<Rightarrow>
     ('h hook_registry \<times> 'w) \<times> hook_result" where
  "dispatch run cancelled report event [] agg st = (st, case agg of None \<Rightarrow> Inr () | Some e \<Rightarrow> Inl e)"
| "dispatch run cancelled report event (h # hs) agg st =
     (if cancelled st then (st, Inl (hook_error_fatal ''hook dispatch cancelled''))
      else
        case call_handler run h event st of
          (st1, Inr _) \<Rightarrow> dispatch run cancelled report event hs agg st1
        | (st1, Inl err) \<Rightarrow>
            if he_fatal err then (st1, Inl (join_errors agg err))
            else
              let agg1 = join_errors agg err in
              case report of
                None \<Rightarrow> dispatch run cancelled report event hs (Some agg1) st1
              | Some emit_error \<Rightarrow>
                  (case emit_error err st1 of
                     (st2, Inr _) \<Rightarrow> dispatch run cancelled report event hs (Some agg1) st2
                   | (st2, Inl emit_err) \<Rightarrow>
                       if he_fatal emit_err then (st2, Inl (join_errors (Some agg1) emit_err))
                       else dispatch run cancelled report event hs (Some (join_errors (Some agg1) emit_err)) st2))"

definition emit_with ::
    "('h, 'e, 'w) hook_run \<Rightarrow> ('h hook_registry \<times> 'w \<Rightarrow> bool) \<Rightarrow>
     (hook_error \<Rightarrow> 'h hook_registry \<times> 'w \<Rightarrow> ('h hook_registry \<times> 'w) \<times> hook_result) option \<Rightarrow>
     'e hook_event \<Rightarrow> 'h hook_registry \<times> 'w \<Rightarrow> ('h hook_registry \<times> 'w) \<times> hook_result" where
  "emit_with run cancelled report event st =
     (case hm_get (hr_handlers (fst st)) (hk_type event, hk_event_type event) of
        None \<Rightarrow> (st, Inr ())
      | Some items \<Rightarrow> dispatch run cancelled report event (map snd items) None st)"

definition emit_error ::
    "('h, 'e, 'w) hook_run \<Rightarrow> ('h hook_registry \<times> 'w \<Rightarrow> bool) \<Rightarrow> string \<Rightarrow> hook_error \<Rightarrow> 'h hook_registry \<times> 'w \<Rightarrow>
     ('h hook_registry \<times> 'w) \<times> hook_result" where
  "emit_error run cancelled source e st = emit_with run cancelled None (error_event e source) st"

definition emit ::
    "('h, 'e, 'w) hook_run \<Rightarrow> ('h hook_registry \<times> 'w \<Rightarrow> bool) \<Rightarrow> 'e hook_event \<Rightarrow> 'h hook_registry \<times> 'w \<Rightarrow>
     ('h hook_registry \<times> 'w) \<times> hook_result" where
  "emit run cancelled event st =
     emit_with run cancelled
       (if hk_event_type event = on_error_type then None else Some (emit_error run cancelled (hk_event_type event))) event st"

section \<open>What an emission does\<close>

text \<open>
  The contract, without accumulation: the handlers called, each with the errors that it led to, its own and that of the
  re-emission, and how the loop ended.
\<close>

datatype ending = AllRan | Fatal | Cancelled_Dispatch

fun observed ::
    "('h, 'e, 'w) hook_run \<Rightarrow> ('h hook_registry \<times> 'w \<Rightarrow> bool) \<Rightarrow>
     (hook_error \<Rightarrow> 'h hook_registry \<times> 'w \<Rightarrow> ('h hook_registry \<times> 'w) \<times> hook_result) option \<Rightarrow>
     'e hook_event \<Rightarrow> 'h erased_handler list \<Rightarrow> 'h hook_registry \<times> 'w \<Rightarrow>
     ('h hook_registry \<times> 'w) \<times> ('h erased_handler \<times> hook_error list) list \<times> ending" where
  "observed run cancelled report event [] st = (st, [], AllRan)"
| "observed run cancelled report event (h # hs) st =
     (if cancelled st then (st, [], Cancelled_Dispatch)
      else
        let (st1, r) = call_handler run h event st;
            (st2, errs) = (case (r, report) of
                (Inr _, _) \<Rightarrow> (st1, [])
              | (Inl err, None) \<Rightarrow> (st1, [err])
              | (Inl err, Some emit_err) \<Rightarrow>
                  if he_fatal err then (st1, [err])
                  else (case emit_err err st1 of (st2, Inr _) \<Rightarrow> (st2, [err]) | (st2, Inl e2) \<Rightarrow> (st2, [err, e2])))
        in if list_ex he_fatal errs then (st2, [(h, errs)], Fatal)
           else case observed run cancelled report event hs st2 of (st3, calls, e) \<Rightarrow> (st3, (h, errs) # calls, e))"

definition all_errors :: "('h erased_handler \<times> hook_error list) list \<Rightarrow> hook_error list" where
  "all_errors calls = concat (map snd calls)"

fun joined :: "hook_error list \<Rightarrow> hook_error option" where
  "joined [] = None"
| "joined (e # es) = Some \<lparr>he_message = join ''; '' (map he_message (e # es)), he_fatal = list_ex he_fatal (e # es)\<rparr>"

definition emission_result :: "hook_error list \<Rightarrow> ending \<Rightarrow> hook_result" where
  "emission_result errs e =
     (if e = Cancelled_Dispatch then Inl (hook_error_fatal ''hook dispatch cancelled'')
      else case joined errs of None \<Rightarrow> Inr () | Some err \<Rightarrow> Inl err)"

lemma join_snoc: "xs \<noteq> [] \<Longrightarrow> join sep (xs @ [y]) = join sep xs @ sep @ y"
  by (induction sep xs rule: join.induct) auto

lemma join_errors_joined: "Some (join_errors (joined es) e) = joined (es @ [e])"
  by (cases es) (auto simp: join_errors_def hook_error_join_def join_snoc [of "map he_message (a # b)" for a b, simplified])

lemma dispatch_observed:
  "dispatch run cancelled report event hs (joined es) st =
     (case observed run cancelled report event hs st of (st', calls, e) \<Rightarrow> (st', emission_result (es @ all_errors calls) e))"
proof (induction hs arbitrary: es st)
  case Nil
  then show ?case by (auto simp: emission_result_def all_errors_def split: option.splits)
next
  case (Cons h hs)
  note IH = Cons.IH [of "es @ errs" for errs]
  show ?case
  proof (cases "cancelled st")
    case False
    obtain st1 r where call: "call_handler run h event st = (st1, r)" by fastforce
    show ?thesis
    proof (cases r)
      case (Inr u)
      then show ?thesis using False call Cons.IH by (auto simp: all_errors_def split: prod.splits)
    next
      case (Inl err)
      have one: "Some (join_errors (joined es) err) = joined (es @ [err])" by (rule join_errors_joined)
      show ?thesis
      proof (cases "he_fatal err")
        case True
        then show ?thesis using False call Inl one
          by (auto simp: all_errors_def emission_result_def one [symmetric] split: option.splits)
      next
        case nonfatal: False
        show ?thesis
        proof (cases report)
          case None
          then show ?thesis using False call Inl nonfatal IH [of "[err]"]
            by (auto simp: one all_errors_def Let_def split: prod.splits)
        next
          case (Some emit_err)
          obtain st2 r2 where reported: "emit_err err st1 = (st2, r2)" by fastforce
          show ?thesis
          proof (cases r2)
            case (Inr u)
            then show ?thesis using False call Inl nonfatal Some reported IH [of "[err]"]
              by (auto simp: one all_errors_def Let_def split: prod.splits)
          next
            case (Inl e2)
            have two: "Some (join_errors (joined (es @ [err])) e2) = joined (es @ [err, e2])"
              using join_errors_joined [of "es @ [err]" e2] by simp
            note facts = False call \<open>r = Inl err\<close> nonfatal Some reported Inl
            show ?thesis
            proof (cases "he_fatal e2")
              case True
              then show ?thesis using facts
                by (simp add: one all_errors_def emission_result_def two [symmetric])
            next
              case False
              then show ?thesis using facts IH [of "[err, e2]"]
                by (simp add: one two all_errors_def split: prod.splits)
            qed
          qed
        qed
      qed
    qed
  qed (simp add: emission_result_def)
qed

lemma observed_calls:
  "observed run cancelled report event hs st = (st', calls, e) \<Longrightarrow>
     prefix (map fst calls) hs \<and> (e = AllRan \<longrightarrow> map fst calls = hs) \<and> (e = Fatal \<longleftrightarrow> list_ex he_fatal (all_errors calls))"
proof (induction hs arbitrary: st calls)
  case (Cons h hs)
  from Cons.prems consider (cancelled) "calls = []" "e = Cancelled_Dispatch"
    | (fatal) errs where "calls = [(h, errs)]" "list_ex he_fatal errs" "e = Fatal"
    | (go_on) errs st2 calls' where "calls = (h, errs) # calls'" "\<not> list_ex he_fatal errs"
        "observed run cancelled report event hs st2 = (st', calls', e)"
    by (auto simp: Let_def split: if_splits prod.splits)
  then show ?case
  proof cases
    case go_on
    with Cons.IH [OF go_on(3)] show ?thesis by (auto simp: all_errors_def)
  qed (auto simp: all_errors_def)
qed (auto simp: all_errors_def)

text \<open>
  C32. Emitting an event calls a prefix of the handlers registered for its type when it began, in registration order
  and each once, whatever the handlers do to the registry: all of them, unless an error is fatal or the dispatch is cancelled. A
  panic counts as a non-fatal error. The result is success exactly if no handler and no re-emission
  failed; otherwise it carries the messages of all errors, in order, and is fatal exactly if one of them is. A dispatch that is
  found cancelled before a handler reports only the cancellation, and loses the errors collected before.
\<close>

theorem emit_runs_handlers_in_order:
  "\<exists>st' calls e.
     observed run cancelled (if hk_event_type event = on_error_type then None else Some (emit_error run cancelled (hk_event_type event)))
       event (map snd (handlers_of (hk_type event, hk_event_type event) (fst st))) st = (st', calls, e) \<and>
     emit run cancelled event st = (st', emission_result (all_errors calls) e) \<and>
     prefix (map fst calls) (map snd (handlers_of (hk_type event, hk_event_type event) (fst st))) \<and>
     (e = AllRan \<longrightarrow> map fst calls = map snd (handlers_of (hk_type event, hk_event_type event) (fst st))) \<and>
     (e = Fatal \<longleftrightarrow> list_ex he_fatal (all_errors calls))"
proof -
  let ?report = "if hk_event_type event = on_error_type then None else Some (emit_error run cancelled (hk_event_type event))"
  let ?hs = "map snd (handlers_of (hk_type event, hk_event_type event) (fst st))"
  obtain st' calls e where obs: "observed run cancelled ?report event ?hs st = (st', calls, e)"
    by (metis prod_cases3)
  have "emit run cancelled event st = dispatch run cancelled ?report event ?hs (joined []) st"
    by (auto simp: emit_def emit_with_def handlers_of_def split: option.splits)
  also have "\<dots> = (st', emission_result (all_errors calls) e)" unfolding dispatch_observed using obs by simp
  finally show ?thesis using obs observed_calls [OF obs] by blast
qed

text \<open>What no handler raises, an emission does not raise.\<close>

lemma dispatch_keeps:
  assumes "\<And>h ev st. (m :: _ \<Rightarrow> nat) (fst (run h ev st)) \<le> m st"
    and "\<And>emit_err err st. report = Some emit_err \<Longrightarrow> m (fst (emit_err err st)) \<le> m st"
  shows "m (fst (dispatch run cancelled report event hs agg st)) \<le> m st"
proof (induction hs arbitrary: agg st)
  case (Cons h hs)
  have call: "m st1 \<le> m st" if "call_handler run h event st = (st1, r)" for st1 r
    using that assms(1) [of "eh_handler h" event st] by (auto simp: call_handler_def split: if_splits prod.splits)
  have report: "m st2 \<le> m st1" if "report = Some f" "f err st1 = (st2, r)" for f err st1 st2 r
    using assms(2) [OF that(1), of err st1] that(2) by simp
  obtain st1 r where "call_handler run h event st = (st1, r)" by fastforce
  with call have call: "call_handler run h event st = (st1, r)" and st1: "m st1 \<le> m st" by blast+
  have rest: "m (fst (dispatch run cancelled report event hs agg' st')) \<le> m st" if "m st' \<le> m st" for agg' st'
    using Cons.IH [of agg' st'] that by linarith
  show ?case
  proof (cases report)
    case None
    then show ?thesis using rest [OF st1] st1 by (auto simp: call Let_def split: sum.split)
  next
    case (Some f)
    have "m st2 \<le> m st" if "f err st1 = (st2, r2)" for err st2 r2
      using report [OF Some that] st1 by linarith
    then show ?thesis using rest [unfolded Some] st1 unfolding Some by (auto simp: call Let_def split: sum.split prod.split)
  qed
qed simp

lemma emit_keeps:
  assumes "\<And>h ev st. (m :: _ \<Rightarrow> nat) (fst (run h ev st)) \<le> m st"
  shows "m (fst (emit run cancelled event st)) \<le> m st"
proof -
  have "m (fst (emit_with run cancelled report ev st)) \<le> m st"
    if "\<And>emit_err err st. report = Some emit_err \<Longrightarrow> m (fst (emit_err err st)) \<le> m st" for report ev st
    using dispatch_keeps [where m = m and report = report and run = run] assms that by (simp add: emit_with_def split: option.split)
  note with_report = this
  have "m (fst (emit_error run cancelled source err st)) \<le> m st" for source err st
    unfolding emit_error_def by (rule with_report) simp
  then show ?thesis unfolding emit_def by (intro with_report) (auto split: if_splits)
qed

text \<open>
  Error events are not re-emitted, so that an emission makes at most \<open>n * (1 + m)\<close> calls, for \<open>n\<close> handlers of the event and
  \<open>m\<close> of the error event, when the handlers leave the registry as it is.
\<close>

lemma dispatch_calls:
  assumes "\<And>h ev st. fst (fst (run h ev st)) = fst st" "\<And>h ev st. calls (snd (fst (run h ev st))) = Suc (calls (snd st))"
    and report: "\<And>emit_err err st. report = Some emit_err \<Longrightarrow> fst st = reg \<Longrightarrow>
      fst (fst (emit_err err st)) = reg \<and> calls (snd (fst (emit_err err st))) \<le> calls (snd st) + m"
  shows "fst st = reg \<Longrightarrow> fst (fst (dispatch run cancelled report event hs agg st)) = reg \<and>
    calls (snd (fst (dispatch run cancelled report event hs agg st))) \<le> calls (snd st) + length hs * (1 + m)"
proof (induction hs arbitrary: agg st)
  case (Cons h hs)
  obtain st1 r where call: "call_handler run h event st = (st1, r)" by fastforce
  then have st1: "fst st1 = reg" "calls (snd st1) \<le> Suc (calls (snd st))"
    using assms(1,2) [of "eh_handler h" event st] Cons.prems
    by (auto simp: call_handler_def split: if_splits prod.splits)
  have step: "fst (fst (dispatch run cancelled report event hs agg' st2)) = reg \<and>
      calls (snd (fst (dispatch run cancelled report event hs agg' st2))) \<le> calls (snd st) + length (h # hs) * (1 + m)"
    if "fst st2 = reg" "calls (snd st2) \<le> Suc (calls (snd st)) + m" for agg' st2
    using Cons.IH [of st2 agg'] that by auto
  show ?case
  proof (cases r)
    case (Inr u)
    with call st1 step [of st1] Cons.prems show ?thesis by (auto simp: trans_le_add1)
  next
    case (Inl err)
    show ?thesis
    proof (cases report)
      case None
      with call st1 step [of st1] Inl Cons.prems show ?thesis by (auto simp: Let_def trans_le_add1)
    next
      case (Some emit_err)
      obtain st2 r2 where reported: "emit_err err st1 = (st2, r2)" by fastforce
      with report [OF Some st1(1), of err] st1 have "fst st2 = reg" "calls (snd st2) \<le> Suc (calls (snd st)) + m" by auto
      with call st1 step [of st2] Inl Some reported Cons.prems show ?thesis
        by (auto simp: Let_def trans_le_add1 split: sum.splits)
    qed
  qed
qed simp

lemma emit_calls_bounded:
  assumes "\<And>h ev st. fst (fst (run h ev st)) = fst st" "\<And>h ev st. calls (snd (fst (run h ev st))) = Suc (calls (snd st))"
  shows "calls (snd (fst (emit run cancelled event st))) \<le> calls (snd st) +
    length (handlers_of (hk_type event, hk_event_type event) (fst st)) *
      (1 + length (handlers_of (error_event_type_id, on_error_type) (fst st)))"
proof -
  let ?m = "length (handlers_of (error_event_type_id, on_error_type) (fst st))"
  let ?hs = "map snd (handlers_of (hk_type event, hk_event_type event) (fst st))"
  let ?report = "if hk_event_type event = on_error_type then None else Some (emit_error run cancelled (hk_event_type event))"
  have reg: "emit_with run cancelled report ev st' = dispatch run cancelled report ev
      (map snd (handlers_of (hk_type ev, hk_event_type ev) (fst st'))) None st'" for report and ev and st'
    by (auto simp: emit_with_def handlers_of_def split: option.splits)
  have report: "fst (fst (emit_error run cancelled src err st')) = fst st \<and>
      calls (snd (fst (emit_error run cancelled src err st'))) \<le> calls (snd st') + ?m" if "fst st' = fst st" for src err st'
    using dispatch_calls [where run = run and calls = calls and report = None and reg = "fst st" and m = 0 and agg = None
        and hs = "map snd (handlers_of (error_event_type_id, on_error_type) (fst st))" and cancelled = cancelled
        and event = "error_event err src", OF assms, of st'] that
    by (simp add: emit_error_def reg) (simp add: error_event_def)
  have "fst (fst (emit_err err st')) = fst st \<and> calls (snd (fst (emit_err err st'))) \<le> calls (snd st') + ?m"
    if "(if hk_event_type event = on_error_type then None else Some (emit_error run cancelled (hk_event_type event))) = Some emit_err"
      "fst st' = fst st" for emit_err err st'
    using that(1) report [OF that(2)] by (auto split: if_splits)
  then have "fst (fst (dispatch run cancelled ?report event ?hs None st)) = fst st \<and>
      calls (snd (fst (dispatch run cancelled ?report event ?hs None st))) \<le> calls (snd st) + length ?hs * (1 + ?m)"
    by (intro dispatch_calls assms refl) blast+
  then show ?thesis by (simp add: emit_def reg)
qed

section \<open>Registration\<close>

text \<open>Handler ids are never reused, and a handler stands under the type it was registered for: its erased form never sees another.\<close>

definition registry_wf :: "'h hook_registry \<Rightarrow> bool" where
  "registry_wf r \<longleftrightarrow>
     (\<forall>key. distinct (map fst (handlers_of key r)) \<and>
        (\<forall>i h. (i, h) \<in> set (handlers_of key r) \<longrightarrow> i < hr_next_id r \<and> eh_type h = fst key))"

lemma registry_wfD: "registry_wf r \<Longrightarrow> (i, h) \<in> set (handlers_of key r) \<Longrightarrow> i < hr_next_id r \<and> eh_type h = fst key"
  unfolding registry_wf_def by blast

lemma handlers_of_hook_on [simp]:
  "handlers_of k (fst (hook_on ty et h r)) =
     handlers_of k r @ (if k = (ty, et) then [(hr_next_id r, \<lparr>eh_type = ty, eh_handler = h\<rparr>)] else [])"
  by (simp add: hook_on_def Let_def handlers_of_def)

lemma handlers_of_unregister [simp]:
  "handlers_of k (hook_unregister (key, i) r) = (if k = key then filter (\<lambda>(j, _). j \<noteq> i) (handlers_of k r) else handlers_of k r)"
  by (auto simp: hook_unregister_def handlers_of_def split: option.splits)

lemma next_id_unregister [simp]: "hr_next_id (hook_unregister t r) = hr_next_id r"
  by (simp add: hook_unregister_def split: option.splits)

lemma registry_wf_ops:
  "registry_wf hook_registry_new"
  "registry_wf r \<Longrightarrow> registry_wf (fst (hook_on ty et h r))"
  "registry_wf r \<Longrightarrow> registry_wf (hook_unregister t r)"
  "registry_wf r \<Longrightarrow> registry_wf (hook_clear ty et r)"
  "registry_wf r \<Longrightarrow> registry_wf (hook_clear_all r)"
proof -
  show "registry_wf (fst (hook_on ty et h r))" if "registry_wf r"
    using that unfolding registry_wf_def handlers_of_hook_on
    by (fastforce simp: hook_on_def Let_def)
  show "registry_wf (hook_unregister t r)" if "registry_wf r"
    using that by (cases t) (auto simp: registry_wf_def distinct_map_filter)
qed (auto simp: registry_wf_def hook_registry_new_def hook_clear_def hook_clear_all_def handlers_of_def)

text \<open>The removal closure takes out its own handler and no other, however the registry changed in between.\<close>

lemma unregister_after_on:
  assumes "registry_wf r" "hook_on ty et h r = (r', t)"
  shows "handlers_of k (hook_unregister t r') = handlers_of k r"
proof -
  have "t = ((ty, et), hr_next_id r)" "r' = fst (hook_on ty et h r)" using assms(2) by (auto simp: hook_on_def Let_def)
  moreover have "filter (\<lambda>(j, _). j \<noteq> hr_next_id r) (handlers_of k r) = handlers_of k r"
    by (rule filter_True) (use registry_wfD [OF assms(1)] in fastforce)
  ultimately show ?thesis by auto
qed

lemma emit_never_mismatches:
  assumes "registry_wf (fst st)" "h \<in> set (map snd (handlers_of (hk_type event, hk_event_type event) (fst st)))"
  shows "call_handler run h event st' = (case run (eh_handler h) event st' of (st'', out) \<Rightarrow> (st'', caught out))"
  using assms(2) registry_wfD [OF assms(1)] by (fastforce simp: call_handler_def)

section \<open>A run\<close>

text \<open>Three handlers: the first panics, the second fails for good, the third is never called; one handler observes errors.\<close>

definition sample_hooks :: "nat hook_registry" where
  "sample_hooks =
     fst (hook_on error_event_type_id on_error_type 9 (fst (hook_on ''T'' ''e'' 3 (fst (hook_on ''T'' ''e'' 2
       (fst (hook_on ''T'' ''e'' 1 hook_registry_new)))))))"

definition sample_hook :: "(nat, unit, nat list) hook_run" where
  "sample_hook h event st =
     ((fst st, snd st @ [h]),
      if h = 1 then HookPanic (PanicText ''boom'') else if h = 2 then HookReturn (Inl (hook_error_fatal ''stop'')) else HookReturn (Inr ()))"

definition sample_event :: "unit hook_event" where
  "sample_event = \<lparr>hk_type = ''T'', hk_event_type = ''e'', hk_payload = UserPayload ()\<rparr>"

theorem emit_runs_handlers_in_order_witness:
  "emit sample_hook (\<lambda>_. False) sample_event (sample_hooks, []) =
     ((sample_hooks, [1, 9, 2]), Inl \<lparr>he_message = ''hook handler panicked: boom; stop'', he_fatal = True\<rparr>)"
proof -
  let ?hs = "map (\<lambda>h. \<lparr>eh_type = ''T'', eh_handler = h\<rparr>) [1, 2, 3]"
  let ?panic = "hook_error_new (''hook handler panicked: '' @ ''boom'')"
  have hs: "map snd (handlers_of (''T'', ''e'') sample_hooks) = ?hs"
    by (simp add: sample_hooks_def hook_registry_new_def on_error_type_def error_event_type_id_def) (simp add: handlers_of_def)
  have err: "emit_error sample_hook (\<lambda>_. False) ''e'' ?panic (sample_hooks, [1]) = ((sample_hooks, [1, 9]), Inr ())"
    by (simp add: emit_error_def emit_with_def error_event_def sample_hooks_def hook_on_def handlers_of_def hook_registry_new_def
        Let_def on_error_type_def error_event_type_id_def call_handler_def sample_hook_def caught_def)
  have "observed sample_hook (\<lambda>_. False) (Some (emit_error sample_hook (\<lambda>_. False) ''e'')) sample_event ?hs (sample_hooks, []) =
      ((sample_hooks, [1, 9, 2]), [(?hs ! 0, [?panic]), (?hs ! 1, [hook_error_fatal ''stop''])], Fatal)"
    using err by (simp add: call_handler_def sample_event_def sample_hook_def caught_def panic_message_def hook_error_new_def
        hook_error_fatal_def)
  then show ?thesis
    using emit_runs_handlers_in_order [of sample_hook "\<lambda>_. False" sample_event "(sample_hooks, [])"] hs
    by (simp add: sample_event_def on_error_type_def emission_result_def all_errors_def hook_error_new_def hook_error_fatal_def)
qed

end
