(* ===== verification/Tools.thy ===== *)
theory Tools
  imports Retry
begin

text \<open>
  The tools of \<^verbatim>\<open>core/rskit-tool/src\<close>: definitions and envelopes (\<^verbatim>\<open>definition.rs\<close>, \<^verbatim>\<open>envelope.rs\<close>), inputs and results (\<^verbatim>\<open>io.rs\<close>, \<^verbatim>\<open>result.rs\<close>,
  \<^verbatim>\<open>context.rs\<close>), the sensitivity and approval stages (\<^verbatim>\<open>hitl.rs\<close>) and the registry (\<^verbatim>\<open>registry.rs\<close>). Tools, evaluators and approvers are injected
  code that acts on a world. JSON objects have their keys in order, so that equal values are equal terms; \<open>dbg\<close> is the
  \<^verbatim>\<open>Debug\<close> rendering of a string and \<open>as_f64\<close> the value of a JSON number.
\<close>

section \<open>Definitions\<close>

datatype execution_hint = HintBackend | HintUi | HintHybrid | HintUnknown

definition effective :: "execution_hint \<Rightarrow> execution_hint" where
  "effective h = (case h of HintUnknown \<Rightarrow> HintBackend | other \<Rightarrow> other)"

record annotations =
  an_title :: string
  an_category :: string
  an_tags :: "string list"
  an_idempotent_hint :: "bool option"
  an_execution_hint :: execution_hint

record network_rule =
  nr_host :: string
  nr_port :: "nat option"
  nr_scheme :: "string option"

datatype network_policy = NoNetwork | AllowList "network_rule list"

datatype filesystem_mode = FsRead | FsWrite | FsDelete

record filesystem_rule =
  fr_path :: string
  fr_mode :: filesystem_mode

record subprocess_rule =
  sr_argv_pattern :: "string list"
  sr_env_allow :: "string list"
  sr_cwd :: "string option"

datatype tool_safety = ReadOnly | Mutating | Destructive

datatype data_classification = PublicData | Pii | SecretData

datatype sensitive_matcher = Exists | Equals json | Regex string | Gt f64 | Lt f64

record sensitive_predicate =
  sp_jsonpath :: string
  sp_matcher :: sensitive_matcher

record tool_envelope =
  te_scopes :: "string list"
  te_network :: network_policy
  te_filesystem :: "filesystem_rule list"
  te_subprocess :: "subprocess_rule list"
  te_safety :: tool_safety
  te_sensitive_invocations :: "sensitive_predicate list"
  te_data_classification :: data_classification

definition envelope_default :: tool_envelope where
  "envelope_default =
     \<lparr>te_scopes = [], te_network = NoNetwork, te_filesystem = [], te_subprocess = [], te_safety = ReadOnly,
      te_sensitive_invocations = [], te_data_classification = PublicData\<rparr>"

record tool_definition =
  td_name :: string
  td_description :: string
  td_input_schema :: json
  td_output_schema :: "json option"
  td_annotations :: annotations
  td_envelope :: tool_envelope

section \<open>Inputs and results\<close>

definition is_object :: "json \<Rightarrow> bool" where
  "is_object v = (case v of JObject _ \<Rightarrow> True | _ \<Rightarrow> False)"

definition tool_schema_new :: "json \<Rightarrow> json app_result" where
  "tool_schema_new v = (if is_object v then Inr v else Inl (app_error_new InvalidInput ''tool schema must be a JSON object''))"

definition tool_input_new :: "json \<Rightarrow> json app_result" where
  "tool_input_new v = (if is_object v then Inr v else Inl (app_error_new InvalidInput ''tool input must be a JSON object''))"

record tool_result =
  tr_output :: "json option"
  tr_content :: string
  tr_is_error :: bool
  tr_metadata :: "(string, json) hashmap"

definition text_result :: "string \<Rightarrow> tool_result" where
  "text_result content = \<lparr>tr_output = None, tr_content = content, tr_is_error = False, tr_metadata = []\<rparr>"

definition error_result :: "string \<Rightarrow> tool_result" where
  "error_result content = \<lparr>tr_output = None, tr_content = content, tr_is_error = True, tr_metadata = []\<rparr>"

definition set_meta :: "string \<Rightarrow> json \<Rightarrow> tool_result \<Rightarrow> tool_result" where
  "set_meta key v r = r\<lparr>tr_metadata := hm_insert key v (tr_metadata r)\<rparr>"

record tool_context =
  tc_request_id :: string
  tc_tool_use_id :: string
  tc_max_result_size :: nat
  tc_metadata :: "(string, json) hashmap"

definition tool_context_new :: tool_context where
  "tool_context_new = \<lparr>tc_request_id = [], tc_tool_use_id = [], tc_max_result_size = 0, tc_metadata = []\<rparr>"

section \<open>Sensitivity and approval\<close>

record tool_call =
  tl_name :: string
  tl_input :: json

datatype tool_decision = Allow | DenyCall string | RequireApproval string

definition denied_error :: "string \<Rightarrow> app_error" where
  "denied_error reason = forbidden reason"

fun select_segments :: "json \<Rightarrow> string list \<Rightarrow> json option" where
  "select_segments cursor [] = Some cursor"
| "select_segments cursor (segment # rest) =
     (if segment = [] then None
      else case cursor of
             JObject m \<Rightarrow> (case map_of m segment of Some v \<Rightarrow> select_segments v rest | None \<Rightarrow> None)
           | _ \<Rightarrow> None)"

definition strip_char :: "char \<Rightarrow> string \<Rightarrow> string" where
  "strip_char c s = (case s of x # xs \<Rightarrow> if x = c then xs else s | [] \<Rightarrow> [])"

definition select_jsonpath :: "json \<Rightarrow> string \<Rightarrow> json option" where
  "select_jsonpath v path =
     (let after_root = strip_char (CHR ''.'') (strip_char (CHR ''$'') (trim path))
      in if after_root = [] then Some v else select_segments v (split_on (CHR ''.'') after_root))"

abbreviation dot :: string where "dot \<equiv> ''.''"

abbreviation asterisk :: string where "asterisk \<equiv> ''*''"

text \<open>The matcher works on characters; \<open>any_split p t\<close> tries the rest of the pattern on every suffix of the text.\<close>

function glob_match_rec :: "string list \<Rightarrow> string list \<Rightarrow> bool"
  and any_split :: "string list \<Rightarrow> string list \<Rightarrow> bool" where
  "glob_match_rec [] [] = True"
| "glob_match_rec [] (t # ts) = False"
| "glob_match_rec (p # ps) [] = False"
| "glob_match_rec (p # ps) (t # ts) =
     (if p = dot then
        (case ps of
           q # qs \<Rightarrow> if q = asterisk then any_split qs (t # ts) else glob_match_rec ps ts
         | [] \<Rightarrow> glob_match_rec ps ts)
      else if p = t then glob_match_rec ps ts else False)"
| "any_split p [] = glob_match_rec p []"
| "any_split p (t # ts) = (glob_match_rec p (t # ts) \<or> any_split p ts)"
  by pat_completeness auto
termination
  by (relation "inv_image (less_than <*lex*> less_than <*lex*> less_than)
      (case_sum (\<lambda>(p, t). (length p, length t, 0)) (\<lambda>(p, t). (length p, length t, 1)))") auto

definition glob_like_match :: "string \<Rightarrow> string \<Rightarrow> bool" where
  "glob_like_match pattern s = glob_match_rec (utf8_chars pattern) (utf8_chars s)"

definition predicate_matches :: "(string \<Rightarrow> f64) \<Rightarrow> json \<Rightarrow> sensitive_predicate \<Rightarrow> bool" where
  "predicate_matches as_f64 input p =
     (case select_jsonpath input (sp_jsonpath p) of
        None \<Rightarrow> False
      | Some v \<Rightarrow>
          (case sp_matcher p of
             Exists \<Rightarrow> True
           | Equals expected \<Rightarrow> v = expected
           | Regex pattern \<Rightarrow> (case v of JString s \<Rightarrow> glob_like_match pattern s | _ \<Rightarrow> False)
           | Gt threshold \<Rightarrow> (case v of JNumber n \<Rightarrow> f64_less threshold (as_f64 n) | _ \<Rightarrow> False)
           | Lt threshold \<Rightarrow> (case v of JNumber n \<Rightarrow> f64_less (as_f64 n) threshold | _ \<Rightarrow> False)))"

type_synonym 'w sensitivity_evaluator = "tool_context \<Rightarrow> tool_call \<Rightarrow> tool_envelope \<Rightarrow> 'w \<Rightarrow> 'w \<times> tool_decision app_result"

type_synonym 'w human_approval = "tool_context \<Rightarrow> tool_call \<Rightarrow> string \<Rightarrow> 'w \<Rightarrow> 'w \<times> bool app_result"

definition deny_on_sensitive :: "(string \<Rightarrow> string) \<Rightarrow> (string \<Rightarrow> f64) \<Rightarrow> 'w sensitivity_evaluator" where
  "deny_on_sensitive dbg as_f64 ctx call envelope w =
     (w, Inr (case find (predicate_matches as_f64 (tl_input call)) (te_sensitive_invocations envelope) of
                Some p \<Rightarrow> DenyCall (''tool '' @ dbg (tl_name call) @ '' matches sensitive predicate at '' @ dbg (sp_jsonpath p))
              | None \<Rightarrow> Allow))"

definition deny_human_approval :: "'w human_approval" where
  "deny_human_approval ctx call reason w = (w, Inr False)"

section \<open>The registry\<close>

record 'w callable =
  cl_definition :: tool_definition
  cl_validate :: "json \<Rightarrow> bool \<times> string list"
  cl_call :: "tool_context \<Rightarrow> json \<Rightarrow> 'w \<Rightarrow> 'w \<times> tool_result app_result"

record 'w tool_registry =
  tg_tools :: "(string, 'w callable) hashmap"
  tg_sensitivity :: "'w sensitivity_evaluator option"
  tg_approval :: "'w human_approval option"

definition tool_registry_new :: "'w tool_registry" where
  "tool_registry_new = \<lparr>tg_tools = [], tg_sensitivity = None, tg_approval = None\<rparr>"

definition with_sensitivity_evaluator :: "'w sensitivity_evaluator \<Rightarrow> 'w tool_registry \<Rightarrow> 'w tool_registry" where
  "with_sensitivity_evaluator e r = r\<lparr>tg_sensitivity := Some e\<rparr>"

definition with_human_approval :: "'w human_approval \<Rightarrow> 'w tool_registry \<Rightarrow> 'w tool_registry" where
  "with_human_approval a r = r\<lparr>tg_approval := Some a\<rparr>"

definition tool_register :: "(string \<Rightarrow> string) \<Rightarrow> 'w callable \<Rightarrow> 'w tool_registry \<Rightarrow> 'w tool_registry \<times> unit app_result" where
  "tool_register dbg tool r =
     (let name = td_name (cl_definition tool) in
      if trim name = [] then (r, Inl (app_error_new InvalidInput ''tool name must not be empty''))
      else if hm_contains (tg_tools r) name then (r, Inl (app_error_new AlreadyExists (''tool already registered: '' @ dbg name)))
      else (r\<lparr>tg_tools := hm_insert name tool (tg_tools r)\<rparr>, Inr ()))"

definition tool_get :: "string \<Rightarrow> 'w tool_registry \<Rightarrow> 'w callable option" where
  "tool_get name r = hm_get (tg_tools r) name"

definition tool_definitions :: "'w tool_registry \<Rightarrow> tool_definition list" where
  "tool_definitions r = map (\<lambda>(_, t). cl_definition t) (tg_tools r)"

definition tool_names :: "'w tool_registry \<Rightarrow> string list" where
  "tool_names r = map fst (tg_tools r)"

definition filter_by_execution_hint :: "execution_hint \<Rightarrow> 'w tool_registry \<Rightarrow> tool_definition list" where
  "filter_by_execution_hint wanted r =
     filter (\<lambda>d. effective (an_execution_hint (td_annotations d)) = effective wanted) (tool_definitions r)"

definition validate_tool_input :: "'w callable \<Rightarrow> json \<Rightarrow> unit app_result" where
  "validate_tool_input tool input =
     (case cl_validate tool input of
        (valid, errors) \<Rightarrow>
          if valid then Inr ()
          else
            let details = join ''; '' errors;
                shown = (if details = [] then ''schema validation failed'' else details)
            in Inl (app_error_new InvalidInput (''invalid tool input for '' @ td_name (cl_definition tool) @ '': '' @ shown)))"

definition run_hitl :: "'w tool_registry \<Rightarrow> 'w callable \<Rightarrow> tool_context \<Rightarrow> json \<Rightarrow> 'w \<Rightarrow> 'w \<times> unit app_result" where
  "run_hitl r tool ctx input w =
     (case tg_sensitivity r of
        None \<Rightarrow> (w, Inr ())
      | Some evaluate \<Rightarrow>
          let call = \<lparr>tl_name = td_name (cl_definition tool), tl_input = input\<rparr> in
          case evaluate ctx call (td_envelope (cl_definition tool)) w of
            (w1, Inl e) \<Rightarrow> (w1, Inl e)
          | (w1, Inr Allow) \<Rightarrow> (w1, Inr ())
          | (w1, Inr (DenyCall reason)) \<Rightarrow> (w1, Inl (denied_error reason))
          | (w1, Inr (RequireApproval reason)) \<Rightarrow>
              (case tg_approval r of
                 None \<Rightarrow> (w1, Inl (denied_error (''approval required but no approver configured: '' @ reason)))
               | Some approve \<Rightarrow>
                   (case approve ctx call reason w1 of
                      (w2, Inl e) \<Rightarrow> (w2, Inl e)
                    | (w2, Inr True) \<Rightarrow> (w2, Inr ())
                    | (w2, Inr False) \<Rightarrow> (w2, Inl (denied_error (''human approval rejected: '' @ reason))))))"

definition call_inner ::
    "(string \<Rightarrow> string) \<Rightarrow> 'w tool_registry \<Rightarrow> string \<Rightarrow> tool_context \<Rightarrow> json \<Rightarrow> bool \<Rightarrow> 'w \<Rightarrow> 'w \<times> tool_result app_result" where
  "call_inner dbg r name ctx input validate_input w =
     (case tool_get name r of
        None \<Rightarrow> (w, Inl (app_error_new NotFound (''tool not found: '' @ dbg name)))
      | Some tool \<Rightarrow>
          (case (if validate_input then validate_tool_input tool input else Inr ()) of
             Inl e \<Rightarrow> (w, Inl e)
           | Inr _ \<Rightarrow>
               (case run_hitl r tool ctx input w of
                  (w1, Inl e) \<Rightarrow> (w1, Inl e)
                | (w1, Inr _) \<Rightarrow> cl_call tool ctx input w1)))"

definition registry_call :: "(string \<Rightarrow> string) \<Rightarrow> 'w tool_registry \<Rightarrow> string \<Rightarrow> tool_context \<Rightarrow> json \<Rightarrow> 'w \<Rightarrow> 'w \<times> tool_result app_result" where
  "registry_call dbg r name ctx input w = call_inner dbg r name ctx input True w"

definition registry_call_validated ::
    "(string \<Rightarrow> string) \<Rightarrow> 'w tool_registry \<Rightarrow> string \<Rightarrow> tool_context \<Rightarrow> json \<Rightarrow> 'w \<Rightarrow> 'w \<times> tool_result app_result" where
  "registry_call_validated dbg r name ctx input w = call_inner dbg r name ctx input False w"

section \<open>The pattern language\<close>

text \<open>
  \<open>tokens\<close> reads a pattern as its comment describes it: a dot is any character, a dot with an asterisk any run of characters, and
  everything else itself. \<open>lang\<close> are the texts that a sequence of tokens describes.
\<close>

datatype rx_token = AnyChar | AnyRun | Lit string

fun tokens :: "string list \<Rightarrow> rx_token list" where
  "tokens [] = []"
| "tokens (p # ps) =
     (if p = dot then (case ps of q # qs \<Rightarrow> if q = asterisk then AnyRun # tokens qs else AnyChar # tokens ps | [] \<Rightarrow> [AnyChar])
      else Lit p # tokens ps)"

fun lang :: "rx_token list \<Rightarrow> string list set" where
  "lang [] = {[]}"
| "lang (AnyChar # r) = {c # w | c w. w \<in> lang r}"
| "lang (AnyRun # r) = {u @ w | u w. w \<in> lang r}"
| "lang (Lit c # r) = {c # w | w. w \<in> lang r}"

text \<open>A run at the end of the pattern has to match at least one character.\<close>

fun nonempty_tail :: "rx_token list \<Rightarrow> rx_token list" where
  "nonempty_tail [] = []"
| "nonempty_tail [AnyRun] = [AnyChar, AnyRun]"
| "nonempty_tail (t # r) = t # nonempty_tail r"

lemma any_split_iff: "any_split p t \<longleftrightarrow> (\<exists>u w. t = u @ w \<and> glob_match_rec p w)"
proof (induction t)
  case (Cons c t)
  have "(\<exists>u w. c # t = u @ w \<and> glob_match_rec p w) \<longleftrightarrow> glob_match_rec p (c # t) \<or> (\<exists>u w. t = u @ w \<and> glob_match_rec p w)"
    by (auto simp: Cons_eq_append_conv)
  then show ?case by (simp add: Cons.IH)
qed simp

lemma tokens_dot: "tokens (dot # ps) = (case ps of q # qs \<Rightarrow> if q = asterisk then AnyRun # tokens qs else AnyChar # tokens ps | [] \<Rightarrow> [AnyChar])"
  by simp

lemma tokens_Nil [simp]: "tokens ps = [] \<longleftrightarrow> ps = []"
  by (cases ps) (auto split: list.splits)

lemma nonempty_tail_AnyRun: "r \<noteq> [] \<Longrightarrow> nonempty_tail (AnyRun # r) = AnyRun # nonempty_tail r"
  by (cases r) auto

lemma nonempty_tail_other: "t \<noteq> AnyRun \<Longrightarrow> nonempty_tail (t # r) = t # nonempty_tail r"
  by (cases r; cases t) auto

lemma nonempty_tail_Nil [simp]: "nonempty_tail r = [] \<longleftrightarrow> r = []"
  by (cases r rule: nonempty_tail.cases) auto

lemma Nil_in_lang_Cons: "[] \<in> lang (t # r) \<longleftrightarrow> t = AnyRun \<and> [] \<in> lang r"
  by (cases t) auto

lemma lang_nonempty_tail: "r \<noteq> [] \<Longrightarrow> [] \<notin> lang (nonempty_tail r)"
  by (induction r rule: nonempty_tail.induct) (auto simp: Nil_in_lang_Cons)

lemma glob_match_rec_lang: "glob_match_rec p t \<longleftrightarrow> t \<in> lang (nonempty_tail (tokens p))"
proof (induction "length p" arbitrary: p t rule: less_induct)
  case less
  show ?case
  proof (cases p)
    case Nil
    then show ?thesis by (cases t) auto
  next
    case p: (Cons c ps)
    show ?thesis
    proof (cases t)
      case Nil
      then show ?thesis using lang_nonempty_tail [of "tokens p"] p by (simp del: tokens.simps)
    next
      case t: (Cons d ts)
      have IH: "glob_match_rec ps ts \<longleftrightarrow> ts \<in> lang (nonempty_tail (tokens ps))" for ts
        using less p by simp
      consider (run) qs where "c = dot" "ps = asterisk # qs" | (dot) "c = dot" "\<forall>qs. ps \<noteq> asterisk # qs" | (lit) "c \<noteq> dot"
        by blast
      then show ?thesis
      proof cases
        case run
        have IH2: "glob_match_rec qs ts \<longleftrightarrow> ts \<in> lang (nonempty_tail (tokens qs))" for ts
          using less p run by simp
        show ?thesis
          using run p t IH2
          by (cases "qs = []") (auto simp: any_split_iff nonempty_tail_AnyRun simp del: any_split.simps)
      next
        case dot
        then have "tokens p = AnyChar # tokens ps" and "glob_match_rec p t = glob_match_rec ps ts"
          using p t by (auto split: list.splits)
        then show ?thesis using IH t by (simp add: nonempty_tail_other)
      next
        case lit
        then show ?thesis using p t IH by (auto simp: nonempty_tail_other)
      qed
    qed
  qed
qed

lemma nonempty_tail_same: "r = [] \<or> List.last r \<noteq> AnyRun \<Longrightarrow> nonempty_tail r = r"
  by (induction r rule: nonempty_tail.induct) (auto split: if_splits)

lemma glob_like_match_exact:
  assumes "tokens (utf8_chars pattern) = [] \<or> List.last (tokens (utf8_chars pattern)) \<noteq> AnyRun"
  shows "glob_like_match pattern s \<longleftrightarrow> utf8_chars s \<in> lang (tokens (utf8_chars pattern))"
  using assms by (simp add: glob_like_match_def glob_match_rec_lang nonempty_tail_same)

text \<open>
  A pattern that ends in a run misses the text without it: a sensitive call that the pattern is meant to cover goes through.
\<close>

lemma trailing_run_missed:
  "[''r'', ''m''] \<in> lang (tokens (utf8_chars ''rm.*'')) \<and> \<not> glob_like_match ''rm.*'' ''rm'' \<and> glob_like_match ''rm.*'' ''rmdir''"
  by (simp add: glob_like_match_def is_continuation_def)

section \<open>Registered tools\<close>

definition register_all :: "(string \<Rightarrow> string) \<Rightarrow> 'w callable list \<Rightarrow> 'w tool_registry \<Rightarrow> 'w tool_registry" where
  "register_all dbg ts r = foldl (\<lambda>r t. fst (tool_register dbg t r)) r ts"

abbreviation tool_name :: "'w callable \<Rightarrow> string" where
  "tool_name t \<equiv> td_name (cl_definition t)"

lemma tool_register_get:
  "tool_get n (fst (tool_register dbg t r)) =
     (case tool_get n r of
        Some t' \<Rightarrow> Some t'
      | None \<Rightarrow> if n = tool_name t \<and> trim n \<noteq> [] then Some t else None)"
  using hm_get_None_iff [of "tg_tools r" "tool_name t"]
  by (auto simp: tool_register_def tool_get_def Let_def split: option.splits)

lemma tool_register_stages [simp]:
  "tg_sensitivity (fst (tool_register dbg t r)) = tg_sensitivity r"
  "tg_approval (fst (tool_register dbg t r)) = tg_approval r"
  by (simp_all add: tool_register_def Let_def)

lemma register_all_stages [simp]:
  "tg_sensitivity (register_all dbg ts r) = tg_sensitivity r"
  "tg_approval (register_all dbg ts r) = tg_approval r"
  by (induction ts arbitrary: r) (simp_all add: register_all_def)

text \<open>Under each name the registry holds the tool that was registered first; nameless tools are refused.\<close>

lemma register_all_get:
  "tool_get n (register_all dbg ts r) =
     (case tool_get n r of
        Some t \<Rightarrow> Some t
      | None \<Rightarrow> if trim n = [] then None else find (\<lambda>t. tool_name t = n) ts)"
  by (induction ts arbitrary: r) (auto simp: register_all_def tool_register_get split: option.splits)

lemma tool_get_registry_new: "tool_get n (with_sensitivity_evaluator e tool_registry_new) = None"
  by (simp add: tool_get_def with_sensitivity_evaluator_def tool_registry_new_def)

section \<open>Gated calls\<close>

lemma call_inner_cases:
  assumes "tool_get n r = Some t"
  shows "registry_call dbg r n ctx input w =
           (case validate_tool_input t input of
              Inl e \<Rightarrow> (w, Inl e)
            | Inr _ \<Rightarrow> (case run_hitl r t ctx input w of (w1, Inl e) \<Rightarrow> (w1, Inl e) | (w1, Inr _) \<Rightarrow> cl_call t ctx input w1))"
  using assms by (simp add: registry_call_def call_inner_def)

abbreviation declared :: "'w callable \<Rightarrow> sensitive_predicate list" where
  "declared t \<equiv> te_sensitive_invocations (td_envelope (cl_definition t))"

definition covered :: "(string \<Rightarrow> f64) \<Rightarrow> 'w callable \<Rightarrow> json \<Rightarrow> bool" where
  "covered as_f64 t input \<longleftrightarrow> (\<exists>p\<in>set (declared t). predicate_matches as_f64 input p)"

lemma run_hitl_deny_on_sensitive:
  assumes "tg_sensitivity r = Some (deny_on_sensitive dbg as_f64)"
  shows "run_hitl r t ctx input w =
     (w, if covered as_f64 t input
         then Inl (forbidden (''tool '' @ dbg (tool_name t) @ '' matches sensitive predicate at ''
                @ dbg (sp_jsonpath (the (find (predicate_matches as_f64 input) (declared t))))))
         else Inr ())"
proof (cases "find (predicate_matches as_f64 input) (declared t)")
  case None
  then have "\<not> covered as_f64 t input" by (auto simp: covered_def find_None_iff)
  then show ?thesis using assms None by (simp add: run_hitl_def deny_on_sensitive_def Let_def)
next
  case (Some p)
  then have "covered as_f64 t input" unfolding covered_def find_Some_iff by auto
  then show ?thesis using assms Some by (simp add: run_hitl_def deny_on_sensitive_def denied_error_def)
qed

lemma validate_tool_input_error: "validate_tool_input t input = Inl e \<Longrightarrow> err_code e = InvalidInput \<and> \<not> fst (cl_validate t input)"
  by (auto simp: validate_tool_input_def app_error_new_def Let_def split: prod.splits if_splits)

lemma validate_tool_input_ok: "validate_tool_input t input = Inr u \<longleftrightarrow> fst (cl_validate t input)"
  by (auto simp: validate_tool_input_def Let_def split: prod.splits)

lemma regex_predicate:
  assumes "select_jsonpath input (sp_jsonpath p) = Some (JString s)" and "sp_matcher p = Regex pattern"
  shows "predicate_matches as_f64 input p \<longleftrightarrow> utf8_chars s \<in> lang (nonempty_tail (tokens (utf8_chars pattern)))"
  using assms by (simp add: predicate_matches_def glob_like_match_def glob_match_rec_lang)

text \<open>
  C35. A registry with the default evaluator never runs a tool on an input that one of the predicates of its envelope covers: the call
  leaves the world as it is and fails as forbidden, or as an invalid input. Every other valid input gets the answer of the tool itself.
  The tool of a name is the first one registered under it; a text predicate covers exactly the texts that the pattern describes,
  except that a run at its end stands for at least one character.
\<close>

theorem sensitive_calls_denied:
  fixes dbg :: "string \<Rightarrow> string" and as_f64 :: "string \<Rightarrow> f64"
  assumes "trim n \<noteq> []" and "find (\<lambda>t. tool_name t = n) ts = Some t"
    and r: "r = register_all dbg ts (with_sensitivity_evaluator (deny_on_sensitive dbg as_f64) tool_registry_new)"
  shows "(if covered as_f64 t input
          then \<exists>e. registry_call dbg r n ctx input w = (w, Inl e) \<and>
                   err_code e = (if fst (cl_validate t input) then Forbidden else InvalidInput)
          else fst (cl_validate t input) \<longrightarrow> registry_call dbg r n ctx input w = cl_call t ctx input w) \<and>
         (\<forall>p\<in>set (declared t). \<forall>s pattern. select_jsonpath input (sp_jsonpath p) = Some (JString s) \<and> sp_matcher p = Regex pattern \<and>
            utf8_chars s \<in> lang (nonempty_tail (tokens (utf8_chars pattern))) \<longrightarrow> covered as_f64 t input)"
proof -
  have get: "tool_get n r = Some t"
    using assms(1,2) by (simp add: r register_all_get tool_get_registry_new)
  have hitl: "tg_sensitivity r = Some (deny_on_sensitive dbg as_f64)"
    by (simp add: r with_sensitivity_evaluator_def)
  note call = call_inner_cases [OF get, of dbg ctx input w] run_hitl_deny_on_sensitive [OF hitl]
  have "\<exists>e. registry_call dbg r n ctx input w = (w, Inl e) \<and> err_code e = (if fst (cl_validate t input) then Forbidden else InvalidInput)"
    if "covered as_f64 t input"
    using that validate_tool_input_error [of t input] validate_tool_input_ok [of t input]
    by (cases "validate_tool_input t input") (auto simp: call forbidden_def app_error_new_def)
  moreover have "registry_call dbg r n ctx input w = cl_call t ctx input w"
    if "\<not> covered as_f64 t input" "fst (cl_validate t input)"
    using that validate_tool_input_ok [of t input "()"] by (simp add: call)
  moreover have "covered as_f64 t input" if "p \<in> set (declared t)"
    "select_jsonpath input (sp_jsonpath p) = Some (JString s)" "sp_matcher p = Regex pattern"
    "utf8_chars s \<in> lang (nonempty_tail (tokens (utf8_chars pattern)))" for p s pattern
    using that(1) regex_predicate [OF that(2,3)] that(4) unfolding covered_def by blast
  ultimately show ?thesis by auto
qed

definition example_tool :: "nat callable" where
  "example_tool =
     \<lparr>cl_definition =
        \<lparr>td_name = ''shell'', td_description = [], td_input_schema = JObject [], td_output_schema = None,
         td_annotations = \<lparr>an_title = [], an_category = [], an_tags = [], an_idempotent_hint = None, an_execution_hint = HintUnknown\<rparr>,
         td_envelope = envelope_default\<lparr>te_sensitive_invocations := [\<lparr>sp_jsonpath = ''$.cmd'', sp_matcher = Regex ''rm.*''\<rparr>]\<rparr>\<rparr>,
      cl_validate = \<lambda>_. (True, []), cl_call = \<lambda>_ _ n. (Suc n, Inr (text_result ''ok''))\<rparr>"

definition example_registry :: "nat tool_registry" where
  "example_registry =
     register_all quoted [example_tool] (with_sensitivity_evaluator (deny_on_sensitive quoted (\<lambda>_. NaN)) tool_registry_new)"

theorem sensitive_calls_denied_witness:
  "(\<exists>e. registry_call quoted example_registry ''shell'' tool_context_new (JObject [(''cmd'', JString ''rmdir'')]) 0 = (0, Inl e) \<and>
        err_code e = Forbidden) \<and>
   registry_call quoted example_registry ''shell'' tool_context_new (JObject [(''cmd'', JString ''rm'')]) 0 = (1, Inr (text_result ''ok''))"
proof -
  have found: "find (\<lambda>t. tool_name t = ''shell'') [example_tool] = Some example_tool" by (simp add: example_tool_def)
  have named: "trim ''shell'' \<noteq> []" by (simp add: trim_graphic graphic_def)
  have sel: "select_jsonpath (JObject [(''cmd'', JString s)]) ''$.cmd'' = Some (JString s)" for s
  proof -
    have "trim ''$.cmd'' = ''$.cmd''" by (simp add: trim_graphic graphic_def)
    then show ?thesis by (simp add: select_jsonpath_def strip_char_def Let_def)
  qed
  have cov: "covered (\<lambda>_. NaN) example_tool (JObject [(''cmd'', JString s)]) \<longleftrightarrow> glob_like_match ''rm.*'' s" for s
    by (simp add: covered_def example_tool_def predicate_matches_def sel)
  have tool: "fst (cl_validate example_tool i)" "cl_call example_tool c i n = (Suc n, Inr (text_result ''ok''))" for c i n
    by (simp_all add: example_tool_def)
  note * = sensitive_calls_denied [OF named found example_registry_def]
  show ?thesis
    using * [of "JObject [(''cmd'', JString ''rmdir'')]" tool_context_new 0]
      * [of "JObject [(''cmd'', JString ''rm'')]" tool_context_new 0]
    by (simp add: cov tool trailing_run_missed)
qed

end
