(* ===== verification/Agent.thy ===== *)
theory Agent
  imports Policy Hooks Tools
begin

text \<open>
  The agent loop of \<^verbatim>\<open>core/rskit-agent/src\<close>: the configuration (\<^verbatim>\<open>config.rs\<close>), the run state and the turns (\<^verbatim>\<open>runtime/\<close>), the
  blocking and the streaming run (\<^verbatim>\<open>agent/run.rs\<close>, \<^verbatim>\<open>agent/stream.rs\<close>), context compaction (\<^verbatim>\<open>context.rs\<close>, \<^verbatim>\<open>types/strategy.rs\<close>)
  and memories (\<^verbatim>\<open>memory/\<close>), over the chat messages of \<^verbatim>\<open>core/rskit-ai\<close> and \<^verbatim>\<open>core/rskit-llm\<close>. It calls the tool registry, the
  hook registry and the resilience policy of the other theories. The world holds the hook registry, which handlers may
  change; provider, handlers, tools and timers act on it. The clock is read from the world, so that no time passes while the consumer of a
  stream holds an event that the stream has yielded.
\<close>

section \<open>Messages\<close>

datatype content_part =
    TextPart string
  | ImagePart string string "string option"
  | AudioPart string string "string option"
  | VideoPart string string "string option"
  | FilePart string string "string option"
  | ToolUsePart string string "(string \<times> json) list"
  | ToolResultPart string string bool

record usage =
  us_input :: nat
  us_output :: nat
  us_cached :: nat
  us_reasoning :: nat

record tool_use_block =
  tu_id :: string
  tu_name :: string
  tu_input :: "(string \<times> json) list"

record assistant_message =
  am_content :: "content_part list"
  am_tool_calls :: "tool_use_block list"
  am_usage :: "usage option"

datatype chat_message =
    UserMsg "content_part list"
  | AssistantMsg assistant_message
  | SystemMsg string
  | ToolMsg string string bool

datatype finish_reason = FinishStop | FinishLength | FinishToolUse | FinishContentFilter | FinishError | FinishCancelled

record llm_tool =
  lt_name :: string
  lt_description :: string
  lt_input_schema :: json
  lt_output_schema :: "json option"

record completion_request =
  cr_model :: string
  cr_messages :: "chat_message list"
  cr_max_tokens :: "nat option"
  cr_stream :: bool
  cr_tools :: "llm_tool list option"

record completion_response =
  rp_message :: assistant_message
  rp_model :: string
  rp_usage :: usage
  rp_stop_reason :: "finish_reason option"

definition has_tool_calls :: "assistant_message \<Rightarrow> bool" where
  "has_tool_calls m \<longleftrightarrow> am_tool_calls m \<noteq> []"

text \<open>\<open>json_len\<close> is the length of the text that the JSON library prints for a value.\<close>

definition approx_chars :: "(json \<Rightarrow> nat) \<Rightarrow> content_part \<Rightarrow> nat" where
  "approx_chars json_len part =
     (case part of
        TextPart s \<Rightarrow> length s
      | ToolUsePart _ _ input \<Rightarrow> json_len (JObject input)
      | ToolResultPart _ content _ \<Rightarrow> length content
      | _ \<Rightarrow> 256)"

definition message_tokens :: "(json \<Rightarrow> nat) \<Rightarrow> chat_message \<Rightarrow> nat" where
  "message_tokens json_len m =
     (case m of
        UserMsg parts \<Rightarrow> sum_list (map (\<lambda>part. approx_chars json_len part div 4 + 1) parts) + 4
      | AssistantMsg a \<Rightarrow> sum_list (map (approx_chars json_len) (am_content a)) div 4 + length (am_tool_calls a) + 4
      | SystemMsg content \<Rightarrow> length content div 4 + 4
      | ToolMsg _ content _ \<Rightarrow> length content div 4 + 4)"

definition count_tokens_approx :: "(json \<Rightarrow> nat) \<Rightarrow> chat_message list \<Rightarrow> nat" where
  "count_tokens_approx json_len ms = sum_list (map (message_tokens json_len) ms)"

section \<open>Stop reasons and strategies\<close>

datatype stop_reason =
  EndTurn | MaxTurns | MaxTokens | WallClockExceeded | MaxToolCallsExceeded | RunCancelled | RunAborted

definition stop_reason_from :: "finish_reason \<Rightarrow> stop_reason" where
  "stop_reason_from r =
     (case r of
        FinishLength \<Rightarrow> MaxTokens
      | FinishCancelled \<Rightarrow> RunCancelled
      | FinishError \<Rightarrow> RunAborted
      | FinishContentFilter \<Rightarrow> RunAborted
      | _ \<Rightarrow> EndTurn)"

type_synonym context_strategy = "chat_message list \<Rightarrow> nat \<Rightarrow> chat_message list app_result"

definition fail_strategy :: context_strategy where
  "fail_strategy ms max_tokens =
     Inl (app_error_new InvalidInput ''context exceeds token limit and no compaction strategy is configured'')"

definition is_system :: "chat_message \<Rightarrow> bool" where
  "is_system m = (case m of SystemMsg _ \<Rightarrow> True | _ \<Rightarrow> False)"

definition leading_system :: "chat_message list \<Rightarrow> bool" where
  "leading_system ms = (case ms of m # _ \<Rightarrow> is_system m | [] \<Rightarrow> False)"

fun keep_messages :: "chat_message list \<Rightarrow> chat_message list \<Rightarrow> chat_message list" where
  "keep_messages result [] = result"
| "keep_messages result (m # ms) =
     (if is_system m \<and> result \<noteq> [] then keep_messages result ms else keep_messages (result @ [m]) ms)"

definition truncate_strategy :: "nat \<Rightarrow> context_strategy" where
  "truncate_strategy keep_last ms max_tokens =
     (let has_system = leading_system ms;
          max_messages = keep_last + of_bool has_system
      in if length ms \<le> max_messages then Inr ms
         else Inr (keep_messages (if has_system then [hd ms] else []) (drop (length ms - keep_last) ms)))"

section \<open>Configuration, world and run state\<close>

record ('g, 'v) agent_config =
  ac_tools :: "'v tool_registry option"
  ac_hooks :: bool
  ac_system_prompt :: string
  ac_max_turns :: nat
  ac_max_tokens :: nat
  ac_wall_clock :: duration
  ac_max_tool_calls :: nat
  ac_tool_concurrency :: nat
  ac_tool_timeout :: duration
  ac_policy :: "'g policy option"
  ac_context_strategy :: "context_strategy option"
  ac_model :: string

definition agent_config_default :: "('g, 'v) agent_config" where
  "agent_config_default =
     \<lparr>ac_tools = None, ac_hooks = False, ac_system_prompt = [], ac_max_turns = 10, ac_max_tokens = 100000,
      ac_wall_clock = 60 * 10 ^ 9, ac_max_tool_calls = 50, ac_tool_concurrency = 4, ac_tool_timeout = 30 * 10 ^ 9,
      ac_policy = None, ac_context_strategy = None, ac_model = []\<rparr>"

datatype agent_payload =
    PreToolCall string json
  | PostToolCall string json "tool_result option" "string option"
  | PreLLMCall completion_request
  | PostLLMCall completion_response "string option"
  | OnError string string
  | TurnStart nat
  | TurnEnd nat assistant_message

text \<open>What the run calls: clock, handlers, provider, timers and the environment of the policy.\<close>

record ('h, 'g, 'w) agent_env =
  en_clock :: "'h hook_registry \<times> 'w \<Rightarrow> instant"
  en_handler :: "('h, agent_payload, 'w) hook_run"
  en_cancelled :: "'h hook_registry \<times> 'w \<Rightarrow> bool"
  en_complete :: "completion_request \<Rightarrow> ('h hook_registry \<times> 'w, completion_response app_result) operation"
  en_llm_timeout :: "('h hook_registry \<times> 'w, completion_response app_result) timeout_fn"
  en_tool_timeout :: "('h hook_registry \<times> 'w, tool_result app_result) timeout_fn"
  en_policy_env :: "('g, 'h hook_registry \<times> 'w) policy_env"
  en_max_input_tokens :: "nat option"
  en_json_len :: "json \<Rightarrow> nat"
  en_dbg :: "string \<Rightarrow> string"
  en_dbg_duration :: "duration \<Rightarrow> string"

text \<open>The run state, with the state of the policy, which the clones of the policy share, and the world.\<close>

record ('g, 'v) run_state =
  rs_messages :: "chat_message list"
  rs_total_usage :: usage
  rs_last_assistant :: assistant_message
  rs_tool_calls_used :: nat
  rs_started_at :: instant
  rs_policy :: "'g policy option"
  rs_world :: 'v

definition usage_zero :: usage where
  "usage_zero = \<lparr>us_input = 0, us_output = 0, us_cached = 0, us_reasoning = 0\<rparr>"

definition run_state_new :: "string \<Rightarrow> chat_message list \<Rightarrow> instant \<Rightarrow> 'g policy option \<Rightarrow> 'v \<Rightarrow> ('g, 'v) run_state" where
  "run_state_new system_prompt ms now pol v =
     \<lparr>rs_messages = SystemMsg system_prompt # ms, rs_total_usage = usage_zero,
      rs_last_assistant = \<lparr>am_content = [], am_tool_calls = [], am_usage = None\<rparr>, rs_tool_calls_used = 0,
      rs_started_at = now, rs_policy = pol, rs_world = v\<rparr>"

definition elapsed :: "('h, 'g, 'w) agent_env \<Rightarrow> ('g, 'h hook_registry \<times> 'w) run_state \<Rightarrow> duration" where
  "elapsed env st = en_clock env (rs_world st) - rs_started_at st"

definition remaining_wall_clock :: "('h, 'g, 'w) agent_env \<Rightarrow> duration \<Rightarrow> ('g, 'h hook_registry \<times> 'w) run_state \<Rightarrow> duration" where
  "remaining_wall_clock env wall_clock st = wall_clock - elapsed env st"

definition wrapping_add64 :: "nat \<Rightarrow> nat \<Rightarrow> nat" where
  "wrapping_add64 a b = (a + b) mod 2 ^ 64"

definition usage_add :: "usage \<Rightarrow> usage \<Rightarrow> usage" where
  "usage_add a b =
     \<lparr>us_input = wrapping_add64 (us_input a) (us_input b), us_output = wrapping_add64 (us_output a) (us_output b),
      us_cached = wrapping_add64 (us_cached a) (us_cached b), us_reasoning = wrapping_add64 (us_reasoning a) (us_reasoning b)\<rparr>"

definition record_response :: "completion_response \<Rightarrow> ('g, 'v) run_state \<Rightarrow> ('g, 'v) run_state" where
  "record_response response st =
     st\<lparr>rs_total_usage := usage_add (rs_total_usage st) (rp_usage response),
        rs_last_assistant := rp_message response,
        rs_messages := rs_messages st @ [AssistantMsg (rp_message response)]\<rparr>"

definition total_tokens :: "('g, 'v) run_state \<Rightarrow> nat" where
  "total_tokens st = min (us_input (rs_total_usage st) + us_output (rs_total_usage st)) (2 ^ 64 - 1)"

definition compact_if_needed ::
    "(json \<Rightarrow> nat) \<Rightarrow> chat_message list \<Rightarrow> nat option \<Rightarrow> context_strategy option \<Rightarrow> chat_message list app_result" where
  "compact_if_needed json_len ms max_input_tokens strategy =
     (case max_input_tokens of
        Some max_tokens \<Rightarrow>
          if count_tokens_approx json_len ms > max_tokens
          then (case strategy of Some s \<Rightarrow> s ms max_tokens | None \<Rightarrow> fail_strategy ms max_tokens)
          else Inr ms
      | None \<Rightarrow> Inr ms)"

definition compact_context ::
    "(json \<Rightarrow> nat) \<Rightarrow> nat option \<Rightarrow> context_strategy option \<Rightarrow> ('g, 'v) run_state \<Rightarrow> ('g, 'v) run_state \<times> unit app_result" where
  "compact_context json_len max_input_tokens strategy st =
     (case compact_if_needed json_len (rs_messages st) max_input_tokens strategy of
        Inl e \<Rightarrow> (st\<lparr>rs_messages := []\<rparr>, Inl e)
      | Inr ms \<Rightarrow> (st\<lparr>rs_messages := ms\<rparr>, Inr ()))"

record agent_result =
  ar_messages :: "chat_message list"
  ar_final_message :: assistant_message
  ar_total_usage :: usage
  ar_turn_count :: nat
  ar_stop_reason :: stop_reason

definition finish_run :: "nat \<Rightarrow> stop_reason \<Rightarrow> ('g, 'v) run_state \<Rightarrow> agent_result" where
  "finish_run turn_count reason st =
     \<lparr>ar_messages = rs_messages st, ar_final_message = rs_last_assistant st, ar_total_usage = rs_total_usage st,
      ar_turn_count = turn_count, ar_stop_reason = reason\<rparr>"

section \<open>Stop conditions\<close>

definition initial_stop :: "('g, 'v) agent_config \<Rightarrow> stop_reason option" where
  "initial_stop cfg = (if ac_max_tokens cfg = 0 then Some MaxTokens else None)"

definition wall_clock_stop ::
    "('h, 'g, 'w) agent_env \<Rightarrow> ('g, 'h hook_registry \<times> 'w) agent_config \<Rightarrow> ('g, 'h hook_registry \<times> 'w) run_state \<Rightarrow> stop_reason option" where
  "wall_clock_stop env cfg st = (if ac_wall_clock cfg \<le> elapsed env st then Some WallClockExceeded else None)"

definition tool_budget_stop :: "('g, 'v) agent_config \<Rightarrow> ('g, 'v) run_state \<Rightarrow> stop_reason option" where
  "tool_budget_stop cfg st = (if ac_max_tool_calls cfg \<le> rs_tool_calls_used st then Some MaxToolCallsExceeded else None)"

definition token_budget_stop :: "('g, 'v) agent_config \<Rightarrow> ('g, 'v) run_state \<Rightarrow> stop_reason option" where
  "token_budget_stop cfg st = (if ac_max_tokens cfg \<le> total_tokens st then Some MaxTokens else None)"

definition wall_clock_error :: app_error where
  "wall_clock_error = app_error_new Timeout ''agent wall-clock budget exceeded''"

section \<open>Hooks\<close>

definition agent_event :: "agent_payload \<Rightarrow> agent_payload hook_event" where
  "agent_event payload =
     (case payload of
        PreToolCall _ _ \<Rightarrow> \<lparr>hk_type = ''PreToolCall'', hk_event_type = ''on_tool_call'', hk_payload = UserPayload payload\<rparr>
      | PostToolCall _ _ _ _ \<Rightarrow> \<lparr>hk_type = ''PostToolCall'', hk_event_type = ''on_tool_result'', hk_payload = UserPayload payload\<rparr>
      | PreLLMCall _ \<Rightarrow> \<lparr>hk_type = ''PreLLMCall'', hk_event_type = ''on_llm_call'', hk_payload = UserPayload payload\<rparr>
      | PostLLMCall _ _ \<Rightarrow> \<lparr>hk_type = ''PostLLMCall'', hk_event_type = ''on_llm_response'', hk_payload = UserPayload payload\<rparr>
      | OnError _ _ \<Rightarrow> \<lparr>hk_type = ''OnError'', hk_event_type = on_error_type, hk_payload = UserPayload payload\<rparr>
      | TurnStart _ \<Rightarrow> \<lparr>hk_type = ''TurnStart'', hk_event_type = ''on_turn_start'', hk_payload = UserPayload payload\<rparr>
      | TurnEnd _ _ \<Rightarrow> \<lparr>hk_type = ''TurnEnd'', hk_event_type = ''on_turn_complete'', hk_payload = UserPayload payload\<rparr>)"

definition emit_hook ::
    "('h, 'g, 'w) agent_env \<Rightarrow> agent_payload \<Rightarrow> 'h hook_registry \<times> 'w \<Rightarrow> ('h hook_registry \<times> 'w) \<times> bool" where
  "emit_hook env payload v =
     (let event = agent_event payload in
      case emit (en_handler env) (en_cancelled env) event v of
        (v1, Inr _) \<Rightarrow> (v1, False)
      | (v1, Inl error) \<Rightarrow>
          (case emit (en_handler env) (en_cancelled env) (agent_event (OnError (he_message error) (hk_event_type event))) v1 of
             (v2, _) \<Rightarrow> (v2, he_fatal error)))"

text \<open>The guard of every emission: without a hook registry nothing happens.\<close>

definition hook_aborts ::
    "('h, 'g, 'w) agent_env \<Rightarrow> ('g, 'h hook_registry \<times> 'w) agent_config \<Rightarrow> agent_payload \<Rightarrow>
     ('g, 'h hook_registry \<times> 'w) run_state \<Rightarrow> ('g, 'h hook_registry \<times> 'w) run_state \<times> bool" where
  "hook_aborts env cfg payload st =
     (if ac_hooks cfg then (case emit_hook env payload (rs_world st) of (v, abort) \<Rightarrow> (st\<lparr>rs_world := v\<rparr>, abort))
      else (st, False))"

section \<open>Tool calls\<close>

type_synonym ('h, 'g, 'w, 'a) agent_step =
  "('g, 'h hook_registry \<times> 'w) run_state \<Rightarrow> ('g, 'h hook_registry \<times> 'w) run_state \<times> 'a"

definition tool_attempt ::
    "('h, 'g, 'w) agent_env \<Rightarrow> duration \<Rightarrow> ('h hook_registry \<times> 'w) tool_registry \<Rightarrow> tool_use_block \<Rightarrow> json \<Rightarrow>
     ('h hook_registry \<times> 'w, tool_result app_result) operation" where
  "tool_attempt env limit tools call input v =
     (let ctx = tool_context_new\<lparr>tc_tool_use_id := tu_id call\<rparr> in
      case en_tool_timeout env limit (registry_call (en_dbg env) tools (tu_name call) ctx input) v of
        (v1, Some r) \<Rightarrow> (v1, r)
      | (v1, None) \<Rightarrow>
          (v1, Inl (app_error_new Timeout
             (''tool call to '' @ quoted (tu_name call) @ '' timed out after '' @ en_dbg_duration env limit))))"

definition tool_execute ::
    "('h, 'g, 'w) agent_env \<Rightarrow> duration \<Rightarrow> ('h hook_registry \<times> 'w) tool_registry \<Rightarrow> tool_use_block \<Rightarrow> json \<Rightarrow>
     ('h, 'g, 'w, tool_result app_result) agent_step" where
  "tool_execute env limit tools call input st =
     (case rs_policy st of
        Some p \<Rightarrow>
          (case policy_execute (en_policy_env env) (en_tool_timeout env) (\<lambda>e. e) (\<lambda>e. e)
                  (tool_attempt env limit tools call input) (p, rs_world st) of
             ((p1, v1), r) \<Rightarrow> (st\<lparr>rs_policy := Some p1, rs_world := v1\<rparr>, r))
      | None \<Rightarrow> (case tool_attempt env limit tools call input (rs_world st) of (v1, r) \<Rightarrow> (st\<lparr>rs_world := v1\<rparr>, r)))"

definition emit_tool_result_hook ::
    "('h, 'g, 'w) agent_env \<Rightarrow> ('g, 'h hook_registry \<times> 'w) agent_config \<Rightarrow> string \<Rightarrow> json \<Rightarrow> tool_result app_result \<Rightarrow>
     ('g, 'h hook_registry \<times> 'w) run_state \<Rightarrow> ('g, 'h hook_registry \<times> 'w) run_state" where
  "emit_tool_result_hook env cfg name input r st =
     fst (hook_aborts env cfg
       (case r of
          Inr result \<Rightarrow> PostToolCall name input (Some result) None
        | Inl error \<Rightarrow> PostToolCall name input None (Some (app_error_display error))) st)"

definition append_tool_result :: "string \<Rightarrow> tool_result app_result \<Rightarrow> ('g, 'v) run_state \<Rightarrow> ('g, 'v) run_state" where
  "append_tool_result tool_use_id r st =
     st\<lparr>rs_messages := rs_messages st @
       [case r of
          Inr result \<Rightarrow> ToolMsg tool_use_id (tr_content result) (tr_is_error result)
        | Inl error \<Rightarrow> ToolMsg tool_use_id (app_error_display error) True]\<rparr>"

fun tool_calls_loop ::
    "('h, 'g, 'w) agent_env \<Rightarrow> ('g, 'h hook_registry \<times> 'w) agent_config \<Rightarrow> ('h hook_registry \<times> 'w) tool_registry \<Rightarrow>
     tool_use_block list \<Rightarrow> ('h, 'g, 'w, stop_reason option app_result) agent_step" where
  "tool_calls_loop env cfg tools [] st = (st, Inr None)"
| "tool_calls_loop env cfg tools (call # rest) st =
     (case tool_budget_stop cfg st of
        Some reason \<Rightarrow> (st, Inr (Some reason))
      | None \<Rightarrow>
          let st1 = st\<lparr>rs_tool_calls_used := rs_tool_calls_used st + 1\<rparr> in
          case tool_input_new (JObject (tu_input call)) of
            Inl e \<Rightarrow> (st1, Inl e)
          | Inr input \<Rightarrow>
              (case hook_aborts env cfg (PreToolCall (tu_name call) input) st1 of
                 (st2, True) \<Rightarrow> (st2, Inr (Some RunAborted))
               | (st2, False) \<Rightarrow>
                   (case tool_execute env (ac_tool_timeout cfg) tools call input st2 of
                      (st3, r) \<Rightarrow>
                        tool_calls_loop env cfg tools rest
                          (append_tool_result (tu_id call) r (emit_tool_result_hook env cfg (tu_name call) input r st3)))))"

definition execute_requested_tools ::
    "('h, 'g, 'w) agent_env \<Rightarrow> ('g, 'h hook_registry \<times> 'w) agent_config \<Rightarrow>
     ('h, 'g, 'w, stop_reason option app_result) agent_step" where
  "execute_requested_tools env cfg st =
     (case ac_tools cfg of
        None \<Rightarrow> (st, Inr None)
      | Some tools \<Rightarrow> tool_calls_loop env cfg tools (am_tool_calls (rs_last_assistant st)) st)"

section \<open>Turns\<close>

definition llm_tool_definitions :: "'v tool_registry \<Rightarrow> llm_tool list" where
  "llm_tool_definitions r =
     map (\<lambda>d. \<lparr>lt_name = td_name d, lt_description = td_description d, lt_input_schema = td_input_schema d,
               lt_output_schema = td_output_schema d\<rparr>) (tool_definitions r)"

definition build_completion_request :: "('g, 'v) agent_config \<Rightarrow> chat_message list \<Rightarrow> completion_request" where
  "build_completion_request cfg ms =
     \<lparr>cr_model = ac_model cfg, cr_messages = ms, cr_max_tokens = None, cr_stream = False,
      cr_tools = map_option llm_tool_definitions (ac_tools cfg)\<rparr>"

datatype llm_call_outcome =
    AbortedBeforeCall
  | AbortedAfterResponse completion_response
  | Completed completion_response bool finish_reason

definition complete_turn ::
    "('h, 'g, 'w) agent_env \<Rightarrow> ('g, 'h hook_registry \<times> 'w) agent_config \<Rightarrow> ('h, 'g, 'w, llm_call_outcome app_result) agent_step" where
  "complete_turn env cfg st =
     (let request = build_completion_request cfg (rs_messages st) in
      case hook_aborts env cfg (PreLLMCall request) st of
        (st1, True) \<Rightarrow> (st1, Inr AbortedBeforeCall)
      | (st1, False) \<Rightarrow>
          (case en_llm_timeout env (remaining_wall_clock env (ac_wall_clock cfg) st1) (en_complete env request) (rs_world st1) of
             (v, None) \<Rightarrow> (st1\<lparr>rs_world := v\<rparr>, Inl wall_clock_error)
           | (v, Some (Inl e)) \<Rightarrow> (st1\<lparr>rs_world := v\<rparr>, Inl e)
           | (v, Some (Inr response)) \<Rightarrow>
               (case hook_aborts env cfg (PostLLMCall response None) (st1\<lparr>rs_world := v\<rparr>) of
                  (st2, True) \<Rightarrow> (st2, Inr (AbortedAfterResponse response))
                | (st2, False) \<Rightarrow>
                    (st2, Inr (Completed response (has_tool_calls (rp_message response))
                       (case rp_stop_reason response of Some r \<Rightarrow> r | None \<Rightarrow> FinishStop))))))"

datatype turn_outcome = TurnContinue | TurnStop nat stop_reason

text \<open>The part of a turn after the response: tools, compaction and the last hook.\<close>

definition finish_turn ::
    "('h, 'g, 'w) agent_env \<Rightarrow> ('g, 'h hook_registry \<times> 'w) agent_config \<Rightarrow> nat \<Rightarrow> ('h, 'g, 'w, turn_outcome app_result) agent_step" where
  "finish_turn env cfg turn st =
     (case execute_requested_tools env cfg st of
        (st1, Inl e) \<Rightarrow> (st1, Inl e)
      | (st1, Inr (Some reason)) \<Rightarrow> (st1, Inr (TurnStop (turn + 1) reason))
      | (st1, Inr None) \<Rightarrow>
          (case compact_context (en_json_len env) (en_max_input_tokens env) (ac_context_strategy cfg) st1 of
             (st2, Inl e) \<Rightarrow> (st2, Inl e)
           | (st2, Inr _) \<Rightarrow>
               (case hook_aborts env cfg (TurnEnd turn (rs_last_assistant st2)) st2 of
                  (st3, True) \<Rightarrow> (st3, Inr (TurnStop (turn + 1) RunAborted))
                | (st3, False) \<Rightarrow> (st3, Inr TurnContinue))))"

definition run_turn ::
    "('h, 'g, 'w) agent_env \<Rightarrow> ('g, 'h hook_registry \<times> 'w) agent_config \<Rightarrow> nat \<Rightarrow> ('h, 'g, 'w, turn_outcome app_result) agent_step" where
  "run_turn env cfg turn st =
     (case wall_clock_stop env cfg st of
        Some reason \<Rightarrow> (st, Inr (TurnStop turn reason))
      | None \<Rightarrow>
          (case hook_aborts env cfg (TurnStart turn) st of
             (st1, True) \<Rightarrow> (st1, Inr (TurnStop turn RunAborted))
           | (st1, False) \<Rightarrow>
               (case complete_turn env cfg st1 of
                  (st2, Inl e) \<Rightarrow> (st2, Inl e)
                | (st2, Inr AbortedBeforeCall) \<Rightarrow> (st2, Inr (TurnStop turn RunAborted))
                | (st2, Inr (AbortedAfterResponse response)) \<Rightarrow>
                    (record_response response st2, Inr (TurnStop (turn + 1) RunAborted))
                | (st2, Inr (Completed response tool_calls stop_reason)) \<Rightarrow>
                    let st3 = record_response response st2 in
                    case token_budget_stop cfg st3 of
                      Some reason \<Rightarrow> (st3, Inr (TurnStop (turn + 1) reason))
                    | None \<Rightarrow>
                        if \<not> tool_calls then (st3, Inr (TurnStop (turn + 1) (stop_reason_from stop_reason)))
                        else finish_turn env cfg turn st3)))"

section \<open>Runs\<close>

fun run_loop ::
    "('h, 'g, 'w) agent_env \<Rightarrow> ('g, 'h hook_registry \<times> 'w) agent_config \<Rightarrow> nat list \<Rightarrow> ('h, 'g, 'w, agent_result app_result) agent_step" where
  "run_loop env cfg [] st = (st, Inr (finish_run (ac_max_turns cfg) MaxTurns st))"
| "run_loop env cfg (turn # turns) st =
     (case run_turn env cfg turn st of
        (st1, Inl e) \<Rightarrow> (st1, Inl e)
      | (st1, Inr TurnContinue) \<Rightarrow> run_loop env cfg turns st1
      | (st1, Inr (TurnStop turn_count reason)) \<Rightarrow> (st1, Inr (finish_run turn_count reason st1)))"

definition agent_run ::
    "('h, 'g, 'w) agent_env \<Rightarrow> ('g, 'h hook_registry \<times> 'w) agent_config \<Rightarrow> chat_message list \<Rightarrow> 'h hook_registry \<times> 'w \<Rightarrow>
     ('g, 'h hook_registry \<times> 'w) run_state \<times> agent_result app_result" where
  "agent_run env cfg ms v =
     (let st = run_state_new (ac_system_prompt cfg) ms (en_clock env v) (ac_policy cfg) v in
      case initial_stop cfg of
        Some reason \<Rightarrow> (st, Inr (finish_run 0 reason st))
      | None \<Rightarrow> run_loop env cfg [0..<ac_max_turns cfg] st)"

datatype agent_event_out =
    EvTurnStart nat
  | EvTurnComplete nat assistant_message usage
  | EvRunComplete agent_result

definition usage_delta :: "usage \<Rightarrow> usage \<Rightarrow> usage" where
  "usage_delta before after =
     \<lparr>us_input = us_input after - us_input before, us_output = us_output after - us_output before,
      us_cached = us_cached after - us_cached before, us_reasoning = us_reasoning after - us_reasoning before\<rparr>"

fun stream_loop ::
    "('h, 'g, 'w) agent_env \<Rightarrow> ('g, 'h hook_registry \<times> 'w) agent_config \<Rightarrow> nat list \<Rightarrow> ('h, 'g, 'w, agent_event_out list) agent_step" where
  "stream_loop env cfg [] st = (st, [EvRunComplete (finish_run (ac_max_turns cfg) MaxTurns st)])"
| "stream_loop env cfg (turn # turns) st =
     (case wall_clock_stop env cfg st of
        Some reason \<Rightarrow> (st, [EvRunComplete (finish_run turn reason st)])
      | None \<Rightarrow>
          (case run_turn env cfg turn st of
             (st1, Inl e) \<Rightarrow> (st1, [EvTurnStart turn, EvRunComplete (finish_run turn RunAborted st1)])
           | (st1, Inr outcome) \<Rightarrow>
               let usage = usage_delta (rs_total_usage st) (rs_total_usage st1);
                   completed_turn = (case outcome of TurnContinue \<Rightarrow> True | TurnStop turn_count _ \<Rightarrow> turn < turn_count);
                   events = EvTurnStart turn # (if completed_turn then [EvTurnComplete turn (rs_last_assistant st1) usage] else [])
               in case outcome of
                    TurnContinue \<Rightarrow> (case stream_loop env cfg turns st1 of (st2, rest) \<Rightarrow> (st2, events @ rest))
                  | TurnStop turn_count reason \<Rightarrow> (st1, events @ [EvRunComplete (finish_run turn_count reason st1)])))"

definition agent_stream ::
    "('h, 'g, 'w) agent_env \<Rightarrow> ('g, 'h hook_registry \<times> 'w) agent_config \<Rightarrow> chat_message list \<Rightarrow> 'h hook_registry \<times> 'w \<Rightarrow>
     ('g, 'h hook_registry \<times> 'w) run_state \<times> agent_event_out list" where
  "agent_stream env cfg ms v =
     (let st = run_state_new (ac_system_prompt cfg) ms (en_clock env v) (ac_policy cfg) v in
      case initial_stop cfg of
        Some reason \<Rightarrow> (st, [EvRunComplete (finish_run 0 reason st)])
      | None \<Rightarrow> stream_loop env cfg [0..<ac_max_turns cfg] st)"

section \<open>Memories\<close>

type_synonym agent_memory = "(string, chat_message list) hashmap"

definition memory_load :: "string \<Rightarrow> agent_memory \<Rightarrow> chat_message list" where
  "memory_load session m = hm_get_list m session"

definition memory_save :: "string \<Rightarrow> chat_message list \<Rightarrow> agent_memory \<Rightarrow> agent_memory" where
  "memory_save session ms m = hm_insert session ms m"

definition memory_append :: "string \<Rightarrow> chat_message list \<Rightarrow> agent_memory \<Rightarrow> agent_memory" where
  "memory_append session ms m = hm_insert session (hm_get_list m session @ ms) m"

definition memory_clear :: "string \<Rightarrow> agent_memory \<Rightarrow> agent_memory" where
  "memory_clear session m = hm_remove session m"

definition sliding_window_new :: "nat \<Rightarrow> nat app_result" where
  "sliding_window_new max_messages =
     (if max_messages = 0 then Inl (app_error_new InvalidInput ''max_messages must be at least 1'') else Inr max_messages)"

definition window_trim :: "nat \<Rightarrow> chat_message list \<Rightarrow> chat_message list" where
  "window_trim max_messages ms =
     (if length ms \<le> max_messages then ms
      else
        let has_system = leading_system ms;
            non_system = (if has_system then tl ms else ms)
        in (if has_system then [hd ms] else []) @ drop (length non_system - max_messages) non_system)"

definition window_load :: "nat \<Rightarrow> string \<Rightarrow> agent_memory \<Rightarrow> chat_message list" where
  "window_load max_messages session m = window_trim max_messages (memory_load session m)"

definition window_save :: "nat \<Rightarrow> string \<Rightarrow> chat_message list \<Rightarrow> agent_memory \<Rightarrow> agent_memory" where
  "window_save max_messages session ms m = memory_save session (window_trim max_messages ms) m"

definition window_append :: "nat \<Rightarrow> string \<Rightarrow> chat_message list \<Rightarrow> agent_memory \<Rightarrow> agent_memory" where
  "window_append max_messages session ms m =
     (let m1 = memory_append session ms m;
          all = memory_load session m1
      in memory_save session (window_trim max_messages all) m1)"

definition window_clear :: "string \<Rightarrow> agent_memory \<Rightarrow> agent_memory" where
  "window_clear session m = memory_clear session m"

section \<open>Streaming and blocking runs\<close>

lemma compact_context_frame:
  "compact_context json_len limit strategy st = (st', r) \<Longrightarrow>
     rs_tool_calls_used st' = rs_tool_calls_used st \<and> rs_policy st' = rs_policy st \<and> rs_world st' = rs_world st \<and>
     rs_last_assistant st' = rs_last_assistant st"
  by (auto simp: compact_context_def split: sum.splits)

lemma finish_turn_stop: "finish_turn env cfg turn st = (st', Inr (TurnStop n reason)) \<Longrightarrow> n = turn + 1"
  by (auto simp: finish_turn_def split: prod.splits sum.splits option.splits bool.splits)

lemma run_turn_stop: "run_turn env cfg turn st = (st', Inr (TurnStop n reason)) \<Longrightarrow> n = turn \<or> n = turn + 1"
  by (auto simp: run_turn_def Let_def dest: finish_turn_stop
      split: option.splits prod.splits sum.splits bool.splits llm_call_outcome.splits if_splits)

fun completed_turns :: "agent_event_out list \<Rightarrow> nat list" where
  "completed_turns [] = []"
| "completed_turns (EvTurnComplete t _ _ # evs) = t # completed_turns evs"
| "completed_turns (_ # evs) = completed_turns evs"

definition run_completes :: "agent_event_out list \<Rightarrow> agent_result list" where
  "run_completes evs = concat (map (\<lambda>ev. case ev of EvRunComplete r \<Rightarrow> [r] | _ \<Rightarrow> []) evs)"

lemma run_completes_simps [simp]:
  "run_completes [] = []" "run_completes (EvTurnStart t # evs) = run_completes evs"
  "run_completes (EvTurnComplete t m u # evs) = run_completes evs" "run_completes (EvRunComplete r # evs) = r # run_completes evs"
  "run_completes (evs @ evs') = run_completes evs @ run_completes evs'"
  by (simp_all add: run_completes_def)

lemma completed_turns_append [simp]: "completed_turns (evs @ evs') = completed_turns evs @ completed_turns evs'"
  by (induction evs rule: completed_turns.induct) auto

lemma stream_loop_run_loop:
  assumes "stream_loop env cfg [k..<ac_max_turns cfg] st = (st', evs)" and "k \<le> ac_max_turns cfg"
    and "run_loop env cfg [k..<ac_max_turns cfg] st = (st'', r)"
  shows "st' = st'' \<and>
    (\<exists>res. run_completes evs = [res] \<and> last evs = EvRunComplete res \<and> evs \<noteq> [] \<and> k \<le> ar_turn_count res \<and>
       completed_turns evs = [k..<ar_turn_count res] \<and>
       (case r of Inr result \<Rightarrow> res = result | Inl e \<Rightarrow> ar_stop_reason res = RunAborted))"
  using assms
proof (induction "ac_max_turns cfg - k" arbitrary: k st st' evs)
  case 0
  then show ?case by (auto simp: finish_run_def)
next
  case (Suc n)
  then have k: "k < ac_max_turns cfg" by simp
  then have turns: "[k..<ac_max_turns cfg] = k # [Suc k..<ac_max_turns cfg]" by (simp add: upt_conv_Cons)
  show ?case
  proof (cases "wall_clock_stop env cfg st")
    case (Some reason)
    then have "run_turn env cfg k st = (st, Inr (TurnStop k reason))" by (simp add: run_turn_def)
    then show ?thesis using Suc.prems Some unfolding turns by (auto simp: finish_run_def)
  next
    case None
    obtain st1 out where turn: "run_turn env cfg k st = (st1, out)" by fastforce
    consider (error) e where "out = Inl e" | (stop) m reason where "out = Inr (TurnStop m reason)" | (go_on) "out = Inr TurnContinue"
      by (metis sum.exhaust turn_outcome.exhaust)
    then show ?thesis
    proof cases
      case error
      then show ?thesis using Suc.prems None turn unfolding turns by (auto simp: finish_run_def)
    next
      case stop
      then show ?thesis using Suc.prems None turn run_turn_stop [of env cfg k st st1 m reason] unfolding turns
        by (auto simp: finish_run_def Let_def)
    next
      case go_on
      obtain st2 rest where loop: "stream_loop env cfg [Suc k..<ac_max_turns cfg] st1 = (st2, rest)" by fastforce
      have run: "run_loop env cfg [Suc k..<ac_max_turns cfg] st1 = (st'', r)"
        using Suc.prems(3) turn go_on unfolding turns by simp
      have "n = ac_max_turns cfg - Suc k" "Suc k \<le> ac_max_turns cfg" using Suc.hyps(2) k by auto
      note IH = Suc.hyps(1) [OF this(1) loop this(2) run]
      then obtain res where "run_completes rest = [res]" "last rest = EvRunComplete res" "rest \<noteq> []" "Suc k \<le> ar_turn_count res"
        "completed_turns rest = [Suc k..<ar_turn_count res]" "case r of Inr result \<Rightarrow> res = result | Inl e \<Rightarrow> ar_stop_reason res = RunAborted"
        by blast
      then show ?thesis using Suc.prems(1) None turn go_on loop IH unfolding turns
        by (auto simp: Let_def upt_conv_Cons)
    qed
  qed
qed

text \<open>
  C38. The stream and the blocking run do the same: they leave the same state, and the stream ends with its only completion event, which
  carries the result of the run, or an aborted one if the run fails. The stream reports the turns as complete in order, as many as the
  result counts.
\<close>

theorem stream_agrees_with_run:
  "fst (agent_stream env cfg ms v) = fst (agent_run env cfg ms v) \<and>
   (\<exists>evs res. snd (agent_stream env cfg ms v) = evs @ [EvRunComplete res] \<and> run_completes evs = [] \<and>
      completed_turns evs = [0..<ar_turn_count res] \<and>
      (case snd (agent_run env cfg ms v) of Inr result \<Rightarrow> res = result | Inl e \<Rightarrow> ar_stop_reason res = RunAborted))"
proof (cases "initial_stop cfg")
  case None
  let ?st = "run_state_new (ac_system_prompt cfg) ms (en_clock env v) (ac_policy cfg) v"
  obtain st' evs where s: "stream_loop env cfg [0..<ac_max_turns cfg] ?st = (st', evs)" by fastforce
  obtain st'' r where r: "run_loop env cfg [0..<ac_max_turns cfg] ?st = (st'', r)" by fastforce
  from stream_loop_run_loop [OF s _ r] obtain res where
    *: "st' = st''" "run_completes evs = [res]" "last evs = EvRunComplete res" "evs \<noteq> []" "completed_turns evs = [0..<ar_turn_count res]"
      "case r of Inr result \<Rightarrow> res = result | Inl e \<Rightarrow> ar_stop_reason res = RunAborted" by auto
  then obtain evs' where evs: "evs = evs' @ [EvRunComplete res]" by (metis append_butlast_last_id)
  then show ?thesis using * None s r by (auto simp: agent_stream_def agent_run_def)
next
  case (Some reason)
  then show ?thesis by (auto simp: agent_stream_def agent_run_def finish_run_def Let_def intro!: exI [of _ "[]"])
qed

text \<open>A compaction that fails leaves no history: the stream then reports an empty conversation.\<close>

lemma failed_compaction_loses_history:
  "compact_if_needed json_len (rs_messages st) limit strategy = Inl e \<Longrightarrow>
     rs_messages (fst (compact_context json_len limit strategy st)) = []"
  by (simp add: compact_context_def)

section \<open>Conversations\<close>

text \<open>
  A conversation answers the tool calls of each assistant message at once, one result for each call, in the order of the calls.
\<close>

fun result_id :: "chat_message \<Rightarrow> string option" where
  "result_id (ToolMsg i _ _) = Some i"
| "result_id _ = None"

inductive conversation :: "chat_message list \<Rightarrow> bool" where
  conversation_Nil: "conversation []"
| conversation_system: "conversation ms \<Longrightarrow> conversation (ms @ [SystemMsg s])"
| conversation_user: "conversation ms \<Longrightarrow> conversation (ms @ [UserMsg parts])"
| conversation_assistant:
    "conversation ms \<Longrightarrow> map result_id results = map (Some \<circ> tu_id) (am_tool_calls a) \<Longrightarrow>
       conversation (ms @ AssistantMsg a # results)"

lemma conversation_append: "conversation ms' \<Longrightarrow> conversation ms \<Longrightarrow> conversation (ms @ ms')"
proof (induction rule: conversation.induct)
  case (conversation_assistant ms' results a)
  then show ?case using conversation.conversation_assistant [of "ms @ ms'" results a] by simp
qed (use conversation_system conversation_user in \<open>simp_all flip: append_assoc\<close>)

definition good_history :: "string \<Rightarrow> chat_message list \<Rightarrow> bool" where
  "good_history prompt ms \<longleftrightarrow> conversation ms \<and> (\<exists>rest. ms = SystemMsg prompt # rest)"

lemma hook_aborts_fields:
  assumes "hook_aborts env cfg payload st = (st', abort)"
  shows "rs_messages st' = rs_messages st" "rs_tool_calls_used st' = rs_tool_calls_used st" "rs_policy st' = rs_policy st"
    "rs_last_assistant st' = rs_last_assistant st"
  using assms by (auto simp: hook_aborts_def split: if_splits prod.splits)

lemma tool_execute_fields:
  assumes "tool_execute env limit tools call input st = (st', r)"
  shows "rs_messages st' = rs_messages st" "rs_tool_calls_used st' = rs_tool_calls_used st" "rs_last_assistant st' = rs_last_assistant st"
  using assms by (auto simp: tool_execute_def split: option.splits prod.splits)

lemma emit_tool_result_hook_fields [simp]:
  "rs_messages (emit_tool_result_hook env cfg name input r st) = rs_messages st"
  "rs_tool_calls_used (emit_tool_result_hook env cfg name input r st) = rs_tool_calls_used st"
  "rs_policy (emit_tool_result_hook env cfg name input r st) = rs_policy st"
  "rs_last_assistant (emit_tool_result_hook env cfg name input r st) = rs_last_assistant st"
  by (simp_all add: emit_tool_result_hook_def hook_aborts_def split_beta)

lemma append_tool_result_fields [simp]:
  "rs_tool_calls_used (append_tool_result i r st) = rs_tool_calls_used st" "rs_policy (append_tool_result i r st) = rs_policy st"
  "rs_world (append_tool_result i r st) = rs_world st" "rs_last_assistant (append_tool_result i r st) = rs_last_assistant st"
  by (simp_all add: append_tool_result_def)

lemma append_tool_result_messages:
  "\<exists>m. rs_messages (append_tool_result i r st) = rs_messages st @ [m] \<and> result_id m = Some i"
  by (cases r) (auto simp: append_tool_result_def)

text \<open>A round of tool calls that is neither stopped nor aborted answers every call.\<close>

lemma tool_calls_loop_answers:
  "tool_calls_loop env cfg tools uses st = (st', Inr None) \<Longrightarrow>
     \<exists>results. rs_messages st' = rs_messages st @ results \<and> map result_id results = map (Some \<circ> tu_id) uses"
proof (induction uses arbitrary: st)
  case (Cons call uses)
  from Cons.prems obtain input st2 st3 r where step:
    "hook_aborts env cfg (PreToolCall (tu_name call) input) (st\<lparr>rs_tool_calls_used := rs_tool_calls_used st + 1\<rparr>) = (st2, False)"
    "tool_execute env (ac_tool_timeout cfg) tools call input st2 = (st3, r)"
    "tool_calls_loop env cfg tools uses (append_tool_result (tu_id call) r (emit_tool_result_hook env cfg (tu_name call) input r st3)) = (st', Inr None)"
    by (auto simp: Let_def split: option.splits sum.splits prod.splits bool.splits)
  obtain m where m: "rs_messages (append_tool_result (tu_id call) r (emit_tool_result_hook env cfg (tu_name call) input r st3)) = rs_messages st @ [m]"
      "result_id m = Some (tu_id call)"
    using append_tool_result_messages [of "tu_id call" r "emit_tool_result_hook env cfg (tu_name call) input r st3"]
      hook_aborts_fields(1) [OF step(1)] tool_execute_fields(1) [OF step(2)] by auto
  from Cons.IH [OF step(3)] obtain results where
    "rs_messages st' = (rs_messages st @ [m]) @ results" "map result_id results = map (Some \<circ> tu_id) uses"
    unfolding m(1) by blast
  then show ?case using m(2) by (intro exI [of _ "m # results"]) simp
qed simp

text \<open>Only \<open>complete_turn\<close> calls the provider.\<close>

lemma emit_hook_provider [simp]: "emit_hook (env\<lparr>en_complete := c\<rparr>) = emit_hook env"
  by (intro ext) (simp add: emit_hook_def)

lemma hook_aborts_provider [simp]: "hook_aborts (env\<lparr>en_complete := c\<rparr>) = hook_aborts env"
  by (intro ext) (simp add: hook_aborts_def)

lemma tool_attempt_provider [simp]: "tool_attempt (env\<lparr>en_complete := c\<rparr>) = tool_attempt env"
  by (intro ext) (simp add: tool_attempt_def)

lemma tool_execute_provider [simp]: "tool_execute (env\<lparr>en_complete := c\<rparr>) = tool_execute env"
  by (intro ext) (simp add: tool_execute_def split: option.split)

lemma emit_tool_result_hook_provider [simp]: "emit_tool_result_hook (env\<lparr>en_complete := c\<rparr>) = emit_tool_result_hook env"
  by (intro ext) (simp add: emit_tool_result_hook_def)

lemma tool_calls_loop_provider [simp]: "tool_calls_loop (env\<lparr>en_complete := c\<rparr>) cfg tools uses st = tool_calls_loop env cfg tools uses st"
  by (induction uses arbitrary: st) (simp_all add: Let_def split: option.split sum.split prod.split bool.split)

lemma execute_requested_tools_provider [simp]: "execute_requested_tools (env\<lparr>en_complete := c\<rparr>) = execute_requested_tools env"
  by (intro ext) (simp add: execute_requested_tools_def split: option.split)

lemma finish_turn_provider [simp]: "finish_turn (env\<lparr>en_complete := c\<rparr>) = finish_turn env"
  by (intro ext) (simp add: finish_turn_def split: option.split sum.split prod.split bool.split)

lemma wall_clock_provider [simp]:
  "elapsed (env\<lparr>en_complete := c\<rparr>) = elapsed env" "wall_clock_stop (env\<lparr>en_complete := c\<rparr>) = wall_clock_stop env"
  "remaining_wall_clock (env\<lparr>en_complete := c\<rparr>) = remaining_wall_clock env"
  by (intro ext, simp add: elapsed_def wall_clock_stop_def remaining_wall_clock_def)+

lemma run_turn_agree:
  assumes "\<forall>req. good_history prompt (cr_messages req) \<longrightarrow> c req = en_complete env req" and "good_history prompt (rs_messages st)"
  shows "run_turn (env\<lparr>en_complete := c\<rparr>) cfg turn st = run_turn env cfg turn st"
proof -
  have "complete_turn (env\<lparr>en_complete := c\<rparr>) cfg st' = complete_turn env cfg st'" if "good_history prompt (rs_messages st')" for st'
  proof -
    have "c (build_completion_request cfg (rs_messages st')) = en_complete env (build_completion_request cfg (rs_messages st'))"
      using assms(1) that by (simp add: build_completion_request_def)
    then show ?thesis by (simp add: complete_turn_def)
  qed
  moreover have "rs_messages (fst (hook_aborts env cfg (TurnStart turn) st)) = rs_messages st"
    by (simp add: hook_aborts_def split_beta)
  ultimately have "complete_turn (env\<lparr>en_complete := c\<rparr>) cfg (fst (hook_aborts env cfg (TurnStart turn) st)) =
      complete_turn env cfg (fst (hook_aborts env cfg (TurnStart turn) st))"
    using assms(2) by simp
  then show ?thesis
    unfolding run_turn_def finish_turn_provider hook_aborts_provider wall_clock_provider
    by (cases "hook_aborts env cfg (TurnStart turn) st") (simp split: option.split bool.split)
qed

text \<open>
  What compaction promises: at the input limit of the provider, if it has one, the strategy, if there is one, either fails or turns a good history
  into a good one. The strategy that always fails does, and so does truncation to the system prompt; truncation to a
  number of messages in general does not (lemma \<open>truncation_orphans_results\<close>).
\<close>

definition strategy_keeps_history :: "string \<Rightarrow> nat option \<Rightarrow> context_strategy option \<Rightarrow> bool" where
  "strategy_keeps_history prompt limit strategy \<longleftrightarrow>
     (\<forall>s ms k ms'. limit = Some k \<longrightarrow> strategy = Some s \<longrightarrow> s ms k = Inr ms' \<longrightarrow> good_history prompt ms \<longrightarrow> good_history prompt ms')"

lemma strategies_keep_history:
  shows "strategy_keeps_history prompt None strategy"
    and "strategy_keeps_history prompt limit None"
    and "strategy_keeps_history prompt limit (Some fail_strategy)"
    and "strategy_keeps_history prompt limit (Some (truncate_strategy 0))"
proof -
  have "good_history prompt [SystemMsg prompt]" using conversation_system [OF conversation_Nil] by (simp add: good_history_def)
  then show "strategy_keeps_history prompt limit (Some (truncate_strategy 0))"
    by (auto simp: strategy_keeps_history_def truncate_strategy_def leading_system_def is_system_def good_history_def Let_def split: if_splits)
qed (simp_all add: strategy_keeps_history_def fail_strategy_def)

lemma complete_turn_fields:
  assumes "complete_turn env cfg st = (st', r)"
  shows "rs_messages st' = rs_messages st" "rs_tool_calls_used st' = rs_tool_calls_used st" "rs_policy st' = rs_policy st"
  using assms
  by (auto simp: complete_turn_def hook_aborts_def Let_def split: prod.splits option.splits sum.splits bool.splits if_splits)

lemma complete_turn_tool_calls:
  "complete_turn env cfg st = (st', Inr (Completed response tool_calls reason)) \<Longrightarrow> tool_calls = has_tool_calls (rp_message response)"
  by (auto simp: complete_turn_def Let_def split: prod.splits option.splits sum.splits bool.splits)

lemma good_history_answered:
  assumes "good_history prompt ms" "map result_id results = map (Some \<circ> tu_id) (am_tool_calls a)"
  shows "good_history prompt (ms @ AssistantMsg a # results)"
  using assms conversation_assistant [of ms results a] by (auto simp: good_history_def)

lemma compact_context_good:
  assumes "compact_context json_len limit strategy st = (st', Inr u)" "strategy_keeps_history prompt limit strategy"
    "good_history prompt (rs_messages st)"
  shows "good_history prompt (rs_messages st')"
  using assms
  by (auto simp: compact_context_def compact_if_needed_def strategy_keeps_history_def fail_strategy_def
      split: option.splits sum.splits if_splits)

lemma finish_turn_good:
  assumes "finish_turn env cfg turn st = (st', Inr TurnContinue)" and "ac_tools cfg \<noteq> None"
    and "strategy_keeps_history prompt (en_max_input_tokens env) (ac_context_strategy cfg)"
    and "good_history prompt ms" "rs_messages st = ms @ [AssistantMsg (rs_last_assistant st)]"
  shows "good_history prompt (rs_messages st')"
proof -
  from assms(1,2) obtain tools st1 st2 where steps: "ac_tools cfg = Some tools"
    "tool_calls_loop env cfg tools (am_tool_calls (rs_last_assistant st)) st = (st1, Inr None)"
    "compact_context (en_json_len env) (en_max_input_tokens env) (ac_context_strategy cfg) st1 = (st2, Inr ())"
    "hook_aborts env cfg (TurnEnd turn (rs_last_assistant st2)) st2 = (st', False)"
    by (auto simp: finish_turn_def execute_requested_tools_def split: prod.splits sum.splits option.splits bool.splits)
  from tool_calls_loop_answers [OF steps(2)] have "good_history prompt (rs_messages st1)"
    using good_history_answered [OF assms(4)] assms(5) by auto
  from compact_context_good [OF steps(3) assms(3) this] show ?thesis
    using hook_aborts_fields(1) [OF steps(4)] by simp
qed

lemma finish_turn_reason:
  "finish_turn env cfg turn st = (st', Inr (TurnStop n reason)) \<Longrightarrow> reason \<noteq> EndTurn \<and> reason \<noteq> MaxTurns"
proof -
  have "tool_calls_loop env cfg tools uses st = (st', Inr (Some reason)) \<Longrightarrow> reason \<noteq> EndTurn \<and> reason \<noteq> MaxTurns" for tools uses st
    by (induction uses arbitrary: st)
      (auto simp: Let_def tool_budget_stop_def split: option.splits sum.splits prod.splits bool.splits if_splits)
  then show "finish_turn env cfg turn st = (st', Inr (TurnStop n reason)) \<Longrightarrow> reason \<noteq> EndTurn \<and> reason \<noteq> MaxTurns"
    by (auto simp: finish_turn_def execute_requested_tools_def split: prod.splits sum.splits option.splits bool.splits)
qed

lemma run_turn_cases:
  assumes "run_turn env cfg turn st = (st', Inr out)" and "out = TurnContinue \<or> out = TurnStop n EndTurn \<or> out = TurnStop n MaxTurns"
  obtains st2 response reason where
    "rs_messages st2 = rs_messages st" "complete_turn env cfg (fst (hook_aborts env cfg (TurnStart turn) st)) =
       (st2, Inr (Completed response (has_tool_calls (rp_message response)) reason))"
    "if has_tool_calls (rp_message response) then finish_turn env cfg turn (record_response response st2) = (st', Inr out)
     else st' = record_response response st2 \<and> out = TurnStop (turn + 1) (stop_reason_from reason)"
proof -
  from assms obtain st1 st2 response tool_calls reason where *:
    "hook_aborts env cfg (TurnStart turn) st = (st1, False)"
    "complete_turn env cfg st1 = (st2, Inr (Completed response tool_calls reason))"
    "if tool_calls then finish_turn env cfg turn (record_response response st2) = (st', Inr out)
     else st' = record_response response st2 \<and> out = TurnStop (turn + 1) (stop_reason_from reason)"
    by (auto simp: run_turn_def Let_def token_budget_stop_def wall_clock_stop_def
        split: option.splits prod.splits sum.splits bool.splits llm_call_outcome.splits if_splits)
  then show ?thesis
    using that [of st2 response reason] complete_turn_tool_calls [OF *(2)] complete_turn_fields(1) [OF *(2)] hook_aborts_fields(1) [OF *(1)]
    by simp
qed

lemma stop_reason_from_not_MaxTurns: "stop_reason_from r \<noteq> MaxTurns"
  by (cases r) (simp_all add: stop_reason_from_def)

lemma run_turn_good:
  assumes "run_turn env cfg turn st = (st', Inr out)" and "out = TurnContinue \<or> out = TurnStop n EndTurn \<or> out = TurnStop n MaxTurns"
    and "ac_tools cfg \<noteq> None" and "strategy_keeps_history prompt (en_max_input_tokens env) (ac_context_strategy cfg)" and "good_history prompt (rs_messages st)"
  shows "good_history prompt (rs_messages st')"
proof -
  from run_turn_cases [OF assms(1,2)] obtain st2 response reason where turn:
    "rs_messages st2 = rs_messages st"
    "if has_tool_calls (rp_message response) then finish_turn env cfg turn (record_response response st2) = (st', Inr out)
     else st' = record_response response st2 \<and> out = TurnStop (turn + 1) (stop_reason_from reason)"
    by metis
  show ?thesis
  proof (cases "has_tool_calls (rp_message response)")
    case True
    then have ft: "finish_turn env cfg turn (record_response response st2) = (st', Inr out)" using turn by simp
    with assms(2) finish_turn_reason [of env cfg turn "record_response response st2" st'] have "out = TurnContinue" by auto
    with ft finish_turn_good [of env cfg turn "record_response response st2" st' prompt "rs_messages st"] assms(3-5) turn(1)
    show ?thesis by (simp add: record_response_def)
  next
    case False
    with turn show ?thesis using good_history_answered [OF assms(5), of "[]" "rp_message response"]
      by (simp add: record_response_def has_tool_calls_def)
  qed
qed

lemma run_loop_good:
  assumes "\<forall>req. good_history prompt (cr_messages req) \<longrightarrow> c req = en_complete env req"
    and "ac_tools cfg \<noteq> None" and "strategy_keeps_history prompt (en_max_input_tokens env) (ac_context_strategy cfg)"
  shows "good_history prompt (rs_messages st) \<Longrightarrow>
    run_loop (env\<lparr>en_complete := c\<rparr>) cfg turns st = run_loop env cfg turns st \<and>
    (\<forall>st' r. run_loop env cfg turns st = (st', Inr r) \<and> ar_stop_reason r \<in> {EndTurn, MaxTurns} \<longrightarrow> good_history prompt (ar_messages r))"
proof (induction turns arbitrary: st)
  case (Cons turn turns)
  note agree = run_turn_agree [OF assms(1) Cons.prems, of cfg turn]
  obtain st1 out where turn: "run_turn env cfg turn st = (st1, out)" by fastforce
  consider (error) e where "out = Inl e" | (stop) m reason where "out = Inr (TurnStop m reason)" | (go_on) "out = Inr TurnContinue"
    by (metis sum.exhaust turn_outcome.exhaust)
  then show ?case
  proof cases
    case stop
    with run_turn_good [of env cfg turn st st1 _ m prompt] turn assms(2,3) Cons.prems agree show ?thesis
      by (auto simp: finish_run_def)
  next
    case go_on
    with run_turn_good [of env cfg turn st st1 TurnContinue _ prompt] turn assms(2,3) Cons.prems
    have "good_history prompt (rs_messages st1)" by simp
    from Cons.IH [OF this] show ?thesis using go_on turn agree by simp
  qed (use turn agree in simp)
qed (simp add: finish_run_def)

text \<open>
  C36. An agent that has a tool registry and is started on a conversation only ever sends the provider conversations that begin with the system
  prompt and in which every tool call of the assistant is answered by exactly one result, at once and in order, whatever tools,
  hooks, policy and provider do: how the provider behaves on any other request makes no difference to the run. A run that ends with the answer of the
  model, or after its last turn, returns such a conversation. This holds for a provider without input limit and for every compaction
  strategy that keeps the shape of a conversation when it succeeds.
\<close>

theorem provider_sees_answered_calls:
  assumes "ac_tools cfg \<noteq> None" and "conversation ms"
    and "strategy_keeps_history (ac_system_prompt cfg) (en_max_input_tokens env) (ac_context_strategy cfg)"
    and "\<forall>req. good_history (ac_system_prompt cfg) (cr_messages req) \<longrightarrow> c req = en_complete env req"
  shows "agent_run (env\<lparr>en_complete := c\<rparr>) cfg ms v = agent_run env cfg ms v \<and>
    (\<forall>st r. agent_run env cfg ms v = (st, Inr r) \<and> ar_stop_reason r \<in> {EndTurn, MaxTurns} \<longrightarrow>
       good_history (ac_system_prompt cfg) (ar_messages r))"
proof -
  have "conversation (SystemMsg (ac_system_prompt cfg) # ms)"
    using conversation_append [OF assms(2), of "[SystemMsg (ac_system_prompt cfg)]"] conversation_system [OF conversation_Nil] by simp
  then have "good_history (ac_system_prompt cfg)
      (rs_messages (run_state_new (ac_system_prompt cfg) ms (en_clock env v) (ac_policy cfg) v))"
    by (simp add: good_history_def run_state_new_def)
  from run_loop_good [OF assms(4,1,3) this, of "[0..<ac_max_turns cfg]"] show ?thesis
    by (auto simp: agent_run_def Let_def initial_stop_def finish_run_def split: if_splits)
qed

text \<open>A provider that asks for a tool in the first round and answers in the second.\<close>

definition example_call :: assistant_message where
  "example_call = \<lparr>am_content = [], am_tool_calls = [\<lparr>tu_id = ''t1'', tu_name = ''shell'', tu_input = []\<rparr>], am_usage = None\<rparr>"

definition example_answer :: assistant_message where
  "example_answer = \<lparr>am_content = [TextPart ''done''], am_tool_calls = [], am_usage = None\<rparr>"

definition example_env :: "(unit, unit, nat \<times> nat) agent_env" where
  "example_env =
     \<lparr>en_clock = (\<lambda>_. 0), en_handler = (\<lambda>_ _ st. (st, HookReturn (Inr ()))), en_cancelled = (\<lambda>_. False),
      en_complete = (\<lambda>req (hr, n, k).
        ((hr, Suc n, k), Inr \<lparr>rp_message = (if n = 0 then example_call else example_answer), rp_model = [], rp_usage = usage_zero,
           rp_stop_reason = None\<rparr>)),
      en_llm_timeout = (\<lambda>_ g v. (fst (g v), Some (snd (g v)))), en_tool_timeout = (\<lambda>_ g v. (fst (g v), Some (snd (g v)))),
      en_policy_env = \<lparr>pe_time = \<lparr>clock = (\<lambda>_. 0), sleep = (\<lambda>_ w. w)\<rparr>, pe_delay = (\<lambda>_ _. 0), pe_on_retry = (\<lambda>_ _ w. w),
         pe_governor = (\<lambda>(g, _). (g, True)), pe_acquire = (\<lambda>_ st. (st, Acquired))\<rparr>,
      en_max_input_tokens = None, en_json_len = (\<lambda>_. 0), en_dbg = quoted, en_dbg_duration = (\<lambda>_. [])\<rparr>"

definition example_config :: "(unit, unit hook_registry \<times> nat \<times> nat) agent_config" where
  "example_config = agent_config_default\<lparr>ac_tools := Some tool_registry_new, ac_max_turns := 2\<rparr>"

text \<open>With an input limit of ten tokens the history is cut to the system prompt after the first turn.\<close>

definition compacting_env :: "(unit, unit, nat \<times> nat) agent_env" where
  "compacting_env = example_env\<lparr>en_max_input_tokens := Some 10\<rparr>"

definition compacting_config :: "(unit, unit hook_registry \<times> nat \<times> nat) agent_config" where
  "compacting_config = example_config\<lparr>ac_context_strategy := Some (truncate_strategy 0)\<rparr>"

text \<open>A provider that fails on every other request.\<close>

definition strict_provider ::
    "completion_request \<Rightarrow> (unit hook_registry \<times> nat \<times> nat, completion_response app_result) operation" where
  "strict_provider req =
     (if good_history [] (cr_messages req) then en_complete example_env req else (\<lambda>v. (v, Inl wall_clock_error)))"

lemmas example_run_defs =
  agent_run_def example_config_def agent_config_default_def initial_stop_def run_state_new_def example_env_def run_turn_def
  wall_clock_stop_def elapsed_def hook_aborts_def complete_turn_def build_completion_request_def remaining_wall_clock_def
  has_tool_calls_def example_call_def example_answer_def token_budget_stop_def total_tokens_def record_response_def usage_add_def
  wrapping_add64_def usage_zero_def finish_turn_def execute_requested_tools_def tool_budget_stop_def tool_input_new_def is_object_def
  tool_execute_def tool_attempt_def registry_call_def call_inner_def tool_get_def tool_registry_new_def emit_tool_result_hook_def
  append_tool_result_def compact_context_def compact_if_needed_def stop_reason_from_def finish_run_def

lemma example_ends:
  "\<exists>st r. agent_run example_env example_config [UserMsg [TextPart ''hi'']] (hook_registry_new, 0, 0) = (st, Inr r) \<and>
     ar_stop_reason r = EndTurn \<and> length (ar_messages r) = 5"
  by (simp add: example_run_defs Let_def upt_rec)

lemma compacting_ends:
  "\<exists>st r. agent_run compacting_env compacting_config [UserMsg [TextPart ''hi'']] (hook_registry_new, 0, 0) = (st, Inr r) \<and>
     ar_stop_reason r = EndTurn \<and> ar_messages r = [SystemMsg [], AssistantMsg example_answer]"
  by (simp add: compacting_env_def compacting_config_def count_tokens_approx_def message_tokens_def approx_chars_def
      truncate_strategy_def leading_system_def is_system_def example_run_defs Let_def upt_rec)

theorem provider_sees_answered_calls_witness:
  "agent_run (compacting_env\<lparr>en_complete := strict_provider\<rparr>) compacting_config [UserMsg [TextPart ''hi'']] (hook_registry_new, 0, 0) =
     agent_run compacting_env compacting_config [UserMsg [TextPart ''hi'']] (hook_registry_new, 0, 0) \<and>
   (\<exists>st r. agent_run compacting_env compacting_config [UserMsg [TextPart ''hi'']] (hook_registry_new, 0, 0) = (st, Inr r) \<and>
      ar_messages r = [SystemMsg [], AssistantMsg example_answer] \<and> good_history [] (ar_messages r)) \<and>
   agent_run (example_env\<lparr>en_complete := strict_provider\<rparr>) example_config [UserMsg [TextPart ''hi'']] (hook_registry_new, 0, 0) =
     agent_run example_env example_config [UserMsg [TextPart ''hi'']] (hook_registry_new, 0, 0) \<and>
   (\<exists>st r. agent_run example_env example_config [UserMsg [TextPart ''hi'']] (hook_registry_new, 0, 0) = (st, Inr r) \<and>
      length (ar_messages r) = 5 \<and> good_history [] (ar_messages r))"
proof -
  have started: "conversation [UserMsg [TextPart ''hi'']]" using conversation_user [OF conversation_Nil] by simp
  have prompt: "ac_system_prompt example_config = []" "ac_system_prompt compacting_config = []"
    and tools: "ac_tools example_config \<noteq> None" "ac_tools compacting_config \<noteq> None"
    by (simp_all add: compacting_config_def example_config_def agent_config_default_def)
  have limits: "en_max_input_tokens example_env = None" "ac_context_strategy compacting_config = Some (truncate_strategy 0)"
    by (simp_all add: example_env_def compacting_config_def)
  have provider: "en_complete compacting_env = en_complete example_env" by (simp add: compacting_env_def)
  note plain = provider_sees_answered_calls [OF tools(1) started, of example_env strict_provider "(hook_registry_new, 0, 0)",
      unfolded prompt limits, OF strategies_keep_history(1)]
  note compacted = provider_sees_answered_calls [OF tools(2) started, of compacting_env strict_provider "(hook_registry_new, 0, 0)",
      unfolded prompt limits provider, OF strategies_keep_history(4)]
  from plain compacted example_ends compacting_ends show ?thesis by (auto simp: strict_provider_def)
qed

text \<open>
  Without a tool registry the calls of an assistant message stay unanswered in the history, and the next request carries them.
\<close>

lemma conversation_last: "conversation ms \<Longrightarrow> ms \<noteq> [] \<Longrightarrow> last ms = AssistantMsg a \<Longrightarrow> am_tool_calls a = []"
proof (induction rule: conversation.induct)
  case (conversation_assistant ms results b)
  show ?case
  proof (cases "results = []")
    case False
    then have "result_id (last results) \<in> set (map (Some \<circ> tu_id) (am_tool_calls b))"
      unfolding conversation_assistant.hyps(2) [symmetric] by simp
    with False conversation_assistant.prems(2) show ?thesis by auto
  qed (use conversation_assistant in simp)
qed auto

lemma no_tools_leaves_calls_unanswered:
  "(\<exists>st r. agent_run example_env (example_config\<lparr>ac_tools := None\<rparr>) [UserMsg [TextPart ''hi'']] (hook_registry_new, 0, 0) = (st, Inr r) \<and>
      ar_messages r = [SystemMsg [], UserMsg [TextPart ''hi''], AssistantMsg example_call, AssistantMsg example_answer]) \<and>
   \<not> conversation [SystemMsg [], UserMsg [TextPart ''hi''], AssistantMsg example_call]"
proof
  show "\<exists>st r. agent_run example_env (example_config\<lparr>ac_tools := None\<rparr>) [UserMsg [TextPart ''hi'']] (hook_registry_new, 0, 0) = (st, Inr r) \<and>
      ar_messages r = [SystemMsg [], UserMsg [TextPart ''hi''], AssistantMsg example_call, AssistantMsg example_answer]"
    by (simp add: example_run_defs Let_def upt_rec)
  show "\<not> conversation [SystemMsg [], UserMsg [TextPart ''hi''], AssistantMsg example_call]"
    using conversation_last [of "[SystemMsg [], UserMsg [TextPart ''hi''], AssistantMsg example_call]" example_call]
    by (auto simp: example_call_def)
qed

text \<open>Keeping the last messages only can cut a result from its call, which is no conversation any more.\<close>

lemma conversation_head: "conversation ms \<Longrightarrow> ms \<noteq> [] \<Longrightarrow> result_id (hd ms) = None"
  by (induction rule: conversation.induct) (auto simp: hd_append)

lemma truncation_orphans_results:
  "conversation [UserMsg [], AssistantMsg example_call, ToolMsg ''t1'' ''ok'' False] \<and>
   truncate_strategy 1 [UserMsg [], AssistantMsg example_call, ToolMsg ''t1'' ''ok'' False] limit = Inr [ToolMsg ''t1'' ''ok'' False] \<and>
   \<not> conversation [ToolMsg ''t1'' ''ok'' False]"
proof -
  have "conversation ([UserMsg []] @ AssistantMsg example_call # [ToolMsg ''t1'' ''ok'' False])"
    by (rule conversation_assistant) (use conversation_user [OF conversation_Nil] in \<open>auto simp: example_call_def\<close>)
  then show ?thesis using conversation_head [of "[ToolMsg ''t1'' ''ok'' False]"]
    by (auto simp: truncate_strategy_def leading_system_def is_system_def)
qed

section \<open>Budgets\<close>

text \<open>
  A measure of the world that a call of the provider raises by at most \<open>a\<close>, a run of a tool by at most \<open>b\<close>, and nothing else: such
  as the number of calls of the provider (\<open>a = 1\<close>, \<open>b = 0\<close>), or of runs of tools (\<open>a = 0\<close>, \<open>b = 1\<close>). A call that a
  timer cuts off has done no more than the call in full.
\<close>

definition bounded_timeout :: "('v \<Rightarrow> nat) \<Rightarrow> ('v, 'r) timeout_fn \<Rightarrow> bool" where
  "bounded_timeout m tmo \<longleftrightarrow>
     (\<forall>d g v. tmo d g v = (fst (g v), Some (snd (g v))) \<or> (snd (tmo d g v) = None \<and> m (fst (tmo d g v)) \<le> m (fst (g v))))"

definition bounded_tools :: "nat \<Rightarrow> ('v \<Rightarrow> nat) \<Rightarrow> 'v tool_registry \<Rightarrow> bool" where
  "bounded_tools b m tools \<longleftrightarrow>
     (\<forall>name t ctx input v. tool_get name tools = Some t \<longrightarrow> m (fst (cl_call t ctx input v)) \<le> m v + b) \<and>
     (\<forall>evaluate ctx call envelope v. tg_sensitivity tools = Some evaluate \<longrightarrow> m (fst (evaluate ctx call envelope v)) \<le> m v) \<and>
     (\<forall>approve ctx call reason v. tg_approval tools = Some approve \<longrightarrow> m (fst (approve ctx call reason v)) \<le> m v)"

definition bounded_effects ::
    "nat \<Rightarrow> nat \<Rightarrow> ('h hook_registry \<times> 'w \<Rightarrow> nat) \<Rightarrow> ('h, 'g, 'w) agent_env \<Rightarrow> ('g, 'h hook_registry \<times> 'w) agent_config \<Rightarrow> bool" where
  "bounded_effects a b m env cfg \<longleftrightarrow>
     (\<forall>h ev st. m (fst (en_handler env h ev st)) \<le> m st) \<and>
     (\<forall>req v. m (fst (en_complete env req v)) \<le> m v + a) \<and>
     bounded_timeout m (en_llm_timeout env) \<and> bounded_timeout m (en_tool_timeout env) \<and>
     (\<forall>d v. m (sleep (pe_time (en_policy_env env)) d v) = m v) \<and>
     (\<forall>k e v. m (pe_on_retry (en_policy_env env) k e v) = m v) \<and>
     (\<forall>d st. m (snd (fst (pe_acquire (en_policy_env env) d st))) = m (snd st)) \<and>
     (\<forall>tools. ac_tools cfg = Some tools \<longrightarrow> bounded_tools b m tools)"

lemma bounded_timeoutD: "bounded_timeout m tmo \<Longrightarrow> m (fst (tmo d g v)) \<le> m (fst (g v))"
  unfolding bounded_timeout_def by (metis fst_conv order_refl)

definition attempts_bound :: "'g policy option \<Rightarrow> nat" where
  "attempts_bound pol = (case pol of None \<Rightarrow> 1 | Some p \<Rightarrow> calls_bound (p_retry p))"

text \<open>What the run can still spend on tools is counted with what it has spent.\<close>

definition spent ::
    "nat \<Rightarrow> ('v \<Rightarrow> nat) \<Rightarrow> ('g, 'v) agent_config \<Rightarrow> ('g, 'v) run_state \<Rightarrow> nat" where
  "spent c m cfg st = m (rs_world st) + c * (ac_max_tool_calls cfg - rs_tool_calls_used st)"

lemma run_hitl_bounded:
  assumes "bounded_tools b m tools"
  shows "m (fst (run_hitl tools t ctx input v)) \<le> m v"
proof (cases "tg_sensitivity tools")
  case (Some evaluate)
  let ?call = "\<lparr>tl_name = td_name (cl_definition t), tl_input = input\<rparr>"
  obtain v1 r where ev: "evaluate ctx ?call (td_envelope (cl_definition t)) v = (v1, r)" by fastforce
  then have v1: "m v1 \<le> m v" using assms Some unfolding bounded_tools_def by (metis fst_conv)
  have approved: "m (fst (approve ctx ?call reason v1)) \<le> m v" if "tg_approval tools = Some approve" for approve reason
  proof -
    have "m (fst (approve ctx ?call reason v1)) \<le> m v1" using assms that unfolding bounded_tools_def by blast
    then show ?thesis using v1 by simp
  qed
  show ?thesis
  proof (cases "\<exists>reason approve. r = Inr (RequireApproval reason) \<and> tg_approval tools = Some approve")
    case True
    then obtain reason approve where r: "r = Inr (RequireApproval reason)" "tg_approval tools = Some approve" by blast
    then show ?thesis using approved [OF r(2), of reason]
      by (simp add: run_hitl_def Some Let_def ev split_beta split: sum.split bool.split)
  next
    case False
    then show ?thesis using v1
      by (auto simp: run_hitl_def Some Let_def ev split: sum.split tool_decision.split option.split)
  qed
qed (simp add: run_hitl_def)

lemma registry_call_bounded:
  assumes "bounded_tools b m tools"
  shows "m (fst (registry_call dbg tools name ctx input v)) \<le> m v + b"
proof (cases "tool_get name tools")
  case (Some t)
  have tool: "m (fst (cl_call t ctx input v1)) \<le> m v1 + b" for v1 using assms Some by (simp add: bounded_tools_def)
  obtain v1 r where hitl: "run_hitl tools t ctx input v = (v1, r)" by fastforce
  with run_hitl_bounded [OF assms, of t ctx input v] have "m v1 \<le> m v" by simp
  then show ?thesis using tool [of v1] unfolding call_inner_cases [OF Some] hitl by (auto split: sum.split)
qed (simp add: registry_call_def call_inner_def)

lemma tool_attempt_bounded:
  assumes "bounded_effects a b m env cfg" "ac_tools cfg = Some tools"
  shows "m (fst (tool_attempt env limit tools call input v)) \<le> m v + b"
proof -
  have tmo: "bounded_timeout m (en_tool_timeout env)" and tools: "bounded_tools b m tools"
    using assms by (simp_all add: bounded_effects_def)
  let ?call = "registry_call (en_dbg env) tools (tu_name call) (tool_context_new\<lparr>tc_tool_use_id := tu_id call\<rparr>) input"
  have "fst (tool_attempt env limit tools call input v) = fst (en_tool_timeout env limit ?call v)"
    by (simp add: tool_attempt_def Let_def split_beta split: option.split)
  then show ?thesis
    using bounded_timeoutD [OF tmo, of limit ?call v] registry_call_bounded [OF tools] by (metis order_trans)
qed

lemma tool_execute_bounded:
  assumes env: "bounded_effects a b m env cfg" "ac_tools cfg = Some tools" and "tool_execute env limit tools call input st = (st', r)"
  shows "m (rs_world st') \<le> m (rs_world st) + b * attempts_bound (rs_policy st) \<and> attempts_bound (rs_policy st') = attempts_bound (rs_policy st)"
proof (cases "rs_policy st")
  case None
  then show ?thesis using assms(3) tool_attempt_bounded [OF env, of limit call input "rs_world st"]
    by (auto simp: tool_execute_def attempts_bound_def split: prod.splits)
next
  case (Some p)
  have "counting_policy_env b m (en_policy_env env) (en_tool_timeout env) (tool_attempt env limit tools call input)"
    using env tool_attempt_bounded [OF env] by (simp add: counting_policy_env_def bounded_effects_def bounded_timeout_def)
  from policy_execute_calls [OF this, of "\<lambda>e. e" "\<lambda>e. e" p "rs_world st"] show ?thesis
    using assms(3) Some policy_execute_retry [of "en_policy_env env" "en_tool_timeout env" "\<lambda>e. e" "\<lambda>e. e"
        "tool_attempt env limit tools call input" p "rs_world st"]
    by (auto simp: tool_execute_def attempts_bound_def simp del: policy_execute_retry split: prod.splits)
qed

text \<open>
  \<open>spends_at_most a c m cfg st st'\<close>: from \<open>st\<close> to \<open>st'\<close> the total has grown by at most \<open>a\<close>, and the attempts of a tool call are still
  bounded by the same number.
\<close>

definition spends_at_most ::
    "nat \<Rightarrow> nat \<Rightarrow> ('v \<Rightarrow> nat) \<Rightarrow> ('g, 'v) agent_config \<Rightarrow> ('g, 'v) run_state \<Rightarrow> ('g, 'v) run_state \<Rightarrow> bool" where
  "spends_at_most a b m cfg st st' \<longleftrightarrow>
     attempts_bound (rs_policy st') = attempts_bound (rs_policy st) \<and>
     spent (b * attempts_bound (rs_policy st)) m cfg st' \<le> spent (b * attempts_bound (rs_policy st)) m cfg st + a"

lemma spends_at_most_trans:
  "spends_at_most a b m cfg st st' \<Longrightarrow> spends_at_most a' b m cfg st' st'' \<Longrightarrow> spends_at_most (a + a') b m cfg st st''"
  by (simp add: spends_at_most_def)

lemma spends_at_most_mono: "spends_at_most a b m cfg st st' \<Longrightarrow> a \<le> a' \<Longrightarrow> spends_at_most a' b m cfg st st'"
  by (simp add: spends_at_most_def)

lemma spends_at_most_world:
  "rs_policy st' = rs_policy st \<Longrightarrow> rs_tool_calls_used st' = rs_tool_calls_used st \<Longrightarrow> m (rs_world st') \<le> m (rs_world st) + a \<Longrightarrow>
     spends_at_most a b m cfg st st'"
  by (simp add: spends_at_most_def spent_def)

lemma hook_aborts_spends:
  assumes "bounded_effects a b m env cfg" and "hook_aborts env cfg payload st = (st', abort)"
  shows "spends_at_most 0 b' m cfg st st'"
proof -
  have handlers: "m (fst (en_handler env h ev v)) \<le> m v" for h ev v using assms(1) unfolding bounded_effects_def by blast
  have "m (fst (emit_hook env payload v)) \<le> m v" for v
  proof -
    obtain v1 r where first: "emit (en_handler env) (en_cancelled env) (agent_event payload) v = (v1, r)" by fastforce
    note keeps = emit_keeps [where m = m and run = "en_handler env" and cancelled = "en_cancelled env"]
    have "m v1 \<le> m v" using keeps [of "agent_event payload" v] handlers first by simp
    moreover have "m (fst (emit (en_handler env) (en_cancelled env) ev v1)) \<le> m v1" for ev using keeps handlers by simp
    ultimately show ?thesis using order_trans by (auto simp: emit_hook_def Let_def first split_beta split: sum.split)
  qed
  from this [of "rs_world st"] have "m (rs_world st') \<le> m (rs_world st)"
    using assms(2) by (auto simp: hook_aborts_def split: if_splits prod.splits)
  then show ?thesis using hook_aborts_fields [OF assms(2)] by (intro spends_at_most_world) auto
qed

lemma tool_calls_loop_spends:
  assumes env: "bounded_effects a b m env cfg" "ac_tools cfg = Some tools"
  shows "tool_calls_loop env cfg tools uses st = (st', r) \<Longrightarrow> spends_at_most 0 b m cfg st st'"
proof (induction uses arbitrary: st)
  case (Cons call uses)
  let ?st1 = "st\<lparr>rs_tool_calls_used := rs_tool_calls_used st + 1\<rparr>"
  show ?case
  proof (cases "tool_budget_stop cfg st")
    case (Some reason)
    then show ?thesis using Cons.prems by (auto intro: spends_at_most_world)
  next
    case None
    then have left: "ac_max_tool_calls cfg - rs_tool_calls_used st = Suc (ac_max_tool_calls cfg - rs_tool_calls_used ?st1)"
      by (simp add: tool_budget_stop_def Suc_diff_le split: if_splits)
    have input: "tool_input_new (JObject (tu_input call)) = Inr (JObject (tu_input call))"
      by (simp add: tool_input_new_def is_object_def)
    obtain st2 abort where pre: "hook_aborts env cfg (PreToolCall (tu_name call) (JObject (tu_input call))) ?st1 = (st2, abort)"
      by fastforce
    obtain st3 r3 where exec: "tool_execute env (ac_tool_timeout cfg) tools call (JObject (tu_input call)) st2 = (st3, r3)"
      by fastforce
    let ?st4 = "emit_tool_result_hook env cfg (tu_name call) (JObject (tu_input call)) r3 st3"
    note step2 = hook_aborts_spends [OF env(1) pre, of b]
    have step4: "spends_at_most 0 b m cfg st3 ?st4"
      unfolding emit_tool_result_hook_def by (rule hook_aborts_spends [OF env(1) surjective_pairing])
    note ex = tool_execute_bounded [OF env exec] tool_execute_fields(2) [OF exec]
    have "spends_at_most 0 b m cfg st st2"
      using step2 left by (simp add: spends_at_most_def spent_def)
    moreover have "spends_at_most 0 b m cfg st ?st4"
      using step2 step4 ex left by (simp add: spends_at_most_def spent_def)
    moreover have "spends_at_most 0 b m cfg ?st4 st'"
      if "\<not> abort" using Cons.IH [of "append_tool_result (tu_id call) r3 ?st4"] Cons.prems None pre exec that
      by (simp add: input Let_def spends_at_most_def spent_def)
    ultimately show ?thesis
      using Cons.prems None pre exec spends_at_most_trans [of 0 b m cfg st ?st4 0 st']
      by (cases abort) (auto simp: input Let_def)
  qed
qed (auto intro: spends_at_most_world)

lemma complete_turn_spends:
  assumes env: "bounded_effects a b m env cfg" and "complete_turn env cfg st = (st', r)"
  shows "spends_at_most a b' m cfg st st'"
proof -
  let ?req = "build_completion_request cfg (rs_messages st)"
  obtain st1 abort where pre: "hook_aborts env cfg (PreLLMCall ?req) st = (st1, abort)" by fastforce
  let ?limit = "remaining_wall_clock env (ac_wall_clock cfg) st1"
  obtain v out where call: "en_llm_timeout env ?limit (en_complete env ?req) (rs_world st1) = (v, out)" by fastforce
  have "bounded_timeout m (en_llm_timeout env)" "m (fst (en_complete env ?req (rs_world st1))) \<le> m (rs_world st1) + a"
    using env unfolding bounded_effects_def by blast+
  with bounded_timeoutD [of m "en_llm_timeout env" ?limit "en_complete env ?req" "rs_world st1"] call
  have "spends_at_most a b' m cfg st1 (st1\<lparr>rs_world := v\<rparr>)" by (intro spends_at_most_world) auto
  note called = spends_at_most_trans [OF hook_aborts_spends [OF env pre] this]
  have "spends_at_most a b' m cfg st st2" if "hook_aborts env cfg payload (st1\<lparr>rs_world := v\<rparr>) = (st2, abort')" for payload st2 abort'
    using spends_at_most_trans [OF called hook_aborts_spends [OF env that]] by simp
  then show ?thesis
    using assms(2) called spends_at_most_mono [OF hook_aborts_spends [OF env pre], of a b']
    by (auto simp: complete_turn_def Let_def pre call split: option.splits sum.splits prod.splits bool.splits)
qed

lemma finish_turn_spends:
  assumes env: "bounded_effects a b m env cfg" and "finish_turn env cfg turn st = (st', r)"
  shows "spends_at_most 0 b m cfg st st'"
proof -
  obtain st1 r1 where tools: "execute_requested_tools env cfg st = (st1, r1)" by fastforce
  have s1: "spends_at_most 0 b m cfg st st1"
    using tools tool_calls_loop_spends [OF env] by (auto simp: execute_requested_tools_def intro: spends_at_most_world split: option.splits)
  obtain st2 r2 where compact: "compact_context (en_json_len env) (en_max_input_tokens env) (ac_context_strategy cfg) st1 = (st2, r2)"
    by fastforce
  have s2: "spends_at_most 0 b m cfg st st2"
    using spends_at_most_trans [OF s1, of 0 st2] compact_context_frame [OF compact] by (simp add: spends_at_most_world)
  have "spends_at_most 0 b m cfg st st3" if "hook_aborts env cfg payload st2 = (st3, abort)" for payload st3 abort
    using spends_at_most_trans [OF s2 hook_aborts_spends [OF env that]] by simp
  then show ?thesis
    using assms(2) s1 s2 by (auto simp: finish_turn_def tools compact split: sum.splits option.splits prod.splits bool.splits)
qed

lemma run_turn_spends:
  assumes env: "bounded_effects a b m env cfg" and "run_turn env cfg turn st = (st', r)"
  shows "spends_at_most a b m cfg st st'"
proof -
  obtain st1 abort where start: "hook_aborts env cfg (TurnStart turn) st = (st1, abort)" by fastforce
  obtain st2 out where call: "complete_turn env cfg st1 = (st2, out)" by fastforce
  note s1 = hook_aborts_spends [OF env start, of b]
  have s2: "spends_at_most a b m cfg st st2"
    using spends_at_most_trans [OF s1 complete_turn_spends [OF env call]] by simp
  have s3: "spends_at_most a b m cfg st (record_response response st2)" for response
    using spends_at_most_trans [OF s2, of 0 "record_response response st2"]
    by (simp add: spends_at_most_world record_response_def)
  have s4: "spends_at_most a b m cfg st st4" if "finish_turn env cfg turn (record_response response st2) = (st4, r4)" for response st4 r4
    using spends_at_most_trans [OF s3 finish_turn_spends [OF env that]] by simp
  show ?thesis
    using assms(2) spends_at_most_mono [OF s1, of a] s2 s3 s4
    by (auto simp: run_turn_def start call Let_def intro: spends_at_most_world
        split: option.splits sum.splits bool.splits llm_call_outcome.splits if_splits)
qed

lemma run_loop_spends:
  assumes env: "bounded_effects a b m env cfg"
  shows "run_loop env cfg turns st = (st', r) \<Longrightarrow> spends_at_most (a * length turns) b m cfg st st'"
proof (induction turns arbitrary: st)
  case (Cons turn turns)
  obtain st1 out where turn: "run_turn env cfg turn st = (st1, out)" by fastforce
  note s1 = run_turn_spends [OF env turn]
  show ?case
  proof (cases "out = Inr TurnContinue")
    case True
    with Cons turn spends_at_most_trans [OF s1 Cons.IH] show ?thesis by simp
  next
    case False
    with Cons.prems turn have "st' = st1" by (auto split: sum.splits turn_outcome.splits)
    then show ?thesis using spends_at_most_mono [OF s1, of "a * length (turn # turns)"] by simp
  qed
qed (auto intro: spends_at_most_world)

lemma run_loop_turn_count:
  "run_loop env cfg [k..<ac_max_turns cfg] st = (st', Inr r) \<Longrightarrow> k \<le> ac_max_turns cfg \<Longrightarrow> ar_turn_count r \<le> ac_max_turns cfg"
proof (induction "ac_max_turns cfg - k" arbitrary: k st)
  case (Suc n)
  then have "[k..<ac_max_turns cfg] = k # [Suc k..<ac_max_turns cfg]" by (simp add: upt_conv_Cons)
  with Suc.prems Suc.hyps(1) [of "Suc k"] Suc.hyps(2) show ?case
    by (auto simp: finish_run_def dest!: run_turn_stop split: prod.splits sum.splits turn_outcome.splits)
qed (auto simp: finish_run_def)

text \<open>
  C37. A run stays within its budgets whatever the model asks for: at most \<^verbatim>\<open>max_turns\<close> calls of the provider and \<^verbatim>\<open>max_tool_calls\<close> calls
  of tools, each tried as often as the retry policy allows, if it has one. If one call of the provider raises a measure of the
  world by at most \<open>a\<close>, a run of a tool by at most \<open>b\<close>, and hooks, timers and approvals do not raise it, then a run raises it by
  at most the sum of these budgets. The turns reported never exceed \<^verbatim>\<open>max_turns\<close>.
\<close>

theorem agent_run_within_budgets:
  assumes "bounded_effects a b m env cfg"
  shows "m (rs_world (fst (agent_run env cfg ms v))) \<le>
      m v + a * ac_max_turns cfg
          + b * (case ac_policy cfg of None \<Rightarrow> 1 | Some p \<Rightarrow> (case p_retry p of None \<Rightarrow> 1 | Some r \<Rightarrow> max_attempts r)) * ac_max_tool_calls cfg \<and>
    (\<forall>r. snd (agent_run env cfg ms v) = Inr r \<longrightarrow> ar_turn_count r \<le> ac_max_turns cfg)"
proof -
  let ?st = "run_state_new (ac_system_prompt cfg) ms (en_clock env v) (ac_policy cfg) v"
  obtain st' r where run: "run_loop env cfg [0..<ac_max_turns cfg] ?st = (st', r)" by fastforce
  have bound: "attempts_bound (ac_policy cfg) =
      (case ac_policy cfg of None \<Rightarrow> 1 | Some p \<Rightarrow> (case p_retry p of None \<Rightarrow> 1 | Some r \<Rightarrow> max_attempts r))"
    by (simp add: attempts_bound_def calls_bound_def split: option.split)
  from run_loop_spends [OF assms run]
  have "m (rs_world st') \<le> m v + a * ac_max_turns cfg + b * attempts_bound (ac_policy cfg) * ac_max_tool_calls cfg"
    by (simp add: spends_at_most_def spent_def run_state_new_def)
  then show ?thesis using run run_loop_turn_count [of env cfg 0 ?st st'] unfolding bound
    by (auto simp: agent_run_def Let_def initial_stop_def finish_run_def run_state_new_def)
qed

definition counting_config :: "(unit, unit hook_registry \<times> nat \<times> nat) agent_config" where
  "counting_config = agent_config_default\<lparr>ac_tools := Some (register_all quoted
     [\<lparr>cl_definition = cl_definition example_tool, cl_validate = \<lambda>_. (True, []),
       cl_call = \<lambda>_ _ (hr, n, k). ((hr, n, Suc k), Inr (text_result ''ok''))\<rparr>] tool_registry_new)\<rparr>"

lemma tool_get_empty: "tool_get n tool_registry_new = None"
  by (simp add: tool_get_def tool_registry_new_def)

lemma counting_bounded: "bounded_effects 1 1 (\<lambda>(_, n, k). n + k) example_env counting_config"
  unfolding bounded_effects_def bounded_timeout_def bounded_tools_def
  by (auto simp: example_env_def counting_config_def agent_config_default_def register_all_get tool_get_empty split_beta split: if_splits)
    (simp_all add: tool_registry_new_def)

theorem agent_run_within_budgets_witness:
  "(\<lambda>(_, n, k). n + k) (rs_world (fst (agent_run example_env counting_config [UserMsg [TextPart ''hi'']] (hook_registry_new, 0, 0)))) \<le> 60"
  using agent_run_within_budgets [OF counting_bounded, of "[UserMsg [TextPart ''hi'']]" "(hook_registry_new, 0, 0)"]
  by (simp add: counting_config_def agent_config_default_def)

section \<open>What a memory keeps\<close>

definition newest :: "nat \<Rightarrow> 'a list \<Rightarrow> 'a list" where
  "newest n xs = drop (length xs - n) xs"

lemma newest_append: "newest n (newest n xs @ ys) = newest n (xs @ ys)"
proof (cases "length xs \<le> n")
  case False
  then have "length xs + length ys - n = length ys + (length xs - n)" by simp
  then have "newest n (xs @ ys) = drop (length ys) (drop (length xs - n) (xs @ ys))"
    by (simp only: newest_def length_append drop_drop)
  then show ?thesis using False by (simp add: newest_def)
qed (simp add: newest_def)

lemma newest_subset: "set (newest n xs) \<subseteq> set xs"
  by (simp add: newest_def set_drop_subset)

lemma newest_Nil: "0 < n \<Longrightarrow> xs \<noteq> [] \<Longrightarrow> newest n xs \<noteq> []"
  by (cases xs) (auto simp: newest_def)

lemma window_trim_system: "window_trim n (SystemMsg s # ms) = SystemMsg s # newest n ms"
  by (auto simp: window_trim_def newest_def leading_system_def is_system_def Let_def)

lemma window_trim_plain: "\<not> leading_system ms \<Longrightarrow> window_trim n ms = newest n ms"
  by (simp add: window_trim_def newest_def)

text \<open>
  Appending in steps is the same as trimming the whole history once, if no instruction but the first message is one: the window
  never loses a message that belongs to it.
\<close>

lemma window_trim_append:
  assumes "0 < n" "ms \<noteq> []" "\<forall>m\<in>set (tl ms). \<not> is_system m"
  shows "window_trim n (window_trim n ms @ ms') = window_trim n (ms @ ms')"
proof (cases "leading_system ms")
  case True
  then obtain s r where "ms = SystemMsg s # r" by (auto simp: leading_system_def is_system_def split: list.splits chat_message.splits)
  then show ?thesis by (simp add: window_trim_system newest_append)
next
  case False
  then have "\<forall>m\<in>set ms. \<not> is_system m" using assms(2,3) by (cases ms) (auto simp: leading_system_def)
  then have plain: "\<forall>m\<in>set (newest n ms). \<not> is_system m" using newest_subset by fastforce
  then have "\<not> leading_system (newest n ms @ ms')" "\<not> leading_system (ms @ ms')"
    using newest_Nil [OF assms(1,2)] False assms(2) by (cases "newest n ms"; cases ms; simp add: leading_system_def)+
  then show ?thesis using False by (simp add: window_trim_plain newest_append)
qed

lemma window_append_history:
  assumes "0 < n" "ms \<noteq> []" "\<forall>m\<in>set (tl ms). \<not> is_system m" "memory_load session store = window_trim n ms"
  shows "memory_load session (window_append n session ms' store) = window_trim n (ms @ ms')"
    and "other \<noteq> session \<Longrightarrow> memory_load other (window_append n session ms' store) = memory_load other store"
  using window_trim_append [OF assms(1-3), of ms'] assms(4)
  by (simp_all add: window_append_def memory_load_def memory_save_def memory_append_def Let_def)

end
