(* ===== verification/Bootstrap.thy ===== *)
theory Bootstrap
  imports Registry Di_Container
begin

text \<open>
  The application of \<^verbatim>\<open>core/rskit-bootstrap/src\<close>: builder, start with rollback, stop and finite tasks
  (\<^verbatim>\<open>app.rs\<close>), the dispatch of lifecycle hooks (\<^verbatim>\<open>lifecycle.rs\<close>) and the
  published phases (\<^verbatim>\<open>hooks.rs\<close>), over the component registry and the dependency container. Hooks are injected
  code that acts on a world; a log records, in one order, what the application publishes, runs, calls and closes. What a hook
  registers in the container while the application runs is not followed.
\<close>

section \<open>Phases and hooks\<close>

datatype lifecycle_phase = Configure | BeforeStart | AfterStart | Ready | BeforeStop | AfterStop

fun phase_label :: "lifecycle_phase \<Rightarrow> string" where
  "phase_label Configure = ''configure''"
| "phase_label BeforeStart = ''before_start''"
| "phase_label AfterStart = ''after_start''"
| "phase_label Ready = ''ready''"
| "phase_label BeforeStop = ''before_stop''"
| "phase_label AfterStop = ''after_stop''"

definition phase_event :: "lifecycle_phase \<Rightarrow> string" where
  "phase_event phase = ''bootstrap:'' @ phase_label phase"

definition fail_when_cancelled :: "lifecycle_phase \<Rightarrow> bool" where
  "fail_when_cancelled phase \<longleftrightarrow> phase \<in> {Configure, BeforeStart, AfterStart, Ready}"

datatype app_action =
    Published lifecycle_phase
  | HookRun lifecycle_phase nat
  | ComponentCall lifecycle_call
  | ContainerClosed

type_synonym 'w async_hook = "'w \<Rightarrow> 'w \<times> unit app_result"

record 'w lifecycle_hooks =
  lh_configure :: "'w async_hook list"
  lh_before_start :: "'w async_hook list"
  lh_after_start :: "'w async_hook list"
  lh_ready :: "'w async_hook list"
  lh_before_stop :: "'w async_hook list"
  lh_after_stop :: "'w async_hook list"

fun hooks_of :: "'w lifecycle_hooks \<Rightarrow> lifecycle_phase \<Rightarrow> 'w async_hook list" where
  "hooks_of h Configure = lh_configure h"
| "hooks_of h BeforeStart = lh_before_start h"
| "hooks_of h AfterStart = lh_after_start h"
| "hooks_of h Ready = lh_ready h"
| "hooks_of h BeforeStop = lh_before_stop h"
| "hooks_of h AfterStop = lh_after_stop h"

text \<open>\<open>cancelled\<close> reads the shutdown token; \<open>i\<close> counts the hooks of the phase.\<close>

fun hook_loop ::
    "('w \<Rightarrow> bool) \<Rightarrow> lifecycle_phase \<Rightarrow> 'w async_hook list \<Rightarrow> nat \<Rightarrow> app_action list \<times> 'w \<Rightarrow> (app_action list \<times> 'w) \<times> unit app_result" where
  "hook_loop cancelled phase [] i st = (st, Inr ())"
| "hook_loop cancelled phase (hook # hooks) i (log, w) =
     (if fail_when_cancelled phase \<and> cancelled w then
        ((log, w), Inl (app_error_new Cancelled (phase_label phase @ '' hook dispatch cancelled'')))
      else
        case hook w of
          (w1, Inl e) \<Rightarrow> ((log @ [HookRun phase i], w1), Inl (context_msg (phase_label phase @ '' hook failed'') e))
        | (w1, Inr _) \<Rightarrow> hook_loop cancelled phase hooks (Suc i) (log @ [HookRun phase i], w1))"

definition run_hooks ::
    "('w \<Rightarrow> bool) \<Rightarrow> lifecycle_phase \<Rightarrow> 'w async_hook list \<Rightarrow> app_action list \<times> 'w \<Rightarrow> (app_action list \<times> 'w) \<times> unit app_result" where
  "run_hooks cancelled phase hooks st = (case st of (log, w) \<Rightarrow> hook_loop cancelled phase hooks 0 (log @ [Published phase], w))"

definition record_stop_error :: "app_error option \<Rightarrow> app_error \<Rightarrow> string \<Rightarrow> app_error option" where
  "record_stop_error stop_error error context =
     (case stop_error of
        Some existing \<Rightarrow> Some (context_msg (context @ '': '' @ app_error_display error) existing)
      | None \<Rightarrow> Some error)"

section \<open>The application\<close>

record ('v, 'w) app =
  ap_registry :: reg
  ap_container :: "'v container"
  ap_hooks :: "'w lifecycle_hooks"
  ap_graceful_timeout :: duration

text \<open>
  What an application relies on: the shutdown token, the outcomes of the components' calls and what these do to the world, their
  health, the values of the container, and the timer of the graceful stop, which runs over the hooks only.
\<close>

record ('v, 'w) app_env =
  ae_cancelled :: "'w \<Rightarrow> bool"
  ae_lifecycle :: "'w \<Rightarrow> lifecycle_env"
  ae_called :: "lifecycle_call list \<Rightarrow> 'w \<Rightarrow> 'w"
  ae_health :: "'w \<Rightarrow> nat \<Rightarrow> health"
  ae_close :: "'v arc_any \<Rightarrow> 'w \<Rightarrow> 'w \<times> unit app_result"
  ae_cells :: "'w \<Rightarrow> 'v cells"
  ae_timeout :: "duration \<Rightarrow> (app_action list \<times> 'w \<Rightarrow> (app_action list \<times> 'w) \<times> unit app_result) \<Rightarrow> app_action list \<times> 'w \<Rightarrow>
     (app_action list \<times> 'w) \<times> unit app_result option"

record ('v, 'w) app_builder =
  bd_config_error :: "string option"
  bd_graceful_timeout :: duration
  bd_components :: "string list"
  bd_container :: "'v container"
  bd_hooks :: "'w lifecycle_hooks"

definition app_builder_new :: "string option \<Rightarrow> ('v, 'w) app_builder" where
  "app_builder_new config_error =
     \<lparr>bd_config_error = config_error, bd_graceful_timeout = 30 * 1000000000, bd_components = [], bd_container = container_new,
      bd_hooks = \<lparr>lh_configure = [], lh_before_start = [], lh_after_start = [], lh_ready = [], lh_before_stop = [], lh_after_stop = []\<rparr>\<rparr>"

definition with_graceful_timeout :: "duration \<Rightarrow> ('v, 'w) app_builder \<Rightarrow> ('v, 'w) app_builder" where
  "with_graceful_timeout d b = b\<lparr>bd_graceful_timeout := d\<rparr>"

definition with_component :: "string \<Rightarrow> ('v, 'w) app_builder \<Rightarrow> ('v, 'w) app_builder" where
  "with_component name b = b\<lparr>bd_components := bd_components b @ [name]\<rparr>"

definition with_container :: "'v container \<Rightarrow> ('v, 'w) app_builder \<Rightarrow> ('v, 'w) app_builder" where
  "with_container c b = b\<lparr>bd_container := c\<rparr>"

definition with_dependency :: "'v arc_any \<Rightarrow> ('v, 'w) app_builder \<Rightarrow> ('v, 'w) app_builder" where
  "with_dependency v b = b\<lparr>bd_container := register_keyed (any_type v, None) v (bd_container b)\<rparr>"

fun add_hook :: "lifecycle_phase \<Rightarrow> 'w async_hook \<Rightarrow> 'w lifecycle_hooks \<Rightarrow> 'w lifecycle_hooks" where
  "add_hook Configure hook h = h\<lparr>lh_configure := lh_configure h @ [hook]\<rparr>"
| "add_hook BeforeStart hook h = h\<lparr>lh_before_start := lh_before_start h @ [hook]\<rparr>"
| "add_hook AfterStart hook h = h\<lparr>lh_after_start := lh_after_start h @ [hook]\<rparr>"
| "add_hook Ready hook h = h\<lparr>lh_ready := lh_ready h @ [hook]\<rparr>"
| "add_hook BeforeStop hook h = h\<lparr>lh_before_stop := lh_before_stop h @ [hook]\<rparr>"
| "add_hook AfterStop hook h = h\<lparr>lh_after_stop := lh_after_stop h @ [hook]\<rparr>"

definition with_hook :: "lifecycle_phase \<Rightarrow> 'w async_hook \<Rightarrow> ('v, 'w) app_builder \<Rightarrow> ('v, 'w) app_builder" where
  "with_hook phase hook b = b\<lparr>bd_hooks := add_hook phase hook (bd_hooks b)\<rparr>"

definition app_build :: "('v, 'w) app_builder \<Rightarrow> ('v, 'w) app app_result" where
  "app_build b =
     (case bd_config_error b of
        Some error \<Rightarrow> Inl (invalid_input ''config'' error)
      | None \<Rightarrow>
          Inr \<lparr>ap_registry = (foldl (\<lambda>es name. register name es) [] (bd_components b), []), ap_container = bd_container b,
               ap_hooks = bd_hooks b, ap_graceful_timeout = bd_graceful_timeout b\<rparr>)"

text \<open>Hooks may be added to a built application too.\<close>

definition app_with_hook :: "lifecycle_phase \<Rightarrow> 'w async_hook \<Rightarrow> ('v, 'w) app \<Rightarrow> ('v, 'w) app" where
  "app_with_hook phase hook ap = ap\<lparr>ap_hooks := add_hook phase hook (ap_hooks ap)\<rparr>"

section \<open>Start\<close>

type_synonym ('v, 'w) app_state = "('v, 'w) app \<times> app_action list \<times> 'w"

definition app_hooks ::
    "('v, 'w) app_env \<Rightarrow> lifecycle_phase \<Rightarrow> ('v, 'w) app_state \<Rightarrow> ('v, 'w) app_state \<times> unit app_result" where
  "app_hooks env phase st =
     (case st of (ap, lw) \<Rightarrow>
       case run_hooks (ae_cancelled env) phase (hooks_of (ap_hooks ap) phase) lw of (lw', r) \<Rightarrow> ((ap, lw'), r))"

text \<open>A call of the registry, with the calls that it makes in the log.\<close>

definition on_registry ::
    "(lifecycle_env \<Rightarrow> reg \<Rightarrow> reg \<times> 'a) \<Rightarrow> ('v, 'w) app_env \<Rightarrow> ('v, 'w) app_state \<Rightarrow> ('v, 'w) app_state \<times> 'a" where
  "on_registry f env st =
     (case st of (ap, log, w) \<Rightarrow>
       case f (ae_lifecycle env w) (ap_registry ap) of
         (reg', r) \<Rightarrow>
           let made = drop (length (snd (ap_registry ap))) (snd reg')
           in ((ap\<lparr>ap_registry := reg'\<rparr>, log @ map ComponentCall made, ae_called env made w), r))"

definition health_text :: "health \<Rightarrow> string" where
  "health_text h =
     (case h_message h of
        Some message \<Rightarrow> h_name h @ ''='' @ health_status_display (h_status h) @ ''('' @ message @ '')''
      | None \<Rightarrow> h_name h @ ''='' @ health_status_display (h_status h))"

definition ready_check :: "('v, 'w) app_env \<Rightarrow> ('v, 'w) app_state \<Rightarrow> unit app_result" where
  "ready_check env st =
     (case st of (ap, log, w) \<Rightarrow>
       let unhealthy = map health_text (filter (\<lambda>h. \<not> is_healthy h) (health_all (ae_health env w) [0..<length (fst (ap_registry ap))]))
       in if unhealthy = [] then Inr ()
          else Inl (service_unavailable (''unhealthy components: '' @ join '', '' unhealthy)))"

definition rollback_startup_failure ::
    "('v, 'w) app_env \<Rightarrow> app_error \<Rightarrow> bool \<Rightarrow> ('v, 'w) app_state \<Rightarrow> ('v, 'w) app_state \<times> app_error" where
  "rollback_startup_failure env error stop_components st =
     (case app_hooks env BeforeStop st of
        (st1, r) \<Rightarrow>
          let error1 = (case r of
                Inl stop_hook_error \<Rightarrow>
                  context_msg (''startup rollback before_stop hooks failed: '' @ app_error_display stop_hook_error) error
              | Inr _ \<Rightarrow> error)
          in if stop_components then
               (case on_registry stop_all env st1 of
                  (st2, Inl stop_error) \<Rightarrow>
                    (st2, context_msg (''startup rollback component stop failed: '' @ app_error_display stop_error) error1)
                | (st2, Inr _) \<Rightarrow> (st2, error1))
             else (st1, error1))"

definition fail_start ::
    "('v, 'w) app_env \<Rightarrow> string \<Rightarrow> app_error \<Rightarrow> bool \<Rightarrow> ('v, 'w) app_state \<Rightarrow> ('v, 'w) app_state \<times> unit app_result" where
  "fail_start env what error stop_components st =
     (case rollback_startup_failure env (context_msg what error) stop_components st of (st', e) \<Rightarrow> (st', Inl e))"

text \<open>The part of \<^verbatim>\<open>start\<close> once the components run.\<close>

definition complete_start :: "('v, 'w) app_env \<Rightarrow> ('v, 'w) app_state \<Rightarrow> ('v, 'w) app_state \<times> unit app_result" where
  "complete_start env st =
     (case ready_check env st of
        Inl e \<Rightarrow> fail_start env ''component readiness failed'' e True st
      | Inr _ \<Rightarrow>
     (case app_hooks env AfterStart st of
        (st1, Inl e) \<Rightarrow> fail_start env ''after_start hooks failed'' e True st1
      | (st1, Inr _) \<Rightarrow>
     (case app_hooks env Ready st1 of
        (st2, Inl e) \<Rightarrow> fail_start env ''ready hooks failed'' e True st2
      | (st2, Inr _) \<Rightarrow> (st2, Inr ()))))"

definition app_start :: "('v, 'w) app_env \<Rightarrow> ('v, 'w) app_state \<Rightarrow> ('v, 'w) app_state \<times> unit app_result" where
  "app_start env st =
     (case app_hooks env Configure st of
        (st1, Inl e) \<Rightarrow> (st1, Inl e)
      | (st1, Inr _) \<Rightarrow>
     (case app_hooks env BeforeStart st1 of
        (st2, Inl e) \<Rightarrow> (st2, Inl e)
      | (st2, Inr _) \<Rightarrow>
     (case on_registry start_all env st2 of
        (st3, Inl e) \<Rightarrow> fail_start env ''component startup failed'' e False st3
      | (st3, Inr _) \<Rightarrow> complete_start env st3)))"

section \<open>Stop\<close>

definition graceful_hooks :: "('v, 'w) app_env \<Rightarrow> ('v, 'w) app_state \<Rightarrow> ('v, 'w) app_state \<times> app_error option" where
  "graceful_hooks env st =
     (case st of (ap, lw) \<Rightarrow>
       case ae_timeout env (ap_graceful_timeout ap) (run_hooks (ae_cancelled env) BeforeStop (lh_before_stop (ap_hooks ap))) lw of
         (lw', Some (Inr _)) \<Rightarrow> ((ap, lw'), None)
       | (lw', Some (Inl error)) \<Rightarrow> ((ap, lw'), Some error)
       | (lw', None) \<Rightarrow>
           ((ap, lw'), Some (app_error_new Timeout ''graceful shutdown timeout elapsed during before_stop hooks'')))"

definition note_stop_error :: "unit app_result \<Rightarrow> string \<Rightarrow> app_error option \<Rightarrow> app_error option" where
  "note_stop_error r context stop_error =
     (case r of Inl error \<Rightarrow> record_stop_error stop_error error context | Inr _ \<Rightarrow> stop_error)"

definition close_container :: "('v, 'w) app_env \<Rightarrow> ('v, 'w) app_state \<Rightarrow> ('v, 'w) app_state \<times> unit app_result" where
  "close_container env st =
     (case st of (ap, log, w) \<Rightarrow>
       case container_close (ae_close env) (ae_cells env w) (ap_container ap, w) of
         ((c', w'), r) \<Rightarrow> ((ap\<lparr>ap_container := c'\<rparr>, log @ [ContainerClosed], w'), r))"

definition app_stop :: "('v, 'w) app_env \<Rightarrow> ('v, 'w) app_state \<Rightarrow> ('v, 'w) app_state \<times> unit app_result" where
  "app_stop env st =
     (case graceful_hooks env st of (st1, error1) \<Rightarrow>
      case on_registry stop_all env st1 of (st2, r2) \<Rightarrow>
      let error2 = note_stop_error r2 ''component shutdown failed'' error1 in
      case app_hooks env AfterStop st2 of (st3, r3) \<Rightarrow>
      let error3 = note_stop_error r3 ''after_stop hooks failed'' error2 in
      case close_container env st3 of (st4, r4) \<Rightarrow>
      let error4 = note_stop_error r4 ''container close failed'' error3 in
      (st4, case error4 of Some error \<Rightarrow> Inl error | None \<Rightarrow> Inr ()))"

section \<open>Whole runs\<close>

definition combine_results :: "unit app_result \<Rightarrow> unit app_result \<Rightarrow> unit app_result" where
  "combine_results task_result stop_result =
     (case (task_result, stop_result) of
        (Inr _, Inr _) \<Rightarrow> Inr ()
      | (Inr _, Inl stop_error) \<Rightarrow> Inl stop_error
      | (Inl err, Inr _) \<Rightarrow> Inl err
      | (Inl err, Inl stop_error) \<Rightarrow>
          Inl (with_detail ''shutdown_error'' (JString (app_error_display stop_error))
                (context_msg ''application shutdown also failed after task error'' err)))"

text \<open>\<open>task\<close> is the task in its race with the shutdown signal: a run that the signal ends counts as a success.\<close>

definition run_task ::
    "('v, 'w) app_env \<Rightarrow> ('w \<Rightarrow> 'w \<times> unit app_result) \<Rightarrow> ('v, 'w) app_state \<Rightarrow> ('v, 'w) app_state \<times> unit app_result" where
  "run_task env task st =
     (case app_start env st of
        (st1, Inl e) \<Rightarrow> (st1, Inl e)
      | ((ap, log, w), Inr _) \<Rightarrow>
          (case task w of (w1, r) \<Rightarrow>
            (case app_stop env (ap, log, w1) of (st2, stop_result) \<Rightarrow> (st2, combine_results r stop_result))))"

text \<open>A service waits for the signal, \<open>wait\<close>, and then stops.\<close>

definition app_run :: "('v, 'w) app_env \<Rightarrow> ('w \<Rightarrow> 'w) \<Rightarrow> ('v, 'w) app_state \<Rightarrow> ('v, 'w) app_state \<times> unit app_result" where
  "app_run env wait st =
     (case app_start env st of
        (st1, Inl e) \<Rightarrow> (st1, Inl e)
      | ((ap, log, w), Inr _) \<Rightarrow> app_stop env (ap, log, wait w))"

section \<open>Logs\<close>

text \<open>The log of a phase of which the first \<open>k\<close> hooks ran, and of a complete one.\<close>

definition phase_log :: "lifecycle_phase \<Rightarrow> nat \<Rightarrow> app_action list" where
  "phase_log phase k = Published phase # map (HookRun phase) [0..<k]"

definition full_phase :: "('v, 'w) app \<Rightarrow> lifecycle_phase \<Rightarrow> app_action list" where
  "full_phase ap phase = phase_log phase (length (hooks_of (ap_hooks ap) phase))"

lemma hook_loop_log:
  "hook_loop cancelled phase hooks i st = (st', r) \<Longrightarrow>
     \<exists>k\<le>length hooks. fst st' = fst st @ map (HookRun phase) [i..<i + k] \<and> (is_ok r \<longrightarrow> k = length hooks)"
proof (induction cancelled phase hooks i st arbitrary: st' r rule: hook_loop.induct)
  case (2 cancelled phase hook hooks i log w)
  show ?case
  proof (cases "fail_when_cancelled phase \<and> cancelled w")
    case True
    with 2 show ?thesis by (auto intro!: exI [of _ 0])
  next
    case go: False
    show ?thesis
    proof (cases "hook w")
      case (Pair w1 res)
      show ?thesis
      proof (cases res)
        case (Inl e)
        with Pair 2 go show ?thesis by (auto intro!: exI [of _ 1])
      next
        case (Inr u)
        from 2(1) [OF go Pair [symmetric] Inr] 2(2) Pair Inr go obtain k where
          "k \<le> length hooks" "fst st' = (log @ [HookRun phase i]) @ map (HookRun phase) [Suc i..<Suc i + k]" "is_ok r \<longrightarrow> k = length hooks"
          by auto
        then show ?thesis by (intro exI [of _ "Suc k"]) (auto simp: upt_conv_Cons simp del: upt_Suc)
      qed
    qed
  qed
qed (auto intro!: exI [of _ 0])

lemma run_hooks_log:
  assumes "run_hooks cancelled phase hooks (log, w) = ((log', w'), r)"
  shows "\<exists>k\<le>length hooks. log' = log @ phase_log phase k \<and> (is_ok r \<longrightarrow> k = length hooks)"
  using hook_loop_log [of cancelled phase hooks 0 "(log @ [Published phase], w)" "(log', w')" r] assms
  by (auto simp: run_hooks_def phase_log_def)

lemma app_hooks_log:
  assumes "app_hooks env phase (ap, log, w) = (st', r)"
  obtains k w' where "st' = (ap, log @ phase_log phase k, w')" "is_ok r \<longrightarrow> phase_log phase k = full_phase ap phase"
proof -
  obtain log' w' where "run_hooks (ae_cancelled env) phase (hooks_of (ap_hooks ap) phase) (log, w) = ((log', w'), r)" "st' = (ap, log', w')"
    using assms by (auto simp: app_hooks_def split: prod.splits)
  with run_hooks_log [OF this(1)] that show ?thesis by (auto simp: full_phase_def)
qed

text \<open>
  The hooks of a stop phase, which no cancellation cuts short: they are called in turn up to the first that fails. \<open>hooks_run\<close>
  counts them, from the world in which the phase begins.
\<close>

fun hooks_run :: "'w async_hook list \<Rightarrow> 'w \<Rightarrow> nat" where
  "hooks_run [] w = 0"
| "hooks_run (hook # hooks) w = (case hook w of (w1, Inl _) \<Rightarrow> 1 | (w1, Inr _) \<Rightarrow> Suc (hooks_run hooks w1))"

lemma stop_hook_loop_log:
  assumes "\<not> fail_when_cancelled phase" and "hook_loop cancelled phase hooks i (log, w) = ((log', w'), r)"
  shows "log' = log @ map (HookRun phase) [i..<i + hooks_run hooks w] \<and> (is_ok r \<longrightarrow> hooks_run hooks w = length hooks)"
  using assms(2)
proof (induction hooks arbitrary: i log w)
  case (Cons hook hooks)
  obtain w1 res where called: "hook w = (w1, res)" by fastforce
  show ?case
  proof (cases res)
    case (Inl e)
    with Cons.prems called assms(1) show ?thesis by auto
  next
    case (Inr u)
    with Cons.prems called assms(1) have "hook_loop cancelled phase hooks (Suc i) (log @ [HookRun phase i], w1) = ((log', w'), r)" by simp
    from Cons.IH [OF this] called Inr show ?thesis by (auto simp: upt_conv_Cons simp del: upt_Suc)
  qed
qed simp

lemma app_stop_hooks_log:
  assumes "\<not> fail_when_cancelled phase" and "app_hooks env phase (ap, log, w) = (st', r)"
  obtains w' where "st' = (ap, log @ phase_log phase (hooks_run (hooks_of (ap_hooks ap) phase) w), w')"
    "is_ok r \<longrightarrow> hooks_run (hooks_of (ap_hooks ap) phase) w = length (hooks_of (ap_hooks ap) phase)"
proof -
  obtain log' w' where "hook_loop (ae_cancelled env) phase (hooks_of (ap_hooks ap) phase) 0 (log @ [Published phase], w) = ((log', w'), r)"
      "st' = (ap, log', w')"
    using assms(2) by (auto simp: app_hooks_def run_hooks_def split: prod.splits)
  with stop_hook_loop_log [OF assms(1) this(1)] that show ?thesis by (auto simp: phase_log_def)
qed

lemma phase_log_open [simp]: "ContainerClosed \<notin> set (phase_log phase k)" "ComponentCall c \<notin> set (phase_log phase k)"
  by (auto simp: phase_log_def)

abbreviation app_running :: "('v, 'w) app \<Rightarrow> bool" where
  "app_running ap \<equiv> \<exists>e\<in>set (fst (ap_registry ap)). e_state e = Running"

abbreviation app_all_running :: "('v, 'w) app \<Rightarrow> bool" where
  "app_all_running ap \<equiv> \<forall>e\<in>set (fst (ap_registry ap)). e_state e = Running"

definition fresh_app :: "('v, 'w) app \<Rightarrow> bool" where
  "fresh_app ap \<longleftrightarrow> distinct (map e_name (fst (ap_registry ap))) \<and> (\<forall>e\<in>set (fst (ap_registry ap)). e_state e = Created)"

lemma foldl_register: "foldl (\<lambda>es name. register name es) es names = es @ map (\<lambda>n. \<lparr>e_name = n, e_state = Created\<rparr>) names"
  by (induction names arbitrary: es) (auto simp: register_def)

lemma app_build_fresh:
  assumes "app_build b = Inr ap" "distinct (bd_components b)"
  shows "fresh_app ap" "map e_name (fst (ap_registry ap)) = bd_components b"
  using assms by (auto simp: app_build_def fresh_app_def foldl_register comp_def split: option.splits)

text \<open>The calls of the registry in the log.\<close>

lemma start_all_app:
  assumes "fresh_app ap" and "on_registry start_all env (ap, log, w) = (st', r)"
  obtains ap' calls w' where "st' = (ap', log @ map ComponentCall calls, w')"
    "ap_container ap' = ap_container ap" "ap_hooks ap' = ap_hooks ap" "length (fst (ap_registry ap')) = length (fst (ap_registry ap))"
    "is_ok r \<longrightarrow> app_all_running ap' \<and> calls = map StartCall [0..<length (fst (ap_registry ap))]"
    "\<not> is_ok r \<longrightarrow> \<not> app_running ap'"
proof -
  obtain es h where reg: "ap_registry ap = (es, h)" by fastforce
  obtain es' h' where start: "start_all (ae_lifecycle env w) (es, h) = ((es', h'), r)"
      "st' = (ap\<lparr>ap_registry := (es', h')\<rparr>, log @ map ComponentCall (drop (length h) h'), ae_called env (drop (length h) h') w)"
    using assms(2) reg by (auto simp: on_registry_def Let_def split: prod.splits)
  have fresh: "distinct (map e_name es)" "\<forall>i<length es. state_at es i = Created" using assms(1) reg by (auto simp: fresh_app_def)
  then have "settled es" by (auto simp: settled_def in_set_conv_nth)
  note spec = start_all_spec [OF fresh(1) this start(1)]
  have "startable es i" if "i < length es" for i using fresh(2) that by simp
  then have all: "filter (startable es) [0..<length es] = [0..<length es]" by (auto intro: filter_True)
  show ?thesis
  proof (rule that [OF start(2)])
    show "is_ok r \<longrightarrow> app_all_running (ap\<lparr>ap_registry := (es', h')\<rparr>) \<and> drop (length h) h' = map StartCall [0..<length (fst (ap_registry ap))]"
      using spec all reg by (cases r) (auto simp: all_started_def in_set_conv_nth)
    show "\<not> is_ok r \<longrightarrow> \<not> app_running (ap\<lparr>ap_registry := (es', h')\<rparr>)"
    proof
      assume failed: "\<not> is_ok r"
      obtain j where roll: "rolled_back es h j es' h'" using spec failed by (cases r) auto
      have "state_at es' i \<noteq> Running" if i: "i < length es" for i
      proof (cases "i = j \<or> i < j \<and> startable es i")
        case True
        then have "state_at es' i = Failed \<or> state_at es' i \<in> {Stopped, Failed}" using roll unfolding rolled_back_def by blast
        then show ?thesis by auto
      next
        case False
        then have "es' ! i = es ! i" using roll i unfolding rolled_back_def by blast
        then show ?thesis using fresh(2) i by simp
      qed
      then show "\<not> app_running (ap\<lparr>ap_registry := (es', h')\<rparr>)" using roll by (auto simp: rolled_back_def in_set_conv_nth)
    qed
    show "length (fst (ap_registry (ap\<lparr>ap_registry := (es', h')\<rparr>))) = length (fst (ap_registry ap))"
      using spec reg by (cases r) (auto simp: all_started_def rolled_back_def)
  qed auto
qed

lemma stop_all_app:
  assumes "on_registry stop_all env (ap, log, w) = (st', r)"
  obtains ap' w' where "st' = (ap', log @ map (ComponentCall \<circ> StopCall)
      (rev (filter (\<lambda>i. state_at (fst (ap_registry ap)) i = Running) [0..<length (fst (ap_registry ap))])), w')"
    "ap_container ap' = ap_container ap" "ap_hooks ap' = ap_hooks ap" "length (fst (ap_registry ap')) = length (fst (ap_registry ap))"
    "\<not> app_running ap'"
proof -
  obtain es h where reg: "ap_registry ap = (es, h)" by fastforce
  obtain es' h' where stop: "stop_all (ae_lifecycle env w) (es, h) = ((es', h'), r)"
      "st' = (ap\<lparr>ap_registry := (es', h')\<rparr>, log @ map ComponentCall (drop (length h) h'), ae_called env (drop (length h) h') w)"
    using assms reg by (auto simp: on_registry_def Let_def split: prod.splits)
  note spec = stop_all_spec [OF stop(1)]
  show ?thesis
    by (rule that [of "ap\<lparr>ap_registry := (es', h')\<rparr>" "ae_called env (drop (length h) h') w"]) (use spec stop(2) reg in \<open>auto simp: in_set_conv_nth\<close>)
qed

section \<open>Startup is all or nothing\<close>

definition startup_log :: "('v, 'w) app \<Rightarrow> app_action list" where
  "startup_log ap =
     full_phase ap Configure @ full_phase ap BeforeStart @
     map (ComponentCall \<circ> StartCall) [0..<length (fst (ap_registry ap))] @
     full_phase ap AfterStart @ full_phase ap Ready"

lemma full_phase_hooks: "ap_hooks ap' = ap_hooks ap \<Longrightarrow> full_phase ap' = full_phase ap"
  by (simp add: full_phase_def fun_eq_iff)

text \<open>A failed start leaves no component running and the container as it is.\<close>

definition start_failed :: "('v, 'w) app \<Rightarrow> app_action list \<Rightarrow> ('v, 'w) app_state \<Rightarrow> bool" where
  "start_failed ap log st \<longleftrightarrow>
     (case st of (ap', log', _) \<Rightarrow>
       \<not> app_running ap' \<and> ap_container ap' = ap_container ap \<and> (\<exists>new. log' = log @ new \<and> ContainerClosed \<notin> set new))"

lemma fail_start_failed:
  assumes "fail_start env what error stop (ap, log, w) = (st', r)" and "stop \<or> \<not> app_running ap"
  shows "\<not> is_ok r \<and> start_failed ap log st'"
proof -
  obtain st1 r1 where hooks: "app_hooks env BeforeStop (ap, log, w) = (st1, r1)" by fastforce
  then obtain k w1 where st1: "st1 = (ap, log @ phase_log BeforeStop k, w1)" by (rule app_hooks_log)
  show ?thesis
  proof (cases stop)
    case True
    obtain st2 r2 where stopped: "on_registry stop_all env st1 = (st2, r2)" by fastforce
    with st1 obtain ap2 calls w2 where st2: "st2 = (ap2, (log @ phase_log BeforeStop k) @ map (ComponentCall \<circ> StopCall) calls, w2)"
        "ap_container ap2 = ap_container ap" "\<not> app_running ap2"
      using stop_all_app [of env ap "log @ phase_log BeforeStop k" w1 st2 r2] by metis
    then have "start_failed ap log st2" by (auto simp: start_failed_def)
    then show ?thesis using assms(1) hooks stopped True
      by (auto simp: fail_start_def rollback_startup_failure_def Let_def split: prod.splits sum.splits)
  next
    case False
    with st1 assms(2) have "start_failed ap log st1" by (auto simp: start_failed_def)
    then show ?thesis using assms(1) hooks False
      by (auto simp: fail_start_def rollback_startup_failure_def Let_def split: prod.splits)
  qed
qed

lemma start_failed_extend:
  "start_failed ap' (log @ new) st \<Longrightarrow> ap_container ap' = ap_container ap \<Longrightarrow> ContainerClosed \<notin> set new \<Longrightarrow> start_failed ap log st"
  by (auto simp: start_failed_def split: prod.splits)

definition started_app :: "('v, 'w) app \<Rightarrow> ('v, 'w) app \<Rightarrow> bool" where
  "started_app ap ap' \<longleftrightarrow> app_all_running ap' \<and> ap_container ap' = ap_container ap \<and> ap_hooks ap' = ap_hooks ap \<and>
     length (fst (ap_registry ap')) = length (fst (ap_registry ap))"

lemma complete_start_spec:
  assumes "complete_start env (ap, log, w) = (st', r)"
  shows "if is_ok r then \<exists>w'. st' = (ap, log @ full_phase ap AfterStart @ full_phase ap Ready, w') else start_failed ap log st'"
proof (cases "ready_check env (ap, log, w)")
  case (Inl e)
  then show ?thesis using assms fail_start_failed [of env _ e True ap log w st' r] by (simp add: complete_start_def)
next
  case ready: (Inr u)
  obtain st1 r1 where h1: "app_hooks env AfterStart (ap, log, w) = (st1, r1)" by fastforce
  then obtain k1 w1 where st1: "st1 = (ap, log @ phase_log AfterStart k1, w1)" "is_ok r1 \<longrightarrow> phase_log AfterStart k1 = full_phase ap AfterStart"
    by (rule app_hooks_log)
  show ?thesis
  proof (cases r1)
    case (Inl e)
    then have "\<not> is_ok r \<and> start_failed ap (log @ phase_log AfterStart k1) st'"
      using assms ready h1 st1(1) fail_start_failed [of env _ e True ap "log @ phase_log AfterStart k1" w1 st' r]
      by (simp add: complete_start_def)
    then show ?thesis using start_failed_extend [of ap log "phase_log AfterStart k1" st' ap] by simp
  next
    case r1: (Inr u1)
    obtain st2 r2 where h2: "app_hooks env Ready st1 = (st2, r2)" by fastforce
    then obtain k2 w2 where st2: "st2 = (ap, (log @ phase_log AfterStart k1) @ phase_log Ready k2, w2)"
        "is_ok r2 \<longrightarrow> phase_log Ready k2 = full_phase ap Ready"
      unfolding st1(1) by (rule app_hooks_log)
    show ?thesis
    proof (cases r2)
      case (Inl e)
      then have "\<not> is_ok r \<and> start_failed ap (log @ phase_log AfterStart k1 @ phase_log Ready k2) st'"
        using assms ready h1 h2 r1 st2(1) fail_start_failed [of env _ e True ap "log @ phase_log AfterStart k1 @ phase_log Ready k2" w2 st' r]
        by (simp add: complete_start_def)
      then show ?thesis using start_failed_extend [of ap log "phase_log AfterStart k1 @ phase_log Ready k2" st' ap] by simp
    next
      case (Inr u2)
      then have "st' = st2" "r = Inr ()" using assms ready h1 h2 r1 by (simp_all add: complete_start_def)
      then show ?thesis using st1(2) st2 r1 Inr by simp
    qed
  qed
qed

lemma hooks_before_start:
  assumes "fresh_app ap" and "app_hooks env phase (ap, log, w) = (st', Inl e)"
  shows "start_failed ap log st'"
proof -
  from assms(2) obtain k w' where "st' = (ap, log @ phase_log phase k, w')" by (rule app_hooks_log)
  then show ?thesis using assms(1) by (auto simp: start_failed_def fresh_app_def)
qed

lemma app_start_spec:
  assumes "fresh_app ap" and "app_start env (ap, log, w) = (st', r)"
  shows "if is_ok r then \<exists>ap' w'. st' = (ap', log @ startup_log ap, w') \<and> started_app ap ap' else start_failed ap log st'"
proof -
  obtain st1 r1 where h1: "app_hooks env Configure (ap, log, w) = (st1, r1)" by fastforce
  then obtain k1 w1 where st1: "st1 = (ap, log @ phase_log Configure k1, w1)" "is_ok r1 \<longrightarrow> phase_log Configure k1 = full_phase ap Configure"
    by (rule app_hooks_log)
  obtain st2 r2 where h2: "app_hooks env BeforeStart st1 = (st2, r2)" by fastforce
  then obtain k2 w2 where st2: "st2 = (ap, (log @ phase_log Configure k1) @ phase_log BeforeStart k2, w2)"
      "is_ok r2 \<longrightarrow> phase_log BeforeStart k2 = full_phase ap BeforeStart"
    unfolding st1(1) by (rule app_hooks_log)
  let ?log2 = "(log @ phase_log Configure k1) @ phase_log BeforeStart k2"
  obtain st3 r3 where h3: "on_registry start_all env st2 = (st3, r3)" by fastforce
  then obtain ap3 calls w3 where st3: "st3 = (ap3, ?log2 @ map ComponentCall calls, w3)" "ap_container ap3 = ap_container ap"
      "ap_hooks ap3 = ap_hooks ap" "length (fst (ap_registry ap3)) = length (fst (ap_registry ap))"
      "is_ok r3 \<longrightarrow> app_all_running ap3 \<and> calls = map StartCall [0..<length (fst (ap_registry ap))]"
      "\<not> is_ok r3 \<longrightarrow> \<not> app_running ap3"
    unfolding st2(1) by (rule start_all_app [OF assms(1)])
  let ?log3 = "?log2 @ map ComponentCall calls"
  have whole: "start_failed ap3 ?log3 st \<Longrightarrow> start_failed ap log st" for st
    using start_failed_extend [of ap3 log "phase_log Configure k1 @ phase_log BeforeStart k2 @ map ComponentCall calls" st ap] st3(2) by auto
  consider (configure) e where "r1 = Inl e" | (before) e where "is_ok r1" "r2 = Inl e" | (start) e where "is_ok r1" "is_ok r2" "r3 = Inl e"
    | (started) "is_ok r1" "is_ok r2" "is_ok r3"
    by (cases r1; cases r2; cases r3) auto
  then show ?thesis
  proof cases
    case configure
    with h1 assms(2) hooks_before_start [OF assms(1), of env Configure log w st1 e] show ?thesis by (auto simp: app_start_def)
  next
    case before
    then have "start_failed ap (log @ phase_log Configure k1) st2" using hooks_before_start [OF assms(1)] h2 st1(1) by blast
    then show ?thesis using before h1 h2 assms(2) start_failed_extend [of ap log "phase_log Configure k1" st2 ap]
      by (cases r1) (auto simp: app_start_def)
  next
    case start
    then have "fail_start env ''component startup failed'' e False (ap3, ?log3, w3) = (st', r)"
      using h1 h2 h3 assms(2) st3(1) by (cases r1; cases r2) (auto simp: app_start_def)
    from fail_start_failed [OF this] start(3) st3(6) whole show ?thesis by auto
  next
    case started
    then have "complete_start env (ap3, ?log3, w3) = (st', r)"
      using h1 h2 h3 assms(2) st3(1) by (cases r1; cases r2; cases r3) (auto simp: app_start_def)
    from complete_start_spec [OF this] show ?thesis
      using started st1(2) st2(2) st3 whole by (auto simp: startup_log_def started_app_def full_phase_hooks [OF st3(3)] split: if_splits)
  qed
qed

section \<open>Shutdown\<close>

text \<open>The world in which the after-stop hooks of a stop begin: the before-stop hooks and the components are through.\<close>

definition stopped_world :: "('v, 'w) app_env \<Rightarrow> ('v, 'w) app_state \<Rightarrow> 'w" where
  "stopped_world env st =
     (case graceful_hooks env st of (st1, _) \<Rightarrow> case on_registry stop_all env st1 of ((_, _, w), _) \<Rightarrow> w)"

text \<open>
  What a stop of \<open>n\<close> running components leaves, and how its log ends, when the after-stop hooks \<open>hooks\<close> begin in the
  world \<open>w\<close>: these are called in turn, up to the first that fails.
\<close>

definition shut_down :: "nat \<Rightarrow> 'w async_hook list \<Rightarrow> 'w \<Rightarrow> ('v, 'w) app_state \<Rightarrow> bool" where
  "shut_down n hooks w st \<longleftrightarrow>
     (case st of (ap, log, _) \<Rightarrow>
       \<not> app_running ap \<and> ct_closeables (ap_container ap) = [] \<and>
       (\<exists>before. log = before @ map (ComponentCall \<circ> StopCall) (rev [0..<n]) @ phase_log AfterStop (hooks_run hooks w) @ [ContainerClosed]))"

lemma graceful_hooks_app: "\<exists>log' w' e. graceful_hooks env (ap, log, w) = ((ap, log', w'), e)"
  by (auto simp: graceful_hooks_def split: prod.splits option.splits sum.splits)

lemma container_close_closeables: "container_close close cells (c, w) = ((c', w'), r) \<Longrightarrow> ct_closeables c' = []"
  by (auto simp: container_close_def split: prod.splits)

lemma note_stop_error_None: "note_stop_error r context e = None \<longleftrightarrow> is_ok r \<and> e = None"
  by (auto simp: note_stop_error_def record_stop_error_def split: sum.splits option.splits)

lemma app_stop_shuts_down:
  assumes "app_all_running ap" and "app_stop env (ap, log, w) = (st', r)"
  defines "hooks \<equiv> lh_after_stop (ap_hooks ap)" and "w2 \<equiv> stopped_world env (ap, log, w)"
  shows "shut_down (length (fst (ap_registry ap))) hooks w2 st' \<and> (is_ok r \<longrightarrow> hooks_run hooks w2 = length hooks)"
proof -
  let ?n = "length (fst (ap_registry ap))"
  let ?stops = "map (ComponentCall \<circ> StopCall) (rev [0..<?n])"
  obtain log1 w1 e1 where g: "graceful_hooks env (ap, log, w) = ((ap, log1, w1), e1)"
    using graceful_hooks_app [of env ap log w] by (elim exE)
  obtain st2 r2 where s: "on_registry stop_all env (ap, log1, w1) = (st2, r2)" by fastforce
  have all: "filter (\<lambda>i. state_at (fst (ap_registry ap)) i = Running) [0..<?n] = [0..<?n]" using assms(1) by simp
  from s obtain ap2 w' where st2: "st2 = (ap2, log1 @ ?stops, w')" "ap_hooks ap2 = ap_hooks ap" "\<not> app_running ap2"
    by (rule stop_all_app) (simp only: all, blast)
  have w2: "w' = w2" using g s st2(1) by (simp add: w2_def stopped_world_def)
  obtain st3 r3 where a: "app_hooks env AfterStop st2 = (st3, r3)" by fastforce
  then obtain w3 where st3: "st3 = (ap2, (log1 @ ?stops) @ phase_log AfterStop (hooks_run hooks w2), w3)"
      "is_ok r3 \<longrightarrow> hooks_run hooks w2 = length hooks"
    unfolding st2(1) w2 hooks_def by (rule app_stop_hooks_log [rotated]) (auto simp: st2(2) fail_when_cancelled_def)
  obtain c4 w4 r4 where c: "container_close (ae_close env) (ae_cells env w3) (ap_container ap2, w3) = ((c4, w4), r4)"
    by (metis surj_pair)
  have "st' = (ap2\<lparr>ap_container := c4\<rparr>, log1 @ ?stops @ phase_log AfterStop (hooks_run hooks w2) @ [ContainerClosed], w4)"
    using assms(2) g s a c st3 by (simp add: app_stop_def close_container_def Let_def)
  moreover have "is_ok r \<longrightarrow> is_ok r3"
    using assms(2) g s a c st3(1) by (auto simp: app_stop_def close_container_def Let_def note_stop_error_None split: option.splits)
  ultimately show ?thesis using st2(3) st3(2) container_close_closeables [OF c] by (auto simp: shut_down_def)
qed

lemma combine_results_ok [simp]: "is_ok (combine_results r s) \<longleftrightarrow> is_ok r \<and> is_ok s"
  by (cases r; cases s) (auto simp: combine_results_def)

section \<open>Properties\<close>

text \<open>
  C39. Starting a built application is all or nothing. If it succeeds every component runs and the log holds, in order, the configure and
  before-start hooks, the start of every component in the order of registration, and the after-start and ready hooks, each phase complete
  and after its event. If a hook, a component or the readiness check fails, no component is left running; the container is left as it was and is
  not closed.
\<close>

theorem app_start_all_or_nothing:
  assumes "app_build b = Inr ap" and "distinct (bd_components b)" and "app_start env (ap, log, w) = (st', r)"
  shows "if is_ok r then \<exists>ap' w'. st' = (ap', log @ startup_log ap, w') \<and> started_app ap ap' else start_failed ap log st'"
  using app_start_spec [OF app_build_fresh(1) [OF assms(1,2)] assms(3)] .

text \<open>Two components, one hook per stop phase, and an environment in which the second component is up but degraded.\<close>

definition sample_builder :: "(nat, nat) app_builder" where
  "sample_builder =
     with_hook AfterStop (\<lambda>w. (w, Inr ())) (with_hook BeforeStop (\<lambda>w. (Suc w, Inr ()))
       (with_component ''api'' (with_component ''db'' (with_graceful_timeout 5 (app_builder_new None)))))"

definition sample_env :: "health_status \<Rightarrow> (nat, nat) app_env" where
  "sample_env api =
     \<lparr>ae_cancelled = (\<lambda>_. False), ae_lifecycle = (\<lambda>_ _ _. CallOk), ae_called = (\<lambda>_ w. w),
      ae_health = (\<lambda>_ i. if i = 0 then healthy ''db'' else \<lparr>h_name = ''api'', h_status = api, h_message = None\<rparr>),
      ae_close = (\<lambda>_ w. (w, Inr ())), ae_cells = (\<lambda>_. cells_empty),
      ae_timeout = (\<lambda>_ f st. case f st of (st', r) \<Rightarrow> (st', Some r))\<rparr>"

definition sample_app :: "(nat, nat) app" where
  "sample_app =
     \<lparr>ap_registry = ([\<lparr>e_name = ''db'', e_state = Created\<rparr>, \<lparr>e_name = ''api'', e_state = Created\<rparr>], []), ap_container = container_new,
      ap_hooks = \<lparr>lh_configure = [], lh_before_start = [], lh_after_start = [], lh_ready = [],
                  lh_before_stop = [\<lambda>w. (Suc w, Inr ())], lh_after_stop = [\<lambda>w. (w, Inr ())]\<rparr>,
      ap_graceful_timeout = 5\<rparr>"

lemma sample_app_built: "app_build sample_builder = Inr sample_app" "distinct (bd_components sample_builder)"
  by (simp_all add: sample_app_def app_build_def sample_builder_def with_hook_def with_component_def
      with_graceful_timeout_def app_builder_new_def foldl_register)

theorem app_start_all_or_nothing_witness:
  "\<exists>st' r. app_start (sample_env Degraded) (sample_app, [], 0) = (st', r) \<and> \<not> is_ok r \<and> start_failed sample_app [] st' \<and>
     fst (snd st') = [Published Configure, Published BeforeStart, ComponentCall (StartCall 0), ComponentCall (StartCall 1),
       Published BeforeStop, HookRun BeforeStop 0, ComponentCall (StopCall 1), ComponentCall (StopCall 0)]"
proof -
  obtain st' r where run: "app_start (sample_env Degraded) (sample_app, [], 0) = (st', r)" by fastforce
  have "\<not> is_ok (snd (app_start (sample_env Degraded) (sample_app, [], 0)))"
    "fst (snd (fst (app_start (sample_env Degraded) (sample_app, [], 0)))) =
      [Published Configure, Published BeforeStart, ComponentCall (StartCall 0), ComponentCall (StartCall 1),
       Published BeforeStop, HookRun BeforeStop 0, ComponentCall (StopCall 1), ComponentCall (StopCall 0)]"
    by code_simp+
  with app_start_all_or_nothing [OF sample_app_built run] run show ?thesis by auto
qed

text \<open>
  C40. A task run in a built application always ends with no component running. Once started, whatever the task, the hooks, the timeout of the
  graceful stop and the components do, every component is stopped, in the reverse order, then the after-stop hooks of the builder are called in
  order, up to the first that fails, and the container is closed last, with nothing left to dispose of. The run succeeds exactly if the task and the
  stop do, and then every after-stop hook has been called. A start that fails is the run's failure.
\<close>

theorem run_task_shuts_down:
  assumes "app_build b = Inr ap" and "distinct (bd_components b)" and "run_task env task (ap, [], w) = (st', r)"
  shows "\<not> app_running (fst st') \<and>
    (case app_start env (ap, [], w) of
       (_, Inl e) \<Rightarrow> r = Inl e
     | ((ap1, log1, w1), Inr _) \<Rightarrow>
         let hooks = lh_after_stop (bd_hooks b); w2 = stopped_world env (ap1, log1, fst (task w1)) in
         log1 = startup_log ap \<and> shut_down (length (bd_components b)) hooks w2 st' \<and>
         is_ok r = (is_ok (snd (task w1)) \<and> is_ok (snd (app_stop env (ap1, log1, fst (task w1))))) \<and>
         (is_ok r \<longrightarrow> hooks_run hooks w2 = length hooks))"
proof -
  note fresh = app_build_fresh [OF assms(1,2)]
  obtain ap1 log1 w1 r1 where start: "app_start env (ap, [], w) = ((ap1, log1, w1), r1)" by (metis surj_pair)
  note spec = app_start_spec [OF fresh(1) start]
  show ?thesis
  proof (cases r1)
    case (Inl e)
    with spec start assms(3) show ?thesis by (auto simp: run_task_def start_failed_def)
  next
    case (Inr u)
    obtain w2 rt where task: "task w1 = (w2, rt)" by fastforce
    obtain st2 rs where stop: "app_stop env (ap1, log1, w2) = (st2, rs)" by fastforce
    have run: "app_all_running ap1" "log1 = startup_log ap" "length (fst (ap_registry ap1)) = length (bd_components b)"
      using spec Inr fresh(2) [THEN arg_cong, of length] by (auto simp: started_app_def)
    have hooks: "lh_after_stop (ap_hooks ap1) = lh_after_stop (bd_hooks b)"
      using spec Inr assms(1) by (auto simp: started_app_def app_build_def split: option.splits)
    note stopped = app_stop_shuts_down [OF run(1) stop, unfolded run(3) hooks]
    moreover have "st' = st2" "r = combine_results rt rs" using assms(3) start Inr task stop by (simp_all add: run_task_def)
    ultimately show ?thesis using stopped start Inr task stop run(2) by (auto simp: shut_down_def Let_def)
  qed
qed

theorem run_task_shuts_down_witness:
  "\<exists>st' r. run_task (sample_env Healthy) (\<lambda>w. (w, Inl (app_error_new Internal ''task''))) (sample_app, [], 0) = (st', r) \<and>
     \<not> is_ok r \<and> \<not> app_running (fst st') \<and> drop 6 (fst (snd st')) =
       [Published BeforeStop, HookRun BeforeStop 0, ComponentCall (StopCall 1), ComponentCall (StopCall 0),
        Published AfterStop, HookRun AfterStop 0, ContainerClosed]"
proof -
  let ?run = "run_task (sample_env Healthy) (\<lambda>w. (w, Inl (app_error_new Internal ''task''))) (sample_app, [], 0)"
  obtain st' r where run: "?run = (st', r)" by fastforce
  have "\<not> is_ok (snd ?run)"
    "drop 6 (fst (snd (fst ?run))) =
       [Published BeforeStop, HookRun BeforeStop 0, ComponentCall (StopCall 1), ComponentCall (StopCall 0),
        Published AfterStop, HookRun AfterStop 0, ContainerClosed]"
    by code_simp+
  with run_task_shuts_down [OF sample_app_built run] run show ?thesis by auto
qed

end
