(* ===== verification/Spec2Isabelle.thy ===== *)
theory Spec2Isabelle
  imports Policy Dag_Run Registry Stateful_Manager State_Machine Authz Rfc3339 Duration_Text Glob Suggest
    Broker Worker Chain Di_Container Sse_Bus Discovery Template Agent Bootstrap
begin

text \<open>
  \<^bold>\<open>rskit.\<close> A verification library of the core of rskit, a toolkit of Rust crates for building services
  (\<^verbatim>\<open>src/core\<close>), with adapters to third-party systems beside it (\<^verbatim>\<open>src/contrib\<close>). The library models the crates
  that carry the toolkit's own logic: structured errors, resilience, task graphs and chains, the component
  lifecycle and the application around it, dependency injection, stateful accumulation, authorization, messaging,
  the worker pool, service discovery, server-sent events, hooks, tools and the agent loop, and the utilities for
  time, text and templates.

  \<^bold>\<open>How the parts interact.\<close> Every crate reports failures as an \<^verbatim>\<open>AppError\<close>. The resilience policy wraps an
  operation in a timeout, a retry loop, a circuit breaker, a bulkhead and a rate limiter; the messaging
  middleware, the discovery component and the agent call it. The task graph runs its nodes concurrently and cancels
  or skips what depends on a failed one; a chain runs its steps in order and compensates. The registry starts
  components in order, under timeouts, and rolls back; the application runs lifecycle hooks around it and closes the
  dependency container at the end. Accumulators buffer values in a store until a trigger fires; a manager keeps one
  per key. The authorization engine is asked by an HTTP middleware in front of a service. The agent loop sends the
  conversation to a provider through the policy, runs the tools it asks for through the tool registry with its
  approval stages, and emits hook events. The backoff calculator, civil time, globs, suggestions and templates are utilities of
  the other crates (\<^verbatim>\<open>rskit-util\<close>).

  \<^bold>\<open>Conventions.\<close> A \<^verbatim>\<open>Result\<close> is a sum with \<^term>\<open>Inl\<close> the error, a hash map an association list with distinct
  keys, and where the iteration order of a map is visible the operation takes it as an argument. A duration is a
  number of nanoseconds with its range checked; an instant and a clock reading are natural numbers.
  Effects of injected code act on a world of its own, passed through. Concurrent
  components are step relations or event sequences over the atomic sections of the code, and invariants are
  proved for every reachable state through the locale \<open>invariant_system\<close> of \<open>Prelude\<close>. Panics of the
  code are values of the model wherever the code can reach them.

  \<^bold>\<open>Theories.\<close>
  \<^item> \<open>Prelude\<close>: results, hash maps, strings, reachable states, graphs.
  \<^item> \<open>Errors\<close> (\<^verbatim>\<open>rskit-errors/src\<close>: \<^verbatim>\<open>code.rs\<close>, \<^verbatim>\<open>error.rs\<close>, \<^verbatim>\<open>response.rs\<close>, \<^verbatim>\<open>convert.rs\<close>): codes, wire names,
    errors with their constructors and builders, problem details. Wire names are a bijection; the
    HTTP status never drifts from the code; causes are not disclosed.
  \<^item> \<open>Circuit_Breaker\<close> (\<^verbatim>\<open>rskit-resilience/src/circuit_breaker.rs\<close>): the breaker's state, its two lock-protected
    sections, and all interleavings of concurrent calls. The counters' invariant, the transition
    diagram, tripping, recovery, the bound on probes, and how abandoned probes wedge it.
  \<^item> \<open>Dag\<close> (\<^verbatim>\<open>rskit-dag/src/dag.rs\<close>): building and sorting graphs; reachability, acyclicity, topological
    order. \<open>Dag_Run\<close> (\<^verbatim>\<open>dag.rs\<close>, \<^verbatim>\<open>result.rs\<close>, \<^verbatim>\<open>node.rs\<close>, \<^verbatim>\<open>as_tool.rs\<close>): the execution engine over every order of
    task events; dependencies, termination by a decreasing weight, the classification of nodes in
    the result, and a gap after an abort.
  \<^item> \<open>Backoff\<close> (\<^verbatim>\<open>rskit-util/src/backoff.rs\<close>) and \<open>Retry\<close> (\<^verbatim>\<open>rskit-resilience/src/retry\<close>): delays, binary64 rounding,
    seeded jitter, the retry loop; closed form, caps, bounds on attempts and elapsed time.
  \<^item> \<open>Admission\<close> (\<^verbatim>\<open>bulkhead.rs\<close>, \<^verbatim>\<open>rate_limiter.rs\<close>, \<^verbatim>\<open>layers\<close>): what decides before a call. The locale \<open>admission\<close> is the
    contract of a layer, interpreted on the breaker, the bulkhead and the limiter; the bulkhead's
    concurrency bound. \<open>Policy\<close> (\<^verbatim>\<open>policy.rs\<close>): the composition; bounds on calls, refusal without a call, and
    that the composed retry ignores the elapsed budget.
  \<^item> \<open>Registry\<close> (\<^verbatim>\<open>rskit-component/src\<close>): sequential and concurrent start, rollback, stop, health. All or nothing
    start, complete stop, and the gaps of the rollback.
  \<^item> \<open>Accumulator\<close> (\<^verbatim>\<open>rskit-stateful/src\<close> but for the next two): the \<^verbatim>\<open>Store\<close> trait as the locales \<open>fifo_store\<close>
    and \<open>reliable_store\<close>, interpreted on the in-memory store; the accumulator refines an abstract
    buffer and loses nothing but what \<^verbatim>\<open>max_size\<close> evicts. \<open>Stateful_Manager\<close> (\<^verbatim>\<open>manager.rs\<close>): the keyed manager
    with shared accumulators; every accumulator closed exactly once, and a race of two sweeps.
    \<open>State_Machine\<close> (\<^verbatim>\<open>machine.rs\<close>): guarded transitions with audit log and persistence.
  \<^item> \<open>Authz\<close> (\<^verbatim>\<open>rskit-authz/src\<close>): wildcard matching, conditions, roles with cyclic inheritance, policies, and the
    middleware over the locale \<open>enforcing_checker\<close>.
  \<^item> \<open>Civil\<close>, \<open>Rfc3339\<close>, \<open>Duration_Text\<close> (\<^verbatim>\<open>rskit-util/src/time\<close>, \<^verbatim>\<open>decimal.rs\<close>, \<^verbatim>\<open>bytes.rs\<close>): the Gregorian calendar and
    its conversions, timestamps and duration texts; validity and round trips. The calendar
    arithmetic is reduced to a table of the 400 years of an era and the 366 days of a year, which the
    kernel evaluates, and the monotonicity of the closed form between the table's rows.

  \<^item> \<open>Glob\<close> (\<^verbatim>\<open>rskit-util/src/glob.rs\<close>) and \<open>Suggest\<close> (\<^verbatim>\<open>strings/suggest.rs\<close>, \<^verbatim>\<open>strings/resolve.rs\<close>): the backtracking matcher agrees
    with the recursive meaning of patterns; the edit distance with its rotating rows agrees with the recurrence, and
    the nearest candidate is the best one. \<open>Template\<close> (\<^verbatim>\<open>template/\<close>): parsing accepts exactly the texts that printing yields,
    and rendering fills in every placeholder.
  \<^item> \<open>Messaging\<close> (\<^verbatim>\<open>rskit-messaging/src\<close>: \<^verbatim>\<open>handler.rs\<close>, \<^verbatim>\<open>router.rs\<close>, \<^verbatim>\<open>middleware/\<close>): handlers that act on a world; deduplication forwards a
    message once, dead letters are redacted header by header, and retry outside of deduplication loses a message. \<open>Broker\<close> (\<^verbatim>\<open>memory/\<close>,
    \<^verbatim>\<open>batch.rs\<close>, \<^verbatim>\<open>managed_producer.rs\<close>): published messages and batches; the batches are
    the messages in the order of their pushes, over all interleavings of the lock sections of concurrent senders, the timer and closes.
  \<^item> \<open>Worker\<close> (\<^verbatim>\<open>rskit-worker/src\<close>): the pool over every interleaving of submitters, runner, tasks and aborts, where a spawned task
    starts when it is polled and an aborted one ends when it yields; every accepted task is answered once, and a closed pool ends. \<open>Chain\<close> (\<^verbatim>\<open>rskit-chain/src\<close>): the nested runners refine a list of steps with the
    cleanups of the completed ones in reverse and their errors in the report.
  \<^item> \<open>Di_Container\<close> (\<^verbatim>\<open>rskit-di/src\<close>): resolution by arbitrary factories ends and builds a singleton once; disposal is
    complete. \<open>Bootstrap\<close> (\<^verbatim>\<open>rskit-bootstrap/src\<close>): the application over the registry and the container; start is all or
    nothing, and a run ends with everything stopped, the after-stop hooks called and the container closed.
  \<^item> \<open>Sse_Bus\<close> (\<^verbatim>\<open>rskit-sse/src/bus.rs\<close>): a client that resumes is given every event that the replay buffer still holds and every later one, over
    all interleavings of publishers and polling clients, and skips events of the bounded channel only if it lags behind its capacity. \<open>Hooks\<close> (\<^verbatim>\<open>rskit-hook/src\<close>): dispatch refines running the handlers in registration
    order, whatever they do to the registry, panics and cancellation included. \<open>Discovery\<close> (\<^verbatim>\<open>rskit-discovery/src\<close>): balancers pick what their reference definitions pick;
    a service is registered while its component runs.
  \<^item> \<open>Tools\<close> (\<^verbatim>\<open>rskit-tool/src\<close>): no sensitive call reaches a tool without a decision that lets it pass. \<open>Agent\<close>
    (\<^verbatim>\<open>rskit-agent/src\<close>): the provider of an agent with tools sees every tool call answered, a run stays within its budgets of turns and tool calls, and the
    streaming run agrees with the blocking one.

  \<^bold>\<open>Loops, bounds and fuel.\<close> No model uses fuel. Loops are structural recursions or carry a measure. The
  eviction loop of the accumulator, which only the store's contract ends, and the wildcard loop of the glob
  matcher are partial functions that are shown to return, the former for every store that keeps the contract. The
  retry loop ends by its attempt bound, the role walk by the roles not visited yet, resolution by the registered
  keys that are not on the stack, the eviction of deduplication by the size of its map, the agent run by its turn
  budget. A dependency factory is the
  finite tree of its requests. Counters that can wrap in the code
  are words: the version of a state machine, event ids, the counters of the balancers.

  \<^bold>\<open>Not modelled.\<close> The adapters of \<^verbatim>\<open>src/contrib\<close> and the crates that are input, output or glue over third-party
  libraries (HTTP, gRPC, databases, files, processes, media, telemetry, cryptography, language models): their
  behaviour is that of code outside the repository. Display-only formatting over binary64,
  \<^verbatim>\<open>Debug\<close> and serde derives, and tracing. Timers, random draws and the Unicode tables are
  parameters; of the channels of the runtime the documented behaviour that the code relies on is modelled, their sizes are parameters. Time that
  passes while the consumer of an agent's stream holds an event is not modelled. Candidates for an extension are listed with their reasons in the manifest: RFC 2822 dates, case and
  truncation of strings, bounded collections, streams, the cache, validation, slash commands, the typed event bus, batches of
  tool calls and the Consul client.
\<close>

end
